(* ===== verification/Prelude.thy ===== *)
theory Prelude
  imports Main "HOL-Library.Word"
begin

text \<open>
  Shared vocabulary of the development.

  \<^item> Machine integers.  Every integer of the source keeps its width: \<open>u64\<close>, \<open>u32\<close>,
    \<open>u16\<close> and \<open>u8\<close> are words read with \<^const>\<open>uint\<close>, and \<open>i64\<close> is a
    64-bit word read with \<^const>\<open>sint\<close> (two's complement).  Addition and subtraction wrap
    around.  C++ leaves signed overflow undefined; the model takes the wrapped result that the
    two's complement targets of the build give, and a theorem that needs a sum not to
    overflow says so.  \<open>size_t\<close> values that index or count objects in memory are \<open>nat\<close>.
  \<^item> Pointers into a pool are slot numbers: \<open>ptr\<close> is \<open>nat option\<close>, with \<open>None\<close>
    for \<open>nullptr\<close>.
  \<^item> \<open>ankerl::unordered_dense::map\<close> is a third-party container.  It is a parameter of the
    model: the record \<open>hash_map_ops\<close> holds its operations, \<open>hash_map_spec\<close> its documented
    behaviour.
\<close>

named_theorems word_arith \<open>moving between words and the integers they stand for\<close>
named_theorems hash_map_simps \<open>lookup after an update of the third-party hash map\<close>

subsection \<open>Machine integers\<close>

type_synonym u8 = "8 word"
type_synonym u16 = "16 word"
type_synonym u32 = "32 word"
type_synonym u64 = "64 word"
type_synonym i64 = "64 word"
type_synonym ptr = "nat option"

lemma sint_i64_bounds:
  fixes a :: i64
  shows "- (2 ^ 63) \<le> sint a" "sint a < 2 ^ 63"
  using sint_ge [of a] sint_lt [of a] by simp_all

lemma sint_i64_eqI [word_arith]:
  fixes a :: i64
  assumes "a = word_of_int k" "- (2 ^ 63) \<le> k" "k < 2 ^ 63"
  shows "sint a = k"
proof -
  have "sint a = signed_take_bit 63 k"
    using assms(1) by (simp add: sint_sbintrunc')
  also have "\<dots> = k"
    using assms(2,3) by (intro signed_take_bit_int_eq_self) simp_all
  finally show ?thesis .
qed

lemma word_of_sint_minus: "a - b = word_of_int (sint a - sint b)" for a b :: i64
  by simp

lemma word_of_sint_plus: "a + b = word_of_int (sint a + sint b)" for a b :: i64
  by simp

lemma sint_minus_i64 [word_arith]:
  fixes a b :: i64
  assumes "0 \<le> sint b" "0 \<le> sint a"
  shows "sint (a - b) = sint a - sint b"
  using assms sint_i64_bounds [of a] sint_i64_bounds [of b]
  by (intro sint_i64_eqI [OF word_of_sint_minus]) linarith+

lemma sint_plus_i64 [word_arith]:
  fixes a b :: i64
  assumes "- (2 ^ 63) \<le> sint a + sint b" "sint a + sint b < 2 ^ 63"
  shows "sint (a + b) = sint a + sint b"
  using assms by (intro sint_i64_eqI [OF word_of_sint_plus])

lemma sint_of_nat_i64 [word_arith]:
  assumes "n < 2 ^ 63"
  shows "sint (of_nat n :: i64) = int n"
  using assms by (intro sint_i64_eqI) auto

lemma sint_eq_iff_i64: "sint a = sint b \<longleftrightarrow> a = b" for a b :: i64
  using word_eq_iff_signed by blast

lemma of_nat_u32_eq_0 [word_arith]:
  assumes "n < 2 ^ 32"
  shows "(of_nat n :: u32) = 0 \<longleftrightarrow> n = 0"
proof -
  have "unat (of_nat n :: u32) = n"
    using assms by (simp add: unat_of_nat)
  then show ?thesis by (metis unat_eq_zero of_nat_0)
qed

subsection \<open>Lists as arrays\<close>

lemma nth_update_if: "xs[i := x] ! j = (if i = j \<and> i < length xs then x else xs ! j)"
  by (cases "i < length xs") (auto simp: nth_list_update list_update_beyond)

lemma sum_list_append_singleton [simp]: "sum_list (xs @ [x]) = sum_list xs + (x::i64)"
  by simp

lemma map_list_update_notin: "p \<notin> set ps \<Longrightarrow> map (\<lambda>q. f (h[p := v] ! q)) ps = map (\<lambda>q. f (h ! q)) ps"
  by (induction ps) auto

lemma split_list_distinct:
  assumes "p \<in> set ps" "distinct ps"
  obtains xs ys where "ps = xs @ p # ys" "p \<notin> set xs" "p \<notin> set ys"
  using assms by (metis distinct.simps(2) distinct_append not_distinct_conv_prefix split_list_first)

lemma filter_neq_split:
  "p \<notin> set xs \<Longrightarrow> p \<notin> set ys \<Longrightarrow> filter (\<lambda>q. q \<noteq> p) (xs @ p # ys) = xs @ ys"
  by (induction xs) (auto intro: filter_True)

lemma filter_neq_id: "p \<notin> set xs \<Longrightarrow> filter (\<lambda>q. q \<noteq> p) xs = xs"
  by (auto intro: filter_True)

subsection \<open>The third-party hash map\<close>

text \<open>
  The operations of \<open>ankerl::unordered_dense::map\<close> the program calls.  \<open>hm_find\<close> is
  \<open>find\<close> (\<open>None\<close> for \<open>end()\<close>; \<open>contains\<close> is \<open>find\<close> against \<open>end()\<close>),
  \<open>hm_emplace\<close> is \<open>emplace\<close>, which keeps an entry already there, \<open>hm_erase\<close> is
  \<open>erase\<close>, and \<open>hm_assign\<close> stores through the reference that \<open>operator[]\<close> returns.
\<close>

record ('k, 'v, 'm) hash_map_ops =
  hm_empty :: 'm
  hm_find :: "'m \<Rightarrow> 'k \<Rightarrow> 'v option"
  hm_emplace :: "'m \<Rightarrow> 'k \<Rightarrow> 'v \<Rightarrow> 'm"
  hm_erase :: "'m \<Rightarrow> 'k \<Rightarrow> 'm"
  hm_assign :: "'m \<Rightarrow> 'k \<Rightarrow> 'v \<Rightarrow> 'm"

definition hash_map_spec :: "('k, 'v, 'm) hash_map_ops \<Rightarrow> bool" where
  "hash_map_spec H \<longleftrightarrow>
     (\<forall>k. hm_find H (hm_empty H) k = None) \<and>
     (\<forall>m k v j. hm_find H (hm_emplace H m k v) j =
        (if j = k \<and> hm_find H m k = None then Some v else hm_find H m j)) \<and>
     (\<forall>m k j. hm_find H (hm_erase H m k) j = (if j = k then None else hm_find H m j)) \<and>
     (\<forall>m k v j. hm_find H (hm_assign H m k v) j = (if j = k then Some v else hm_find H m j))"

lemma hash_map_specD [hash_map_simps]:
  assumes "hash_map_spec H"
  shows "hm_find H (hm_empty H) j = None"
    and "hm_find H (hm_emplace H m k v) j =
      (if j = k \<and> hm_find H m k = None then Some v else hm_find H m j)"
    and "hm_find H (hm_erase H m k) j = (if j = k then None else hm_find H m j)"
    and "hm_find H (hm_assign H m k v) j = (if j = k then Some v else hm_find H m j)"
  using assms unfolding hash_map_spec_def by blast+

text \<open>A concrete container with that behaviour, for closed instances of the theorems.\<close>

definition fun_map :: "('k, 'v, 'k \<rightharpoonup> 'v) hash_map_ops" where
  "fun_map = \<lparr>hm_empty = Map.empty, hm_find = (\<lambda>m k. m k),
     hm_emplace = (\<lambda>m k v. if m k = None then m(k \<mapsto> v) else m),
     hm_erase = (\<lambda>m k. m(k := None)), hm_assign = (\<lambda>m k v. m(k \<mapsto> v))\<rparr>"

lemma fun_map_spec: "hash_map_spec fun_map"
  by (simp add: hash_map_spec_def fun_map_def)

end
