(* ===== verification/Slab_Pool.thy ===== *)
theory Slab_Pool
  imports Prelude
begin

text \<open>
  \<open>memory/slab_pool.hpp\<close>: a fixed-capacity object pool.  \<open>storage_\<close> is a list of
  slots, \<open>next_free_\<close> the parallel free-list array, an object pointer is its slot number.
  \<open>Index\<close> is \<open>uint32_t\<close>: slot numbers stay below \<open>kNone\<close>, the largest 32-bit value,
  by the class's \<open>static_assert\<close>, so they are \<open>nat\<close>.

  The theory states what an object pool promises as the locale \<open>object_pool\<close>, proves the
  consequences a client relies on inside it, and interprets it on the slab pool.
\<close>

definition kNone :: nat where
  "kNone = 2 ^ 32 - 1"

record 'a slab_pool =
  sp_storage :: "'a list"
  sp_next_free :: "nat list"
  sp_free_head :: nat
  sp_live_count :: nat

text \<open>
  The constructor's loop links slot \<open>i\<close> to \<open>i + 1\<close> and the last slot to \<open>kNone\<close>.
  The raw bytes of \<open>storage_\<close> are never read before a placement-new; the model fills
  them with the default object.
\<close>

definition slab_pool_init :: "nat \<Rightarrow> 'a \<Rightarrow> 'a slab_pool" where
  "slab_pool_init capacity dflt = \<lparr>sp_storage = replicate capacity dflt,
     sp_next_free = map (\<lambda>i. if i + 1 < capacity then i + 1 else kNone) [0..<capacity],
     sp_free_head = 0, sp_live_count = 0\<rparr>"

definition allocate :: "'a \<Rightarrow> 'a slab_pool \<Rightarrow> ptr \<times> 'a slab_pool" where
  "allocate dflt p =
     (if sp_free_head p = kNone then (None, p)
      else let idx = sp_free_head p
        in (Some idx, p\<lparr>sp_free_head := sp_next_free p ! idx, sp_live_count := sp_live_count p + 1,
              sp_storage := (sp_storage p)[idx := dflt]\<rparr>))"

definition deallocate :: "nat \<Rightarrow> 'a slab_pool \<Rightarrow> 'a slab_pool" where
  "deallocate idx p =
     p\<lparr>sp_next_free := (sp_next_free p)[idx := sp_free_head p], sp_free_head := idx,
       sp_live_count := sp_live_count p - 1\<rparr>"

subsection \<open>The free list and the pool invariant\<close>

primrec free_chain :: "nat list \<Rightarrow> nat \<Rightarrow> nat list \<Rightarrow> bool" where
  "free_chain nx h [] \<longleftrightarrow> h = kNone"
| "free_chain nx h (i # fl) \<longleftrightarrow> h = i \<and> i < length nx \<and> free_chain nx (nx ! i) fl"

definition pool_rep :: "nat \<Rightarrow> 'a slab_pool \<Rightarrow> nat list \<Rightarrow> bool" where
  "pool_rep capacity p fl \<longleftrightarrow>
     0 < capacity \<and> capacity \<le> kNone \<and> length (sp_storage p) = capacity \<and>
     length (sp_next_free p) = capacity \<and> free_chain (sp_next_free p) (sp_free_head p) fl \<and>
     distinct fl \<and> sp_live_count p + length fl = capacity"

text \<open>The free list is a function of the pool: follow the links, at most once per slot.\<close>

fun walk_free :: "nat \<Rightarrow> nat list \<Rightarrow> nat \<Rightarrow> nat list" where
  "walk_free 0 nx h = []"
| "walk_free (Suc k) nx h = (if h = kNone then [] else h # walk_free k nx (nx ! h))"

definition free_slots :: "'a slab_pool \<Rightarrow> nat list" where
  "free_slots p = walk_free (length (sp_next_free p)) (sp_next_free p) (sp_free_head p)"

definition pool_inv :: "nat \<Rightarrow> 'a slab_pool \<Rightarrow> bool" where
  "pool_inv capacity p \<longleftrightarrow> pool_rep capacity p (free_slots p)"

definition live_slots :: "nat \<Rightarrow> 'a slab_pool \<Rightarrow> nat set" where
  "live_slots capacity p = {..<capacity} - set (free_slots p)"

lemma free_chain_update:
  "i \<notin> set fl \<Longrightarrow> free_chain (nx[i := v]) h fl = free_chain nx h fl"
  by (induction fl arbitrary: h) auto

lemma free_chain_bound: "free_chain nx h fl \<Longrightarrow> i \<in> set fl \<Longrightarrow> i < length nx"
  by (induction fl arbitrary: h) auto

lemma walk_free_chain:
  "free_chain nx h fl \<Longrightarrow> length nx \<le> kNone \<Longrightarrow> length fl \<le> k \<Longrightarrow> walk_free k nx h = fl"
proof (induction fl arbitrary: h k)
  case Nil
  then show ?case by (cases k) auto
next
  case (Cons i fl)
  then obtain k' where "k = Suc k'" by (cases k) auto
  with Cons show ?case by auto
qed

lemma pool_rep_free_slots:
  assumes "pool_rep capacity p fl"
  shows "free_slots p = fl"
  using assms walk_free_chain [of "sp_next_free p" "sp_free_head p" fl "length (sp_next_free p)"]
  by (simp add: pool_rep_def free_slots_def)

lemma pool_repI: "pool_rep capacity p fl \<Longrightarrow> pool_inv capacity p"
  using pool_rep_free_slots [of capacity p fl] by (simp add: pool_inv_def)

lemma free_chain_init:
  "i \<le> n \<Longrightarrow> free_chain (map (\<lambda>j. if j + 1 < n then j + 1 else kNone) [0..<n])
     (if i < n then i else kNone) [i..<n]"
proof (induction "n - i" arbitrary: i)
  case 0
  then show ?case by simp
next
  case (Suc d)
  then have "i < n" by simp
  moreover from \<open>i < n\<close> have "[i..<n] = i # [Suc i..<n]" by (rule upt_conv_Cons)
  moreover from Suc(2) have "d = n - Suc i" by simp
  ultimately show ?case using Suc(1) [of "Suc i"] by auto
qed

lemma pool_rep_init:
  "0 < capacity \<Longrightarrow> capacity \<le> kNone \<Longrightarrow>
     pool_rep capacity (slab_pool_init capacity d) [0..<capacity]"
  using free_chain_init [of 0 capacity] by (simp add: pool_rep_def slab_pool_init_def)

lemma allocate_None:
  assumes "pool_rep capacity p fl"
  shows "fst (allocate d p) = None \<longleftrightarrow> fl = []"
  using assms by (cases fl) (auto simp: pool_rep_def allocate_def Let_def)

lemma allocate_Some:
  assumes "pool_rep capacity p (i # fl)"
  shows "allocate d p = (Some i, p\<lparr>sp_free_head := sp_next_free p ! i, sp_live_count := sp_live_count p + 1,
      sp_storage := (sp_storage p)[i := d]\<rparr>)"
    and "pool_rep capacity (snd (allocate d p)) fl"
  using assms by (auto simp: pool_rep_def allocate_def Let_def)

lemma deallocate_rep:
  assumes "pool_rep capacity p fl" "i < capacity" "i \<notin> set fl"
  shows "pool_rep capacity (deallocate i p) (i # fl)"
proof -
  have "card (insert i (set fl)) \<le> card {..<capacity}"
    using assms by (intro card_mono) (auto simp: pool_rep_def dest: free_chain_bound)
  then have "length fl < capacity"
    using assms by (simp add: pool_rep_def distinct_card)
  with assms show ?thesis
    by (auto simp: pool_rep_def deallocate_def free_chain_update)
qed

subsection \<open>The object-pool interface\<close>

locale object_pool =
  fixes alloc :: "'p \<Rightarrow> ptr \<times> 'p"
    and dealloc :: "nat \<Rightarrow> 'p \<Rightarrow> 'p"
    and live :: "'p \<Rightarrow> nat set"
    and count :: "'p \<Rightarrow> nat"
    and capacity :: nat
    and invar :: "'p \<Rightarrow> bool"
  assumes alloc_full: "invar p \<Longrightarrow> alloc p = (None, p') \<Longrightarrow> p' = p \<and> count p = capacity"
    and alloc_fresh: "invar p \<Longrightarrow> alloc p = (Some i, p') \<Longrightarrow>
      invar p' \<and> i \<notin> live p \<and> i < capacity \<and> live p' = insert i (live p) \<and> count p' = count p + 1"
    and dealloc_live: "invar p \<Longrightarrow> i \<in> live p \<Longrightarrow>
      invar (dealloc i p) \<and> live (dealloc i p) = live p - {i} \<and> count (dealloc i p) + 1 = count p"
    and count_live: "invar p \<Longrightarrow> count p = card (live p)"
    and live_bound: "invar p \<Longrightarrow> live p \<subseteq> {..<capacity}"
begin

lemma count_le_capacity: "invar p \<Longrightarrow> count p \<le> capacity"
  using card_mono [OF finite_lessThan live_bound, of p] by (simp add: count_live)

lemma alloc_succeeds_below_capacity:
  assumes "invar p" "count p < capacity"
  shows "\<exists>i p'. alloc p = (Some i, p')"
proof (cases "alloc p")
  case (Pair r p')
  with assms alloc_full [of p p'] show ?thesis by (cases r) auto
qed

lemma dealloc_then_alloc_succeeds:
  assumes "invar p" "i \<in> live p"
  shows "\<exists>j p'. alloc (dealloc i p) = (Some j, p')"
proof -
  have "invar (dealloc i p)" "count (dealloc i p) < capacity"
    using dealloc_live [OF assms] count_le_capacity [OF assms(1)] by linarith+
  then show ?thesis by (rule alloc_succeeds_below_capacity)
qed

end

lemma pool_inv_alloc_fresh:
  assumes "pool_inv capacity p" "allocate d p = (Some i, p')"
  shows "pool_inv capacity p' \<and> i \<notin> live_slots capacity p \<and> i < capacity \<and>
    live_slots capacity p' = insert i (live_slots capacity p) \<and> sp_live_count p' = sp_live_count p + 1"
proof -
  from assms have rep: "pool_rep capacity p (free_slots p)" by (simp add: pool_inv_def)
  with assms(2) obtain fl where fl: "free_slots p = i # fl"
    using allocate_None [OF rep, of d] allocate_Some(1) [of capacity p _ _ d]
    by (cases "free_slots p") auto
  from rep have "pool_rep capacity p' fl"
    using allocate_Some(2) [of capacity p i fl d] assms(2) fl by simp
  moreover have "i < capacity" "i \<notin> set fl"
    using rep fl by (auto simp: pool_rep_def)
  moreover have "sp_live_count p' = sp_live_count p + 1"
    using allocate_Some(1) [of capacity p i fl d] rep fl assms(2) by auto
  ultimately show ?thesis
    using fl pool_rep_free_slots [of capacity p' fl] pool_repI [of capacity p' fl]
    by (auto simp: live_slots_def)
qed

lemma pool_inv_alloc_full:
  assumes "pool_inv capacity p" "allocate d p = (None, p')"
  shows "p' = p \<and> sp_live_count p = capacity"
proof -
  from assms have rep: "pool_rep capacity p (free_slots p)" by (simp add: pool_inv_def)
  then have "free_slots p = []" using allocate_None [OF rep, of d] assms(2) by simp
  with rep assms(2) show ?thesis by (auto simp: pool_rep_def allocate_def Let_def split: if_splits)
qed

lemma pool_inv_dealloc:
  assumes "pool_inv capacity p" "i \<in> live_slots capacity p"
  shows "pool_inv capacity (deallocate i p) \<and>
    live_slots capacity (deallocate i p) = live_slots capacity p - {i} \<and>
    sp_live_count (deallocate i p) + 1 = sp_live_count p"
proof -
  from assms have rep: "pool_rep capacity p (free_slots p)" by (simp add: pool_inv_def)
  from assms(2) have i: "i < capacity" "i \<notin> set (free_slots p)" by (auto simp: live_slots_def)
  have rep': "pool_rep capacity (deallocate i p) (i # free_slots p)"
    by (rule deallocate_rep [OF rep i])
  then have "length (free_slots p) < capacity" by (simp add: pool_rep_def)
  with rep have "0 < sp_live_count p" by (simp add: pool_rep_def)
  with rep' show ?thesis
    using pool_rep_free_slots [OF rep'] pool_repI [OF rep']
    by (auto simp: live_slots_def deallocate_def)
qed

lemma pool_inv_count:
  assumes "pool_inv capacity p"
  shows "sp_live_count p = card (live_slots capacity p)"
proof -
  from assms have rep: "pool_rep capacity p (free_slots p)" by (simp add: pool_inv_def)
  then have "set (free_slots p) \<subseteq> {..<capacity}"
    by (auto simp: pool_rep_def dest: free_chain_bound)
  then have "card (live_slots capacity p) = capacity - card (set (free_slots p))"
    by (simp add: live_slots_def card_Diff_subset)
  moreover have "sp_live_count p + card (set (free_slots p)) = capacity"
    using rep by (simp add: pool_rep_def distinct_card)
  ultimately show ?thesis by linarith
qed

interpretation slab: object_pool "allocate d" deallocate "live_slots capacity" sp_live_count capacity "pool_inv capacity"
  for d :: 'a and capacity
proof (unfold_locales, goal_cases)
  case (1 p p')
  then show ?case by (rule pool_inv_alloc_full)
next
  case (2 p i p')
  then show ?case by (rule pool_inv_alloc_fresh)
next
  case (3 p i)
  then show ?case by (rule pool_inv_dealloc)
next
  case (4 p)
  then show ?case by (rule pool_inv_count)
next
  case (5 p)
  then show ?case by (auto simp: live_slots_def)
qed

end
