(* ===== verification/Pmr_Pool.thy ===== *)
theory Pmr_Pool
  imports Slab_Pool
begin

text \<open>
  \<open>memory/pmr_pool.hpp\<close>.  The blocks of the chunk that the standard pool resource carves out of the
  buffer are numbered; which free block the resource hands out is its own affair, so its choice is a
  parameter \<open>pick\<close>, a function of the blocks in use.  \<open>pool_resource\<close> is what the class relies
  on: as long as fewer blocks than the capacity are in use the resource returns one that is not.
  The pool is a second provider of the interface \<open>object_pool\<close>.
\<close>

datatype pmr_error = BadAlloc

record 'a pmr_pool =
  pp_capacity :: nat
  pp_live_count :: nat
  pp_blocks :: "nat set"
  pp_objects :: "nat \<Rightarrow> 'a option"

definition pmr_pool_init :: "nat \<Rightarrow> 'a pmr_pool" where
  "pmr_pool_init capacity = \<lparr>pp_capacity = capacity, pp_live_count = 0, pp_blocks = {}, pp_objects = (\<lambda>_. None)\<rparr>"

definition pmr_buffer_bytes :: "nat \<Rightarrow> nat \<Rightarrow> nat" where
  "pmr_buffer_bytes object_size capacity = capacity * object_size * 2 + 2 ^ 16"

definition pmr_allocate :: "(nat set \<Rightarrow> nat) \<Rightarrow> 'a \<Rightarrow> 'a pmr_pool \<Rightarrow> pmr_error + nat \<times> 'a pmr_pool" where
  "pmr_allocate pick dflt p =
     (if pp_capacity p \<le> pp_live_count p then Inl BadAlloc
      else let mem = pick (pp_blocks p)
        in Inr (mem, p\<lparr>pp_blocks := insert mem (pp_blocks p), pp_live_count := pp_live_count p + 1,
              pp_objects := (pp_objects p)(mem := Some dflt)\<rparr>))"

definition pmr_deallocate :: "nat \<Rightarrow> 'a pmr_pool \<Rightarrow> 'a pmr_pool" where
  "pmr_deallocate mem p =
     p\<lparr>pp_objects := (pp_objects p)(mem := None), pp_blocks := pp_blocks p - {mem}, pp_live_count := pp_live_count p - 1\<rparr>"

definition pool_resource :: "nat \<Rightarrow> (nat set \<Rightarrow> nat) \<Rightarrow> bool" where
  "pool_resource capacity pick \<longleftrightarrow>
     (\<forall>used \<subseteq> {..<capacity}. card used < capacity \<longrightarrow> pick used < capacity \<and> pick used \<notin> used)"

text \<open>A resource that hands out the lowest free block.\<close>

definition lowest_free :: "nat set \<Rightarrow> nat" where
  "lowest_free used = (LEAST i. i \<notin> used)"

lemma lowest_free_resource: "pool_resource capacity lowest_free"
proof -
  have "lowest_free used < capacity \<and> lowest_free used \<notin> used" if u: "used \<subseteq> {..<capacity}" "card used < capacity" for used
  proof -
    have "\<exists>i < capacity. i \<notin> used"
    proof (rule ccontr)
      assume "\<not> ?thesis"
      then have "used = {..<capacity}" using u(1) by auto
      with u(2) show False by simp
    qed
    then obtain i where i: "i < capacity" "i \<notin> used" by blast
    have "lowest_free used \<le> i" unfolding lowest_free_def using i(2) by (rule Least_le)
    moreover have "lowest_free used \<notin> used" unfolding lowest_free_def using i(2) by (rule LeastI [of "\<lambda>i. i \<notin> used"])
    ultimately show ?thesis using i(1) by simp
  qed
  then show ?thesis by (simp add: pool_resource_def)
qed

definition pmr_inv :: "(nat set \<Rightarrow> nat) \<Rightarrow> nat \<Rightarrow> 'a pmr_pool \<Rightarrow> bool" where
  "pmr_inv pick capacity p \<longleftrightarrow> pool_resource capacity pick \<and> pp_capacity p = capacity \<and>
     pp_live_count p = card (pp_blocks p) \<and> pp_blocks p \<subseteq> {..<capacity} \<and> dom (pp_objects p) = pp_blocks p"

lemma pmr_init_inv: "pool_resource capacity pick \<Longrightarrow> pmr_inv pick capacity (pmr_pool_init capacity)"
  by (simp add: pmr_inv_def pmr_pool_init_def)

text \<open>The exception as the null pointer of the interface.\<close>

definition pmr_try :: "(nat set \<Rightarrow> nat) \<Rightarrow> 'a \<Rightarrow> 'a pmr_pool \<Rightarrow> ptr \<times> 'a pmr_pool" where
  "pmr_try pick dflt p = (case pmr_allocate pick dflt p of Inl e \<Rightarrow> (None, p) | Inr (mem, p') \<Rightarrow> (Some mem, p'))"

interpretation pmr: object_pool "pmr_try pick d" pmr_deallocate pp_blocks pp_live_count capacity "pmr_inv pick capacity"
  for pick and d :: 'a and capacity
proof (unfold_locales, goal_cases)
  case (1 p p')
  then have "card (pp_blocks p) \<le> capacity" using card_mono [of "{..<capacity}" "pp_blocks p"] by (simp add: pmr_inv_def)
  with 1 show ?case by (auto simp: pmr_try_def pmr_allocate_def pmr_inv_def Let_def split: if_splits)
next
  case (2 p i p')
  then have p: "pp_live_count p < capacity" "i = pick (pp_blocks p)"
    "p' = p\<lparr>pp_blocks := insert i (pp_blocks p), pp_live_count := pp_live_count p + 1, pp_objects := (pp_objects p)(i := Some d)\<rparr>"
    by (auto simp: pmr_try_def pmr_allocate_def pmr_inv_def Let_def split: if_splits)
  moreover have "i < capacity" "i \<notin> pp_blocks p" using 2(1) p(1,2) by (simp_all add: pmr_inv_def pool_resource_def)
  moreover have "finite (pp_blocks p)" using 2(1) finite_subset [of "pp_blocks p" "{..<capacity}"] by (simp add: pmr_inv_def)
  ultimately show ?case using 2(1) by (auto simp: pmr_inv_def)
next
  case (3 p i)
  then have "finite (pp_blocks p)" using finite_subset [of "pp_blocks p" "{..<capacity}"] by (simp add: pmr_inv_def)
  then have "Suc (card (pp_blocks p - {i})) = card (pp_blocks p)" using 3(2) by (rule card_Suc_Diff1)
  with 3 show ?case by (auto simp: pmr_inv_def pmr_deallocate_def)
next
  case (4 p)
  then show ?case by (simp add: pmr_inv_def)
next
  case (5 p)
  then show ?case by (simp add: pmr_inv_def)
qed

end
