(* ===== verification/Bitmap.thy ===== *)
theory Bitmap
  imports Prelude
begin

unbundle bit_operations_syntax

text \<open>
  \<open>book/bitmap.hpp\<close>: the fixed-size bitset behind the price ladder.  The model keeps the
  64-bit words and the two word-at-a-time scans; the reference is the plain set of occupied
  bit positions \<open>bits\<close>.  The main results are that \<open>set\<close> and \<open>clear\<close> act on that set
  as insertion and removal and that the two scans return its greatest element at or below,
  and its least element at or above, a position.
\<close>

subsection \<open>Bit counting (standard header \<open>bit\<close>)\<close>

definition countr_zero :: "u64 \<Rightarrow> nat" where
  "countr_zero w = length (takeWhile (\<lambda>k. \<not> bit w k) [0..<64])"

definition countl_zero :: "u64 \<Rightarrow> nat" where
  "countl_zero w = length (takeWhile (\<lambda>k. \<not> bit w (63 - k)) [0..<64])"

subsection \<open>The class\<close>

record bitmap =
  bm_num_bits :: nat
  bm_words :: "u64 list"

definition bitmap_init :: "nat \<Rightarrow> bitmap" where
  "bitmap_init n = \<lparr>bm_num_bits = n, bm_words = replicate ((n + 63) div 64) 0\<rparr>"

definition bm_set :: "nat \<Rightarrow> bitmap \<Rightarrow> bitmap" where
  "bm_set i b = b\<lparr>bm_words := (bm_words b)[i div 64 := bm_words b ! (i div 64) OR push_bit (i mod 64) 1]\<rparr>"

definition bm_clear :: "nat \<Rightarrow> bitmap \<Rightarrow> bitmap" where
  "bm_clear i b = b\<lparr>bm_words := (bm_words b)[i div 64 := bm_words b ! (i div 64) AND NOT (push_bit (i mod 64) 1)]\<rparr>"

definition bm_test :: "bitmap \<Rightarrow> nat \<Rightarrow> bool" where
  "bm_test b i \<longleftrightarrow> (drop_bit (i mod 64) (bm_words b ! (i div 64)) AND 1) \<noteq> 0"

text \<open>The \<open>for (;;)\<close> loop of \<open>find_highest_at_or_below\<close>, from word \<open>word_idx\<close> downwards.\<close>

fun scan_down :: "u64 list \<Rightarrow> nat \<Rightarrow> u64 \<Rightarrow> nat option" where
  "scan_down ws 0 w = (if w \<noteq> 0 then Some (63 - countl_zero w) else None)"
| "scan_down ws (Suc k) w =
     (if w \<noteq> 0 then Some (Suc k * 64 + (63 - countl_zero w)) else scan_down ws k (ws ! k))"

definition find_highest_at_or_below :: "bitmap \<Rightarrow> nat \<Rightarrow> nat option" where
  "find_highest_at_or_below b i0 =
     (if bm_num_bits b = 0 then None
      else let i = (if i0 \<ge> bm_num_bits b then bm_num_bits b - 1 else i0);
               word_idx = i div 64;
               bit_in_word = i mod 64;
               first_mask = (if bit_in_word = 63 then NOT 0 else push_bit (bit_in_word + 1) 1 - 1)
           in scan_down (bm_words b) word_idx (bm_words b ! word_idx AND first_mask))"

text \<open>The loop of \<open>find_lowest_at_or_above\<close>, from word \<open>word_idx\<close> upwards.\<close>

function scan_up :: "u64 list \<Rightarrow> nat \<Rightarrow> u64 \<Rightarrow> nat option" where
  "scan_up ws word_idx w =
     (if w \<noteq> 0 then Some (word_idx * 64 + countr_zero w)
      else if word_idx + 1 \<ge> length ws then None
      else scan_up ws (word_idx + 1) (ws ! (word_idx + 1)))"
  by pat_completeness auto
termination
  by (relation "measure (\<lambda>(ws, word_idx, w). length ws - word_idx)") auto

declare scan_up.simps [simp del]

definition find_lowest_at_or_above :: "bitmap \<Rightarrow> nat \<Rightarrow> nat option" where
  "find_lowest_at_or_above b i =
     (if i \<ge> bm_num_bits b then None
      else let word_idx = i div 64;
               bit_in_word = i mod 64;
               first_mask = push_bit bit_in_word (NOT 0)
           in scan_up (bm_words b) word_idx (bm_words b ! word_idx AND first_mask))"

subsection \<open>Reference: the set of occupied positions\<close>

definition bits :: "bitmap \<Rightarrow> nat set" where
  "bits b = {i. i < bm_num_bits b \<and> bm_test b i}"

text \<open>Word storage of the right size, with no bit set past the last position.\<close>

definition bitmap_inv :: "bitmap \<Rightarrow> bool" where
  "bitmap_inv b \<longleftrightarrow> length (bm_words b) = (bm_num_bits b + 63) div 64 \<and>
     (\<forall>i. bm_num_bits b \<le> i \<and> i < 64 * length (bm_words b) \<longrightarrow> \<not> bm_test b i)"

lemma takeWhile_first_index:
  assumes "k < n" "P k"
  shows "P (length (takeWhile (\<lambda>j. \<not> P j) [0..<n]))"
    and "length (takeWhile (\<lambda>j. \<not> P j) [0..<n]) \<le> k"
    and "j < length (takeWhile (\<lambda>j. \<not> P j) [0..<n]) \<Longrightarrow> \<not> P j"
proof -
  let ?t = "takeWhile (\<lambda>j. \<not> P j) [0..<n]"
  have le: "length ?t \<le> n" using length_takeWhile_le [of "\<lambda>j. \<not> P j" "[0..<n]"] by simp
  have pre: "\<not> P j" if "j < length ?t" for j
  proof -
    have "?t ! j = [0..<n] ! j" using that by (rule takeWhile_nth)
    moreover have "\<not> P (?t ! j)" using that set_takeWhileD nth_mem by fastforce
    ultimately show ?thesis using that le by simp
  qed
  show "length ?t \<le> k" using pre assms by (meson not_less)
  with assms have lt: "length ?t < length [0..<n]" by simp
  show "P (length ?t)" using nth_length_takeWhile [OF lt] lt by simp
  show "j < length ?t \<Longrightarrow> \<not> P j" using pre by blast
qed

lemma word_nonzero_bit:
  fixes w :: u64
  assumes "w \<noteq> 0"
  obtains k where "k < 64" "bit w k"
  using assms bit_word_eqI [of w 0] by auto

lemma countr_zero_spec:
  assumes "w \<noteq> 0"
  shows "countr_zero w < 64" "bit w (countr_zero w)" "j < countr_zero w \<Longrightarrow> \<not> bit w j"
proof -
  obtain k where k: "k < 64" "bit w k" using assms by (rule word_nonzero_bit)
  note first = takeWhile_first_index [of k 64 "bit w", OF k, folded countr_zero_def]
  show "countr_zero w < 64" using first(2) k(1) by (rule le_less_trans)
  show "bit w (countr_zero w)" by (rule first(1))
  show "j < countr_zero w \<Longrightarrow> \<not> bit w j" by (rule first(3))
qed

lemma countl_zero_spec:
  assumes "w \<noteq> 0"
  shows "countl_zero w < 64" "bit w (63 - countl_zero w)" "63 - countl_zero w < j \<Longrightarrow> \<not> bit w j"
proof -
  obtain k where k: "k < 64" "bit w k" using assms by (rule word_nonzero_bit)
  have *: "63 - k < 64" "bit w (63 - (63 - k))" using k by simp_all
  note first = takeWhile_first_index [of "63 - k" 64 "\<lambda>k. bit w (63 - k)", OF *, folded countl_zero_def]
  show lt: "countl_zero w < 64" using first(2) *(1) by (rule le_less_trans)
  show "bit w (63 - countl_zero w)" by (rule first(1))
  show "\<not> bit w j" if "63 - countl_zero w < j"
  proof (cases "j < 64")
    case True
    with that lt have "63 - j < countl_zero w" by simp
    with first(3) [of "63 - j"] True show ?thesis by simp
  next
    case False
    then show ?thesis using bit_imp_le_length by fastforce
  qed
qed

lemma bm_test_bit: "bm_test b i \<longleftrightarrow> bit (bm_words b ! (i div 64)) (i mod 64)"
proof -
  have "(drop_bit n w AND 1 \<noteq> 0) = bit w n" for w :: u64 and n
    by (simp add: and_one_eq bit_iff_odd_drop_bit odd_iff_mod_2_eq_one)
  then show ?thesis by (simp add: bm_test_def)
qed

lemma bm_set_test:
  assumes "i < 64 * length (bm_words b)"
  shows "bm_test (bm_set i b) j \<longleftrightarrow> j = i \<or> bm_test b j"
proof -
  have "i div 64 < length (bm_words b)" using assms by (simp add: less_mult_imp_div_less mult.commute)
  moreover have "j = i \<longleftrightarrow> j div 64 = i div 64 \<and> j mod 64 = i mod 64"
    by (metis div_mult_mod_eq)
  moreover have "j mod 64 < 64" by simp
  ultimately show ?thesis
    by (auto simp: bm_test_bit bm_set_def nth_list_update bit_or_iff bit_exp_iff)
qed

lemma bm_clear_test:
  assumes "i < 64 * length (bm_words b)"
  shows "bm_test (bm_clear i b) j \<longleftrightarrow> j \<noteq> i \<and> bm_test b j"
proof -
  have "i div 64 < length (bm_words b)" using assms by (simp add: less_mult_imp_div_less mult.commute)
  moreover have "j = i \<longleftrightarrow> j div 64 = i div 64 \<and> j mod 64 = i mod 64"
    by (metis div_mult_mod_eq)
  moreover have "j mod 64 < 64" by simp
  ultimately show ?thesis
    by (auto simp: bm_test_bit bm_clear_def nth_list_update bit_and_iff bit_not_iff bit_exp_iff)
qed

lemma bm_words_enough: "bitmap_inv b \<Longrightarrow> i < bm_num_bits b \<Longrightarrow> i < 64 * length (bm_words b)"
  by (auto simp: bitmap_inv_def)

lemma bitmap_init_inv: "bitmap_inv (bitmap_init n)" and bits_init: "bits (bitmap_init n) = {}"
proof -
  have "\<not> bm_test (bitmap_init n) i" if "i < 64 * length (bm_words (bitmap_init n))" for i
    using that by (simp add: bm_test_bit bitmap_init_def less_mult_imp_div_less mult.commute)
  then show "bitmap_inv (bitmap_init n)" "bits (bitmap_init n) = {}"
    by (auto simp: bitmap_inv_def bits_def bitmap_init_def)
qed

lemma bm_num_bits_frame [simp]:
  "bm_num_bits (bm_set i b) = bm_num_bits b" "bm_num_bits (bm_clear i b) = bm_num_bits b"
  "length (bm_words (bm_set i b)) = length (bm_words b)"
  "length (bm_words (bm_clear i b)) = length (bm_words b)"
  by (simp_all add: bm_set_def bm_clear_def)

lemma bm_set_inv:
  assumes "bitmap_inv b" "i < bm_num_bits b"
  shows "bitmap_inv (bm_set i b)" "bits (bm_set i b) = insert i (bits b)"
  using assms bm_words_enough [OF assms] by (auto simp: bitmap_inv_def bits_def bm_set_test)

lemma bm_clear_inv:
  assumes "bitmap_inv b" "i < bm_num_bits b"
  shows "bitmap_inv (bm_clear i b)" "bits (bm_clear i b) = bits b - {i}"
  using assms bm_words_enough [OF assms] by (auto simp: bitmap_inv_def bits_def bm_clear_test)

subsection \<open>The scans\<close>

text \<open>Bit \<open>i\<close> of the words read as one long bit string.\<close>

definition word_bit :: "u64 list \<Rightarrow> nat \<Rightarrow> bool" where
  "word_bit ws i = bit (ws ! (i div 64)) (i mod 64)"

lemma bm_test_word_bit: "bm_test b i = word_bit (bm_words b) i"
  by (simp add: bm_test_bit word_bit_def)

lemma word_bit_offset: "j < 64 \<Longrightarrow> word_bit ws (k * 64 + j) = bit (ws ! k) j"
  by (simp add: word_bit_def)

text \<open>
  A scan starts with its first word masked; \<open>masked ws k w\<close> is the bit string in which word
  \<open>k\<close> has been replaced by \<open>w\<close>.
\<close>

definition masked :: "u64 list \<Rightarrow> nat \<Rightarrow> u64 \<Rightarrow> nat \<Rightarrow> bool" where
  "masked ws k w i = (if i div 64 = k then bit w (i mod 64) else word_bit ws i)"

lemma masked_self [simp]: "masked ws k (ws ! k) i = word_bit ws i"
  by (simp add: word_bit_def masked_def)

lemma masked_zero [simp]: "masked ws k 0 i \<longleftrightarrow> i div 64 \<noteq> k \<and> word_bit ws i"
  by (simp add: masked_def)

lemma masked_at: "j < 64 \<Longrightarrow> masked ws k w (k * 64 + j) = bit w j"
  by (simp add: masked_def)

lemma word_end_iff: "i < 64 * Suc k \<longleftrightarrow> i div 64 \<le> k"
  using div_less_iff_less_mult [of 64 i "Suc k"] by (simp add: less_Suc_eq_le mult.commute)

lemma word_start_iff: "k * 64 \<le> i \<longleftrightarrow> k \<le> i div 64" for i k :: nat
  by (simp add: less_eq_div_iff_mult_less_eq)

lemma div64_less_imp: "i div 64 < n div 64 \<Longrightarrow> i < n" for i n :: nat
  by (meson div_le_mono not_le)

lemma below_word: "i < 64 * Suc (Suc k) \<and> i div 64 \<noteq> Suc k \<longleftrightarrow> i < 64 * Suc k"
  by auto

lemma masked_nonzero:
  assumes "w \<noteq> 0"
  obtains i where "i < 64 * Suc k" "k * 64 \<le> i" "masked ws k w i"
proof -
  obtain j where "j < 64" "bit w j" using assms by (rule word_nonzero_bit)
  then show thesis using that [of "k * 64 + j"] by (simp add: masked_at)
qed

lemma scan_down_None: "scan_down ws k w = None \<longleftrightarrow> (\<forall>i < 64 * Suc k. \<not> masked ws k w i)"
proof (induction ws k w rule: scan_down.induct)
  case (1 ws w)
  then show ?case by (cases "w = 0") (auto elim!: masked_nonzero [of w 0 ws])
next
  case (2 ws k w)
  show ?case
  proof (cases "w = 0")
    case True
    then have "scan_down ws (Suc k) w = None \<longleftrightarrow> scan_down ws k (ws ! k) = None" by simp
    also have "\<dots> \<longleftrightarrow> (\<forall>i. i < 64 * Suc (Suc k) \<and> i div 64 \<noteq> Suc k \<longrightarrow> \<not> word_bit ws i)"
      using 2 True by (simp only: below_word masked_self)
    finally show ?thesis using True by auto
  next
    case False
    then show ?thesis by (auto elim!: masked_nonzero [of w "Suc k" ws])
  qed
qed

lemma scan_down_Some:
  "scan_down ws k w = Some m \<Longrightarrow>
     masked ws k w m \<and> m < 64 * Suc k \<and> (\<forall>i. m < i \<and> i < 64 * Suc k \<longrightarrow> \<not> masked ws k w i)"
proof (induction ws k w rule: scan_down.induct)
  case (1 ws w)
  then have "w \<noteq> 0" "m = 63 - countl_zero w" by (auto split: if_splits)
  with countl_zero_spec [of w] show ?case by (auto simp: masked_def)
next
  case (2 ws k w)
  show ?case
  proof (cases "w = 0")
    case True
    with 2 have *: "word_bit ws m" "m < 64 * Suc k" "\<And>i. m < i \<Longrightarrow> i < 64 * Suc k \<Longrightarrow> \<not> word_bit ws i"
      by auto
    then have "\<not> word_bit ws i" if "m < i" "i < 64 * Suc (Suc k)" "i div 64 \<noteq> Suc k" for i
      using that below_word [of i k] by blast
    moreover have "m div 64 \<noteq> Suc k" "m < 64 * Suc (Suc k)" using *(2) below_word [of m k] by blast+
    ultimately show ?thesis using *(1) True by auto
  next
    case False
    with 2 have m: "m = Suc k * 64 + (63 - countl_zero w)" by simp
    have "\<not> masked ws (Suc k) w i" if "m < i" "i < 64 * Suc (Suc k)" for i
    proof -
      from that m have k: "i div 64 = Suc k" by auto
      moreover from k have "i = Suc k * 64 + i mod 64" using div_mult_mod_eq [of i 64] by simp
      with that(1) m have "63 - countl_zero w < i mod 64" by linarith
      ultimately show ?thesis using countl_zero_spec(3) [OF False] by (simp add: masked_def)
    qed
    moreover have "masked ws (Suc k) w m"
      unfolding m using countl_zero_spec [OF False] by (subst masked_at) auto
    ultimately show ?thesis using m by simp
  qed
qed

lemma scan_up_None:
  "k < length ws \<Longrightarrow> scan_up ws k w = None \<longleftrightarrow> (\<forall>i. k * 64 \<le> i \<and> i < 64 * length ws \<longrightarrow> \<not> masked ws k w i)"
proof (induction ws k w rule: scan_up.induct)
  case (1 ws k w)
  have up: "i < 64 * length ws \<and> k * 64 \<le> i \<and> i div 64 \<noteq> k \<longleftrightarrow> i < 64 * length ws \<and> (k + 1) * 64 \<le> i" for i
    by auto
  show ?case
  proof (cases "w = 0")
    case False
    then have "scan_up ws k w \<noteq> None" by (simp add: scan_up.simps [of ws k w])
    moreover obtain i where "i < 64 * Suc k" "k * 64 \<le> i" "masked ws k w i"
      using False by (rule masked_nonzero)
    moreover have "64 * Suc k \<le> 64 * length ws" using 1(2) by simp
    ultimately show ?thesis by (meson less_le_trans)
  next
    case True
    have "(\<forall>i. k * 64 \<le> i \<and> i < 64 * length ws \<longrightarrow> \<not> masked ws k w i) \<longleftrightarrow>
      (\<forall>i. (k + 1) * 64 \<le> i \<and> i < 64 * length ws \<longrightarrow> \<not> word_bit ws i)"
      using True up by auto
    moreover have "scan_up ws k w = None \<longleftrightarrow>
      (\<forall>i. (k + 1) * 64 \<le> i \<and> i < 64 * length ws \<longrightarrow> \<not> word_bit ws i)"
    proof (cases "k + 1 \<ge> length ws")
      case True
      with \<open>w = 0\<close> have "scan_up ws k w = None" by (simp add: scan_up.simps [of ws k 0])
      moreover from True have "64 * length ws \<le> (k + 1) * 64" by simp
      ultimately show ?thesis by (meson not_le order_trans)
    next
      case False
      with 1(1) \<open>w = 0\<close> have "scan_up ws (k + 1) (ws ! (k + 1)) = None \<longleftrightarrow>
        (\<forall>i. (k + 1) * 64 \<le> i \<and> i < 64 * length ws \<longrightarrow> \<not> word_bit ws i)" by simp
      then show ?thesis using False \<open>w = 0\<close> by (subst scan_up.simps) simp
    qed
    ultimately show ?thesis by blast
  qed
qed

lemma scan_up_Some:
  "scan_up ws k w = Some m \<Longrightarrow> k < length ws \<Longrightarrow>
     masked ws k w m \<and> k * 64 \<le> m \<and> m < 64 * length ws \<and>
     (\<forall>i. k * 64 \<le> i \<and> i < m \<longrightarrow> \<not> masked ws k w i)"
proof (induction ws k w rule: scan_up.induct)
  case (1 ws k w)
  show ?case
  proof (cases "w = 0")
    case False
    with 1(2) have m: "m = k * 64 + countr_zero w" by (simp add: scan_up.simps [of ws k w])
    have "\<not> masked ws k w i" if "k * 64 \<le> i" "i < m" for i
    proof -
      have k: "i div 64 = k" using that m countr_zero_spec(1) [OF False] by auto
      moreover from k have "i = k * 64 + i mod 64" using div_mult_mod_eq [of i 64] by simp
      with that(2) m have "i mod 64 < countr_zero w" by linarith
      ultimately show ?thesis using countr_zero_spec(3) [OF False] by (simp add: masked_def)
    qed
    moreover have "masked ws k w m"
      unfolding m using countr_zero_spec [OF False] by (subst masked_at) auto
    moreover have "m < 64 * length ws"
      using m countr_zero_spec(1) [OF False] 1(3) by linarith
    ultimately show ?thesis using m by simp
  next
    case True
    with 1(2) have k: "k + 1 < length ws" and s: "scan_up ws (k + 1) (ws ! (k + 1)) = Some m"
      by (auto simp: scan_up.simps [of ws k 0] split: if_splits)
    with 1(1) True have *: "word_bit ws m" "(k + 1) * 64 \<le> m" "m < 64 * length ws"
      "\<And>i. (k + 1) * 64 \<le> i \<Longrightarrow> i < m \<Longrightarrow> \<not> word_bit ws i" by auto
    have "\<not> masked ws k w i" if "k * 64 \<le> i" "i < m" for i
      using that *(4) [of i] True by (cases "i div 64 = k") auto
    moreover have "m div 64 \<noteq> k" using *(2) by auto
    ultimately show ?thesis using * True by simp
  qed
qed

subsection \<open>What the queries return\<close>

lemma low_mask_bit:
  assumes "n < 64" "j < 64"
  shows "bit (if n = 63 then NOT 0 else push_bit (n + 1) 1 - 1 :: u64) j \<longleftrightarrow> j \<le> n"
proof (cases "n = 63")
  case True
  with assms show ?thesis by simp
next
  case False
  have "(push_bit (n + 1) 1 - 1 :: u64) = mask (n + 1)"
    by (simp add: mask_eq_exp_minus_1)
  with False assms show ?thesis by (simp add: bit_mask_iff less_Suc_eq_le del: push_bit_of_1)
qed

lemma high_mask_bit:
  assumes "j < 64"
  shows "bit (push_bit n (NOT 0) :: u64) j \<longleftrightarrow> n \<le> j"
  using assms by (simp add: bit_push_bit_iff del: push_bit_minus_one push_bit_minus_one_eq_not_mask) auto

lemma masked_down:
  assumes "i < 64 * Suc (n div 64)"
  shows "masked ws (n div 64) (ws ! (n div 64) AND
      (if n mod 64 = 63 then NOT 0 else push_bit (n mod 64 + 1) 1 - 1)) i \<longleftrightarrow>
    i \<le> n \<and> word_bit ws i"
proof (cases "i div 64 = n div 64")
  case True
  then have "i \<le> n \<longleftrightarrow> i mod 64 \<le> n mod 64" by (metis add_le_cancel_left div_mult_mod_eq)
  with True show ?thesis
    using low_mask_bit [of "n mod 64" "i mod 64"] by (simp only: masked_def word_bit_def bit_and_iff) auto
next
  case False
  with assms div64_less_imp [of i n] have "i \<le> n" by (simp add: word_end_iff)
  with False show ?thesis by (simp add: masked_def)
qed

lemma masked_up:
  assumes "n div 64 * 64 \<le> i"
  shows "masked ws (n div 64) (ws ! (n div 64) AND push_bit (n mod 64) (NOT 0)) i \<longleftrightarrow>
    n \<le> i \<and> word_bit ws i"
proof (cases "i div 64 = n div 64")
  case True
  then have "n \<le> i \<longleftrightarrow> n mod 64 \<le> i mod 64" by (metis add_le_cancel_left div_mult_mod_eq)
  with True show ?thesis
    using high_mask_bit [of "i mod 64" "n mod 64"] by (simp only: masked_def word_bit_def bit_and_iff) auto
next
  case False
  with assms div64_less_imp [of n i] have "n \<le> i" by (simp add: word_start_iff)
  with False show ?thesis by (simp add: masked_def)
qed

lemma find_highest_unfold:
  fixes b :: bitmap and i0 :: nat
  assumes "bm_num_bits b \<noteq> 0"
  defines "n \<equiv> (if i0 \<ge> bm_num_bits b then bm_num_bits b - 1 else i0)"
  shows "find_highest_at_or_below b i0 =
    scan_down (bm_words b) (n div 64) (bm_words b ! (n div 64) AND
      (if n mod 64 = 63 then NOT 0 else push_bit (n mod 64 + 1) 1 - 1))"
  using assms(1) unfolding find_highest_at_or_below_def n_def Let_def by simp

lemma find_highest_Some:
  assumes "find_highest_at_or_below b i0 = Some m"
  shows "m \<in> bits b" "m \<le> i0" "j \<in> bits b \<Longrightarrow> j \<le> i0 \<Longrightarrow> j \<le> m"
proof -
  let ?n = "if i0 \<ge> bm_num_bits b then bm_num_bits b - 1 else i0"
  have nz: "bm_num_bits b \<noteq> 0"
  proof
    assume "bm_num_bits b = 0"
    with assms show False by (simp add: find_highest_at_or_below_def)
  qed
  note scan = scan_down_Some [OF assms [unfolded find_highest_unfold [OF nz]]]
  have m: "m \<le> ?n" "word_bit (bm_words b) m"
    using scan masked_down [of m ?n] by blast+
  show "m \<in> bits b" "m \<le> i0"
    using m nz by (auto simp: bits_def bm_test_word_bit split: if_splits)
  show "j \<le> m" if "j \<in> bits b" "j \<le> i0"
  proof (rule ccontr)
    assume "\<not> j \<le> m"
    have "j \<le> ?n" using that by (auto simp: bits_def)
    then have "j < 64 * Suc (?n div 64)" unfolding word_end_iff by (rule div_le_mono)
    with scan masked_down [of j ?n] \<open>\<not> j \<le> m\<close> \<open>j \<le> ?n\<close> have "\<not> word_bit (bm_words b) j"
      by (meson not_le)
    with that show False by (simp add: bits_def bm_test_word_bit)
  qed
qed

lemma find_highest_None:
  assumes "find_highest_at_or_below b i0 = None" "j \<in> bits b"
  shows "i0 < j"
proof (rule ccontr)
  assume "\<not> i0 < j"
  let ?n = "if i0 \<ge> bm_num_bits b then bm_num_bits b - 1 else i0"
  have nz: "bm_num_bits b \<noteq> 0" using assms(2) by (auto simp: bits_def)
  have "j \<le> ?n" using assms(2) \<open>\<not> i0 < j\<close> by (auto simp: bits_def)
  moreover from this have "j < 64 * Suc (?n div 64)" unfolding word_end_iff by (rule div_le_mono)
  ultimately have "\<not> word_bit (bm_words b) j"
    using assms(1) [unfolded find_highest_unfold [OF nz] scan_down_None] masked_down [of j ?n] by blast
  with assms(2) show False by (simp add: bits_def bm_test_word_bit)
qed

lemma find_lowest_unfold:
  assumes "i < bm_num_bits b"
  shows "find_lowest_at_or_above b i =
    scan_up (bm_words b) (i div 64) (bm_words b ! (i div 64) AND push_bit (i mod 64) (NOT 0))"
  using assms unfolding find_lowest_at_or_above_def Let_def by simp

lemma word_index_bound: "bitmap_inv b \<Longrightarrow> i < bm_num_bits b \<Longrightarrow> i div 64 < length (bm_words b)"
  using bm_words_enough by fastforce

lemma find_lowest_Some:
  assumes "bitmap_inv b" "find_lowest_at_or_above b i = Some m"
  shows "m \<in> bits b" "i \<le> m" "j \<in> bits b \<Longrightarrow> i \<le> j \<Longrightarrow> m \<le> j"
proof -
  have lt: "i < bm_num_bits b" using assms(2) by (auto simp: find_lowest_at_or_above_def split: if_splits)
  note scan = scan_up_Some [OF assms(2) [unfolded find_lowest_unfold [OF lt]] word_index_bound [OF assms(1) lt]]
  have m: "i \<le> m" "word_bit (bm_words b) m" "m < 64 * length (bm_words b)"
    using scan masked_up [of i m] by blast+
  show "i \<le> m" by fact
  show "m \<in> bits b"
    using m assms(1) by (auto simp: bits_def bm_test_word_bit bitmap_inv_def not_less [symmetric])
  show "m \<le> j" if "j \<in> bits b" "i \<le> j"
  proof (rule ccontr)
    assume "\<not> m \<le> j"
    have "i div 64 * 64 \<le> j" using that(2) by (simp add: word_start_iff div_le_mono)
    with scan masked_up [of i j] \<open>\<not> m \<le> j\<close> that have "\<not> word_bit (bm_words b) j"
      by (meson not_le)
    with that show False by (simp add: bits_def bm_test_word_bit)
  qed
qed

lemma find_lowest_None:
  assumes "bitmap_inv b" "find_lowest_at_or_above b i = None" "j \<in> bits b"
  shows "j < i"
proof (rule ccontr)
  assume "\<not> j < i"
  have lt: "i < bm_num_bits b" using assms(3) \<open>\<not> j < i\<close> by (auto simp: bits_def)
  have "i div 64 * 64 \<le> j" "j < 64 * length (bm_words b)"
    using \<open>\<not> j < i\<close> assms(1,3) bm_words_enough by (simp add: word_start_iff div_le_mono, auto simp: bits_def)
  moreover have "\<forall>i'. i div 64 * 64 \<le> i' \<and> i' < 64 * length (bm_words b) \<longrightarrow>
      \<not> masked (bm_words b) (i div 64) (bm_words b ! (i div 64) AND push_bit (i mod 64) (NOT 0)) i'"
    using assms(2) scan_up_None [OF word_index_bound [OF assms(1) lt]] by (simp add: find_lowest_unfold [OF lt])
  ultimately have "\<not> word_bit (bm_words b) j"
    using masked_up [of i j "bm_words b"] \<open>\<not> j < i\<close> by (meson not_less)
  with assms(3) show False by (simp add: bits_def bm_test_word_bit)
qed

text \<open>Progress of the upward scan needs no invariant of the words.\<close>

lemma scan_up_ge: "scan_up ws k w = Some m \<Longrightarrow> masked ws k w m \<and> k * 64 \<le> m"
proof (induction ws k w rule: scan_up.induct)
  case (1 ws k w)
  show ?case
  proof (cases "w = 0")
    case False
    with 1(2) have "m = k * 64 + countr_zero w" by (simp add: scan_up.simps [of ws k w])
    with countr_zero_spec [OF False] show ?thesis by (simp add: masked_at)
  next
    case True
    with 1(2) have "\<not> length ws \<le> k + 1" "scan_up ws (k + 1) (ws ! (k + 1)) = Some m"
      by (auto simp: scan_up.simps [of ws k 0] split: if_splits)
    with 1(1) True have "word_bit ws m" "(k + 1) * 64 \<le> m" by simp_all
    with True show ?thesis by auto
  qed
qed

lemma find_lowest_progress:
  assumes "find_lowest_at_or_above b i = Some m"
  shows "i < bm_num_bits b" "i \<le> m"
proof -
  show lt: "i < bm_num_bits b" using assms by (auto simp: find_lowest_at_or_above_def split: if_splits)
  show "i \<le> m"
    using scan_up_ge [OF assms [unfolded find_lowest_unfold [OF lt]]] masked_up [of i m] by blast
qed

end
