(* ===== verification/Core.thy ===== *)
theory Core
  imports Prelude
begin

text \<open>
  The vocabulary of \<open>include/jane/core\<close>: the strong integer types of \<open>types.hpp\<close>
  and \<open>strong_type.hpp\<close>, the enumerations, and the domain \<open>Order\<close> of \<open>order.hpp\<close>.

  A \<open>StrongId\<close> or \<open>StrongAmount\<close> wraps one integer and forwards to it, so its tag is a
  compile-time matter only: the model names the wrapped integer type, and \<open>Strong_Types\<close>
  shows that this is faithful.  \<open>value()\<close> of an
  amount is \<^const>\<open>sint\<close>.
\<close>

type_synonym price = i64
type_synonym quantity = i64
type_synonym nanos = i64
type_synonym pnl = i64
type_synonym order_id = u64
type_synonym seq_no = u64
type_synonym symbol_id = u32
type_synonym client_id = u32

datatype side = Buy | Sell

fun opposite :: "side \<Rightarrow> side" where
  "opposite s = (if s = Buy then Sell else Buy)"

datatype order_type = Limit | Market

datatype time_in_force = Day | IOC | FOK

datatype order_status = StatusNew | PartiallyFilled | Filled | StatusCancelled | StatusRejected | StatusReplaced

datatype reject_reason =
    NoReject
  | InvalidPrice
  | RejInvalidQuantity
  | UnknownSymbol
  | UnknownOrder
  | RejDuplicateOrderId
  | FokNotFillable
  | BookCapacityExceeded
  | RiskMaxOrderSize
  | RiskMaxPosition
  | RiskMaxLoss
  | RiskKillSwitch

record order =
  o_id :: order_id
  o_client :: client_id
  o_symbol :: symbol_id
  o_side :: side
  o_type :: order_type
  o_tif :: time_in_force
  o_price :: price
  o_quantity :: quantity
  o_remaining :: quantity
  o_sequence :: seq_no
  o_timestamp :: nanos

text \<open>\<open>Order{}\<close>: every member at its default initialiser.\<close>

definition default_order :: order where
  "default_order = \<lparr>o_id = 0, o_client = 0, o_symbol = 0, o_side = Buy, o_type = Limit,
     o_tif = Day, o_price = 0, o_quantity = 0, o_remaining = 0, o_sequence = 0, o_timestamp = 0\<rparr>"

definition is_filled :: "order \<Rightarrow> bool" where
  "is_filled ord \<longleftrightarrow> sint (o_remaining ord) = 0"

definition filled_quantity :: "order \<Rightarrow> quantity" where
  "filled_quantity ord = o_quantity ord - o_remaining ord"

text \<open>\<open>std::min\<close> on amounts returns its first argument unless the second is smaller.\<close>

definition min_amount :: "i64 \<Rightarrow> i64 \<Rightarrow> i64" where
  "min_amount a b = (if sint b < sint a then b else a)"

lemma opposite_simps [simp]: "opposite Buy = Sell" "opposite Sell = Buy"
  by simp_all

declare opposite.simps [simp del]

lemma opposite_involutive [simp]: "opposite (opposite s) = s"
  by (cases s) simp_all

lemma opposite_neq [simp]: "opposite s \<noteq> s" "s \<noteq> opposite s"
  by (cases s; simp)+

lemma opposite_eq_iff: "opposite s = t \<longleftrightarrow> t \<noteq> s"
  by (cases s; cases t) simp_all

lemma side_exhaust_eq: "s \<noteq> Buy \<longleftrightarrow> s = Sell" "s \<noteq> Sell \<longleftrightarrow> s = Buy"
  by (cases s; simp)+

lemma min_amount_sint: "sint (min_amount a b) = min (sint a) (sint b)"
  by (simp add: min_amount_def min_def)

end
