(* ===== verification/Price_Level.thy ===== *)
theory Price_Level
  imports Core
begin

text \<open>
  \<open>book/order_node.hpp\<close> and \<open>book/price_level.hpp\<close>: the intrusive doubly-linked FIFO of
  the resting orders at one price.  Nodes live in the pool's storage array, here the list
  \<open>node_heap\<close>; a node pointer is a slot number.  The two list operations write through
  pointers exactly where the code does.

  The representation predicate \<open>level_rep\<close> ties a level to the sequence of its nodes; the
  lemmas show that \<open>level_push_back\<close> appends to that sequence, that \<open>level_unlink\<close> removes
  one node wherever it stands, and that both keep the cached aggregates.  The interface
  \<open>time_priority_queue\<close> states this as a contract and proves that no sequence of operations
  ever reorders resting orders.
\<close>

named_theorems heap_frame \<open>what a list operation leaves alone\<close>

record order_node =
  n_order :: order
  n_prev :: ptr
  n_next :: ptr
  n_level_index :: nat

definition default_node :: order_node where
  "default_node = \<lparr>n_order = default_order, n_prev = None, n_next = None, n_level_index = 0\<rparr>"

type_synonym node_heap = "order_node list"

record price_level =
  pl_head :: ptr
  pl_tail :: ptr
  pl_total_quantity :: quantity
  pl_order_count :: u32

definition default_level :: price_level where
  "default_level = \<lparr>pl_head = None, pl_tail = None, pl_total_quantity = 0, pl_order_count = 0\<rparr>"

definition level_empty :: "price_level \<Rightarrow> bool" where
  "level_empty lvl \<longleftrightarrow> pl_order_count lvl = 0"

abbreviation node_remaining :: "node_heap \<Rightarrow> nat \<Rightarrow> quantity" where
  "node_remaining h p \<equiv> o_remaining (n_order (h ! p))"

abbreviation set_next :: "node_heap \<Rightarrow> nat \<Rightarrow> ptr \<Rightarrow> node_heap" where
  "set_next h p v \<equiv> h[p := (h ! p)\<lparr>n_next := v\<rparr>]"

abbreviation set_prev :: "node_heap \<Rightarrow> nat \<Rightarrow> ptr \<Rightarrow> node_heap" where
  "set_prev h p v \<equiv> h[p := (h ! p)\<lparr>n_prev := v\<rparr>]"

definition level_push_back :: "node_heap \<Rightarrow> price_level \<Rightarrow> nat \<Rightarrow> node_heap \<times> price_level" where
  "level_push_back h level node =
     (let h1 = set_next (set_prev h node (pl_tail level)) node None;
          (h2, level1) = (case pl_tail level of
              Some t \<Rightarrow> (set_next h1 t (Some node), level)
            | None \<Rightarrow> (h1, level\<lparr>pl_head := Some node\<rparr>))
      in (h2, level1\<lparr>pl_tail := Some node,
            pl_total_quantity := pl_total_quantity level1 + node_remaining h2 node,
            pl_order_count := pl_order_count level1 + 1\<rparr>))"

definition level_unlink :: "node_heap \<Rightarrow> price_level \<Rightarrow> nat \<Rightarrow> node_heap \<times> price_level" where
  "level_unlink h level node =
     (let (h1, level1) = (case n_prev (h ! node) of
              Some q \<Rightarrow> (set_next h q (n_next (h ! node)), level)
            | None \<Rightarrow> (h, level\<lparr>pl_head := n_next (h ! node)\<rparr>));
          (h2, level2) = (case n_next (h1 ! node) of
              Some q \<Rightarrow> (set_prev h1 q (n_prev (h1 ! node)), level1)
            | None \<Rightarrow> (h1, level1\<lparr>pl_tail := n_prev (h1 ! node)\<rparr>));
          h3 = set_next (set_prev h2 node None) node None
      in (h3, level2\<lparr>pl_total_quantity := pl_total_quantity level2 - node_remaining h3 node,
            pl_order_count := pl_order_count level2 - 1\<rparr>))"

subsection \<open>Doubly-linked segments\<close>

text \<open>
  \<open>dseg h prv first ps lst nxt\<close>: following the links from \<open>first\<close> visits the nodes \<open>ps\<close>
  and then \<open>nxt\<close>, every back link points to the node before, and \<open>lst\<close> is the last node
  visited (\<open>prv\<close> if there is none).
\<close>

primrec dseg :: "node_heap \<Rightarrow> ptr \<Rightarrow> ptr \<Rightarrow> nat list \<Rightarrow> ptr \<Rightarrow> ptr \<Rightarrow> bool" where
  "dseg h prv first [] lst nxt \<longleftrightarrow> first = nxt \<and> lst = prv"
| "dseg h prv first (p # ps) lst nxt \<longleftrightarrow>
     first = Some p \<and> p < length h \<and> n_prev (h ! p) = prv \<and> dseg h (Some p) (n_next (h ! p)) ps lst nxt"

definition level_rep :: "node_heap \<Rightarrow> price_level \<Rightarrow> nat list \<Rightarrow> bool" where
  "level_rep h lvl ps \<longleftrightarrow>
     dseg h None (pl_head lvl) ps (pl_tail lvl) None \<and> distinct ps \<and>
     pl_total_quantity lvl = sum_list (map (node_remaining h) ps) \<and>
     pl_order_count lvl = of_nat (length ps)"

text \<open>The node sequence is a function of the level: follow \<open>next\<close>, at most once per slot.\<close>

fun walk_nodes :: "nat \<Rightarrow> node_heap \<Rightarrow> ptr \<Rightarrow> nat list" where
  "walk_nodes 0 h p = []"
| "walk_nodes (Suc k) h p = (case p of None \<Rightarrow> [] | Some i \<Rightarrow> i # walk_nodes k h (n_next (h ! i)))"

definition level_nodes :: "node_heap \<Rightarrow> price_level \<Rightarrow> nat list" where
  "level_nodes h lvl = walk_nodes (length h) h (pl_head lvl)"

lemma dseg_append:
  "dseg h prv first (xs @ ys) lst nxt \<longleftrightarrow>
     (\<exists>l m. dseg h prv first xs l m \<and> dseg h l m ys lst nxt)"
  by (induction xs arbitrary: prv first) auto

lemma dseg_bound: "dseg h prv first ps lst nxt \<Longrightarrow> p \<in> set ps \<Longrightarrow> p < length h"
  by (induction ps arbitrary: prv first) auto

lemma dseg_lst: "dseg h prv first ps lst nxt \<Longrightarrow> lst = (if ps = [] then prv else Some (last ps))"
  by (induction ps arbitrary: prv first) (auto split: if_splits)

lemma dseg_first: "dseg h prv first ps lst nxt \<Longrightarrow> first = (if ps = [] then nxt else Some (hd ps))"
  by (cases ps) auto

lemma dseg_frame:
  assumes "dseg h prv first ps lst nxt" "length h' = length h"
    "\<And>p. p \<in> set ps \<Longrightarrow> n_prev (h' ! p) = n_prev (h ! p) \<and> n_next (h' ! p) = n_next (h ! p)"
  shows "dseg h' prv first ps lst nxt"
  using assms by (induction ps arbitrary: prv first) auto

lemma dseg_update_outside:
  "dseg h prv first ps lst nxt \<Longrightarrow> p \<notin> set ps \<Longrightarrow> dseg (h[p := v]) prv first ps lst nxt"
  by (erule dseg_frame) (auto simp: nth_update_if)

lemma dseg_set_next_last:
  assumes "dseg h prv first (xs @ [q]) lst nxt" "q \<notin> set xs"
  shows "dseg (set_next h q v) prv first (xs @ [q]) lst v"
  using assms by (auto simp: dseg_append intro!: dseg_update_outside)

lemma dseg_set_prev_first:
  assumes "dseg h prv first (q # ys) lst nxt" "q \<notin> set ys"
  shows "dseg (set_prev h q v) v first (q # ys) lst nxt"
  using assms by (auto intro!: dseg_update_outside)

lemma walk_nodes_dseg:
  "dseg h prv first ps lst None \<Longrightarrow> length ps \<le> k \<Longrightarrow> walk_nodes k h first = ps"
proof (induction ps arbitrary: prv first k)
  case Nil
  then show ?case by (cases k) auto
next
  case (Cons p ps)
  then obtain k' where "k = Suc k'" by (cases k) auto
  with Cons show ?case by auto
qed

lemma level_rep_length: "level_rep h lvl ps \<Longrightarrow> length ps \<le> length h"
proof -
  assume *: "level_rep h lvl ps"
  then have "set ps \<subseteq> {..<length h}" by (auto simp: level_rep_def dest: dseg_bound)
  then have "card (set ps) \<le> length h" by (metis card_mono card_lessThan finite_lessThan)
  with * show ?thesis by (simp add: level_rep_def distinct_card)
qed

lemma level_rep_nodes: "level_rep h lvl ps \<Longrightarrow> level_nodes h lvl = ps"
  using level_rep_length walk_nodes_dseg by (fastforce simp: level_rep_def level_nodes_def)

lemma level_rep_empty:
  assumes "level_rep h lvl ps" "length h < 2 ^ 32"
  shows "level_empty lvl \<longleftrightarrow> ps = []"
  using assms level_rep_length [OF assms(1)] of_nat_u32_eq_0 [of "length ps"]
  by (auto simp: level_rep_def level_empty_def)

lemma level_rep_default: "level_rep h default_level []"
  by (simp add: level_rep_def default_level_def)

lemma level_rep_head: "level_rep h lvl ps \<Longrightarrow> pl_head lvl = (if ps = [] then None else Some (hd ps))"
  unfolding level_rep_def by (blast dest: dseg_first)

subsection \<open>Frames: what a list operation leaves alone\<close>

definition same_orders :: "node_heap \<Rightarrow> node_heap \<Rightarrow> bool" where
  "same_orders h h' \<longleftrightarrow> length h' = length h \<and>
     (\<forall>q. n_order (h' ! q) = n_order (h ! q) \<and> n_level_index (h' ! q) = n_level_index (h ! q))"

lemma same_orders_refl [simp]: "same_orders h h"
  by (simp add: same_orders_def)

lemma same_orders_trans: "same_orders h h1 \<Longrightarrow> same_orders h1 h2 \<Longrightarrow> same_orders h h2"
  by (simp add: same_orders_def)

lemma same_orders_set [heap_frame]:
  "same_orders h (set_next h p v)" "same_orders h (set_prev h p v)"
  by (simp_all add: same_orders_def nth_update_if)

lemma same_ordersD:
  assumes "same_orders h h'"
  shows "length h' = length h" "n_order (h' ! q) = n_order (h ! q)" "n_level_index (h' ! q) = n_level_index (h ! q)"
  using assms by (simp_all add: same_orders_def)

subsection \<open>The two list operations\<close>

lemma level_push_back_frame:
  assumes "level_push_back h lvl p = (h', lvl')"
  shows "same_orders h h'"
    and "q \<noteq> p \<Longrightarrow> pl_tail lvl \<noteq> Some q \<Longrightarrow> h' ! q = h ! q"
  using assms
  by (auto simp: level_push_back_def Let_def same_orders_def nth_update_if split: option.splits)

lemma level_push_back_rep:
  assumes rep: "level_rep h lvl ps" and p: "p < length h" "p \<notin> set ps"
    and push: "level_push_back h lvl p = (h', lvl')"
  shows "level_rep h' lvl' (ps @ [p])"
proof -
  let ?h1 = "set_next (set_prev h p (pl_tail lvl)) p None"
  have seg: "dseg h None (pl_head lvl) ps (pl_tail lvl) None" and dist: "distinct ps"
    using rep by (auto simp: level_rep_def)
  have seg1: "dseg ?h1 None (pl_head lvl) ps (pl_tail lvl) None"
    using seg p by (intro dseg_update_outside)
  have "dseg h' None (pl_head lvl') (ps @ [p]) (pl_tail lvl') None"
  proof (cases ps rule: rev_cases)
    case Nil
    with seg p push show ?thesis by (auto simp: level_push_back_def Let_def)
  next
    case (snoc qs t)
    then have tail: "pl_tail lvl = Some t" "t \<noteq> p" using dseg_lst [OF seg] p by auto
    then have h': "h' = set_next ?h1 t (Some p)" "pl_head lvl' = pl_head lvl" "pl_tail lvl' = Some p"
      using push by (auto simp: level_push_back_def Let_def)
    have "dseg h' None (pl_head lvl) ps (Some t) (Some p)"
      using dseg_set_next_last [of ?h1 None "pl_head lvl" qs t "Some t" None "Some p"] seg1 dist snoc tail h'
      by simp
    moreover have "dseg h' (Some t) (Some p) [p] (Some p) None"
      using p tail by (simp add: h' nth_update_if)
    ultimately show ?thesis unfolding h' dseg_append by blast
  qed
  moreover have "pl_total_quantity lvl' = pl_total_quantity lvl + node_remaining h p"
    "pl_order_count lvl' = pl_order_count lvl + 1"
    using push p by (auto simp: level_push_back_def Let_def nth_update_if split: option.splits)
  ultimately show ?thesis
    using rep p same_ordersD(2) [OF level_push_back_frame(1) [OF push]]
    by (simp add: level_rep_def)
qed

lemma level_unlink_frame:
  assumes "level_unlink h lvl p = (h', lvl')"
  shows "same_orders h h'"
    and "q \<noteq> p \<Longrightarrow> n_prev (h ! p) \<noteq> Some q \<Longrightarrow> n_next (h ! p) \<noteq> Some q \<Longrightarrow> h' ! q = h ! q"
  using assms
  by (auto simp: level_unlink_def Let_def same_orders_def nth_update_if split: option.splits if_splits)

text \<open>The first half of \<open>level_unlink\<close> joins the prefix to the successor of the node.\<close>

lemma unlink_join_prefix:
  fixes m :: ptr
  assumes "dseg h None first xs l (Some p)" "distinct xs" "p \<notin> set xs"
  defines "h1 \<equiv> (case l of Some q \<Rightarrow> set_next h q m | None \<Rightarrow> h)"
    and "first1 \<equiv> (case l of Some q \<Rightarrow> first | None \<Rightarrow> m)"
  shows "dseg h1 None first1 xs l m" "h1 ! p = h ! p"
    and "q \<notin> set xs \<Longrightarrow> h1 ! q = h ! q" "length h1 = length h"
proof -
  have l: "l = (if xs = [] then None else Some (last xs))" using dseg_lst [OF assms(1)] .
  show "dseg h1 None first1 xs l m"
  proof (cases xs rule: rev_cases)
    case Nil
    with l show ?thesis by (simp add: h1_def first1_def)
  next
    case (snoc zs t)
    with l assms show ?thesis
      using dseg_set_next_last [of h None first zs t l "Some p" m] by simp
  qed
  show "h1 ! p = h ! p" "q \<notin> set xs \<Longrightarrow> h1 ! q = h ! q" "length h1 = length h"
    using l assms(3) by (auto simp: h1_def nth_update_if split: if_splits)
qed

text \<open>The second half points the successor back to the prefix.\<close>

lemma unlink_join_suffix:
  fixes l :: ptr
  assumes "dseg h (Some p) m ys lst None" "distinct ys"
  defines "h1 \<equiv> (case m of Some q \<Rightarrow> set_prev h q l | None \<Rightarrow> h)"
    and "lst1 \<equiv> (case m of Some q \<Rightarrow> lst | None \<Rightarrow> l)"
  shows "dseg h1 l m ys lst1 None" "q \<notin> set ys \<Longrightarrow> h1 ! q = h ! q" "length h1 = length h"
proof -
  have m: "m = (if ys = [] then None else Some (hd ys))" using dseg_first [OF assms(1)] .
  show "dseg h1 l m ys lst1 None"
  proof (cases ys)
    case Nil
    with m show ?thesis by (simp add: h1_def lst1_def)
  next
    case (Cons t zs)
    with m assms show ?thesis
      using dseg_set_prev_first [of h "Some p" m t zs lst None l] by simp
  qed
  show "q \<notin> set ys \<Longrightarrow> h1 ! q = h ! q" "length h1 = length h"
    using m by (auto simp: h1_def nth_update_if split: if_splits)
qed

lemma level_unlink_rep:
  assumes rep: "level_rep h lvl (xs @ p # ys)"
    and unlink: "level_unlink h lvl p = (h', lvl')"
  shows "level_rep h' lvl' (xs @ ys)"
proof -
  let ?m = "n_next (h ! p)" and ?l = "n_prev (h ! p)"
  have seg1: "dseg h None (pl_head lvl) xs ?l (Some p)" and p: "p < length h"
    and seg2: "dseg h (Some p) ?m ys (pl_tail lvl) None"
    using rep by (auto simp: level_rep_def dseg_append)
  have dist: "distinct xs" "distinct ys" "p \<notin> set xs" "p \<notin> set ys"
    and disj: "\<And>q. q \<in> set ys \<Longrightarrow> q \<notin> set xs" "\<And>q. q \<in> set xs \<Longrightarrow> q \<notin> set ys"
    using rep by (auto simp: level_rep_def)
  define h1 where "h1 = (case ?l of Some q \<Rightarrow> set_next h q ?m | None \<Rightarrow> h)"
  define h2 where "h2 = (case ?m of Some q \<Rightarrow> set_prev h1 q ?l | None \<Rightarrow> h1)"
  note pre = unlink_join_prefix [OF seg1 dist(1,3), where m = ?m, folded h1_def]
  have seg2': "dseg h1 (Some p) ?m ys (pl_tail lvl) None"
    using pre(3,4) disj(1) by (intro dseg_frame [OF seg2]) auto
  note suf = unlink_join_suffix [OF seg2' dist(2), where l = ?l, folded h2_def]
  have h': "h' = set_next (set_prev h2 p None) p None"
    and head: "pl_head lvl' = (case ?l of Some q \<Rightarrow> pl_head lvl | None \<Rightarrow> ?m)"
    and tail: "pl_tail lvl' = (case ?m of Some q \<Rightarrow> pl_tail lvl | None \<Rightarrow> ?l)"
    using unlink pre(2)
    by (auto simp: level_unlink_def Let_def h1_def h2_def split: option.splits)
  have "dseg h2 None (pl_head lvl') xs ?l ?m"
    unfolding head using suf(2,3) disj(2) by (intro dseg_frame [OF pre(1)]) auto
  moreover have "dseg h2 ?l ?m ys (pl_tail lvl') None"
    unfolding tail by (rule suf(1))
  ultimately have "dseg h2 None (pl_head lvl') (xs @ ys) (pl_tail lvl') None"
    unfolding dseg_append by blast
  then have "dseg h' None (pl_head lvl') (xs @ ys) (pl_tail lvl') None"
    unfolding h' using dist by (intro dseg_update_outside) auto
  moreover have "pl_total_quantity lvl' = pl_total_quantity lvl - node_remaining h' p"
    "pl_order_count lvl' = pl_order_count lvl - 1"
    using unlink by (auto simp: level_unlink_def Let_def split: option.splits)
  ultimately show ?thesis
    using rep same_ordersD(2) [OF level_unlink_frame(1) [OF unlink]]
    by (simp add: level_rep_def)
qed

text \<open>A fill shrinks one resting order in place.\<close>

lemma level_rep_reduce:
  fixes q :: quantity
  assumes rep: "level_rep h lvl (xs @ p # ys)"
  defines "h' \<equiv> h[p := (h ! p)\<lparr>n_order := (n_order (h ! p))\<lparr>o_remaining := node_remaining h p - q\<rparr>\<rparr>]"
  shows "level_rep h' (lvl\<lparr>pl_total_quantity := pl_total_quantity lvl - q\<rparr>) (xs @ p # ys)"
proof -
  have dist: "p \<notin> set xs" "p \<notin> set ys" and p: "p < length h"
    using rep by (auto simp: level_rep_def dseg_append)
  have seg: "dseg h None (pl_head lvl) (xs @ p # ys) (pl_tail lvl) None"
    using rep by (simp add: level_rep_def)
  have "dseg h' None (pl_head lvl) (xs @ p # ys) (pl_tail lvl) None"
    by (rule dseg_frame [OF seg]) (simp_all add: h'_def nth_update_if)
  moreover have m: "map (node_remaining h') xs = map (node_remaining h) xs"
    "map (node_remaining h') ys = map (node_remaining h) ys" "node_remaining h' p = node_remaining h p - q"
    using dist p by (auto simp: h'_def nth_update_if)
  have "sum_list (map (node_remaining h') (xs @ p # ys)) = sum_list (map (node_remaining h) (xs @ p # ys)) - q"
    by (simp only: map_append list.map sum_list_append sum_list.Cons m) (simp add: algebra_simps)
  ultimately show ?thesis
    using rep unfolding level_rep_def by simp
qed

lemma level_rep_frame:
  assumes "level_rep h lvl ps" "length h' = length h" "\<And>p. p \<in> set ps \<Longrightarrow> h' ! p = h ! p"
  shows "level_rep h' lvl ps"
proof -
  have "map (node_remaining h') ps = map (node_remaining h) ps" using assms(3) by simp
  moreover have seg: "dseg h None (pl_head lvl) ps (pl_tail lvl) None"
    using assms(1) by (simp add: level_rep_def)
  have "dseg h' None (pl_head lvl) ps (pl_tail lvl) None"
    using assms(2,3) by (intro dseg_frame [OF seg]) simp_all
  ultimately show ?thesis using assms(1) by (simp only: level_rep_def)
qed

subsection \<open>The time-priority interface\<close>

datatype queue_op = PushBack nat | Unlink nat

text \<open>What the operations do to the sequence of queued nodes.\<close>

fun queue_op_spec :: "nat list \<Rightarrow> queue_op \<Rightarrow> nat list" where
  "queue_op_spec ps (PushBack p) = ps @ [p]"
| "queue_op_spec ps (Unlink p) = filter (\<lambda>q. q \<noteq> p) ps"

fun queue_op_ok :: "nat \<Rightarrow> nat list \<Rightarrow> queue_op \<Rightarrow> bool" where
  "queue_op_ok n ps (PushBack p) \<longleftrightarrow> p < n \<and> p \<notin> set ps"
| "queue_op_ok n ps (Unlink p) \<longleftrightarrow> p \<in> set ps"

fun queue_ops_ok :: "nat \<Rightarrow> nat list \<Rightarrow> queue_op list \<Rightarrow> bool" where
  "queue_ops_ok n ps [] \<longleftrightarrow> True"
| "queue_ops_ok n ps (c # cs) \<longleftrightarrow> queue_op_ok n ps c \<and> queue_ops_ok n (queue_op_spec ps c) cs"

locale time_priority_queue =
  fixes apply_op :: "'s \<Rightarrow> queue_op \<Rightarrow> 's"
    and queued :: "'s \<Rightarrow> nat list"
    and slots :: "'s \<Rightarrow> nat"
    and invar :: "'s \<Rightarrow> bool"
  assumes op_refines: "invar s \<Longrightarrow> queue_op_ok (slots s) (queued s) c \<Longrightarrow>
      invar (apply_op s c) \<and> slots (apply_op s c) = slots s \<and>
      queued (apply_op s c) = queue_op_spec (queued s) c"
begin

lemma run_refines:
  "invar s \<Longrightarrow> queue_ops_ok (slots s) (queued s) cs \<Longrightarrow>
     invar (foldl apply_op s cs) \<and> slots (foldl apply_op s cs) = slots s \<and>
     queued (foldl apply_op s cs) = foldl queue_op_spec (queued s) cs"
proof (induction cs arbitrary: s)
  case (Cons c cs)
  with op_refines [of s c] Cons.IH [of "apply_op s c"] show ?case by simp
qed simp

text \<open>Nodes queued from the start and never unlinked stay at the front, in their order.\<close>

lemma run_keeps_priority:
  assumes "invar s" "queue_ops_ok (slots s) (queued s) cs"
  shows "\<exists>later. queued (foldl apply_op s cs) =
    filter (\<lambda>p. Unlink p \<notin> set cs) (queued s) @ later"
proof -
  have "\<exists>later. foldl queue_op_spec ps cs = filter (\<lambda>p. Unlink p \<notin> set cs) ps @ later" for ps
  proof (induction cs arbitrary: ps)
    case (Cons c cs)
    then obtain later where
      "foldl queue_op_spec (queue_op_spec ps c) cs =
         filter (\<lambda>p. Unlink p \<notin> set cs) (queue_op_spec ps c) @ later" by blast
    then show ?case by (cases c) (auto simp: conj_commute)
  qed simp
  with run_refines [OF assms] show ?thesis by simp
qed

end

fun level_apply :: "node_heap \<times> price_level \<Rightarrow> queue_op \<Rightarrow> node_heap \<times> price_level" where
  "level_apply (h, lvl) (PushBack p) = level_push_back h lvl p"
| "level_apply (h, lvl) (Unlink p) = level_unlink h lvl p"

definition level_queued :: "node_heap \<times> price_level \<Rightarrow> nat list" where
  "level_queued s = level_nodes (fst s) (snd s)"

definition level_inv :: "node_heap \<times> price_level \<Rightarrow> bool" where
  "level_inv s \<longleftrightarrow> level_rep (fst s) (snd s) (level_queued s)"

lemma level_apply_refines:
  assumes "level_inv s" "queue_op_ok (length (fst s)) (level_queued s) c"
  shows "level_inv (level_apply s c) \<and> length (fst (level_apply s c)) = length (fst s) \<and>
    level_queued (level_apply s c) = queue_op_spec (level_queued s) c"
proof -
  obtain h lvl where s: "s = (h, lvl)" by (cases s)
  obtain h' lvl' where s': "level_apply s c = (h', lvl')" by (cases "level_apply s c")
  have rep: "level_rep h lvl (level_queued s)" using assms(1) s by (simp add: level_inv_def)
  have "level_rep h' lvl' (queue_op_spec (level_queued s) c) \<and> length h' = length h"
  proof (cases c)
    case (PushBack p)
    then have push: "level_push_back h lvl p = (h', lvl')" using s s' by simp
    with PushBack rep assms(2) s show ?thesis
      using level_push_back_rep [OF rep _ _ push] same_ordersD(1) [OF level_push_back_frame(1) [OF push]]
      by simp
  next
    case (Unlink p)
    then have unlink: "level_unlink h lvl p = (h', lvl')" using s s' by simp
    from Unlink assms(2) rep obtain xs ys where ps: "level_queued s = xs @ p # ys" "p \<notin> set xs" "p \<notin> set ys"
      using split_list_distinct [of p "level_queued s"] by (auto simp: level_rep_def)
    then show ?thesis
      using level_unlink_rep [of h lvl xs p ys, OF _ unlink] rep Unlink
        same_ordersD(1) [OF level_unlink_frame(1) [OF unlink]]
      by (simp add: filter_neq_split filter_neq_id)
  qed
  with s s' show ?thesis by (auto simp: level_inv_def level_queued_def level_rep_nodes)
qed

interpretation fifo: time_priority_queue level_apply level_queued "\<lambda>s. length (fst s)" level_inv
  by unfold_locales (rule level_apply_refines)

end
