(* ===== verification/Ladder_Side.thy ===== *)
theory Ladder_Side
  imports Bitmap Price_Level
begin

text \<open>
  \<open>LadderSide<NumLevels, IsBid>\<close> of \<open>book/order_book.hpp\<close>: the array of price levels of one
  side, the occupancy bitmap, and the cached index of the best level.  The template
  parameter \<open>IsBid\<close> is the field \<open>ls_is_bid\<close>, which no operation writes.

  The interface \<open>priority_side\<close> states what the book needs of a side: the cached best index is
  the best occupied one and \<open>next_after\<close> steps to the next worse one.  It is interpreted on
  both instances of the template.
\<close>

record ladder_side =
  ls_is_bid :: bool
  ls_levels :: "price_level list"
  ls_occupied :: bitmap
  ls_best_index :: "nat option"

definition ladder_init :: "bool \<Rightarrow> nat \<Rightarrow> ladder_side" where
  "ladder_init bid n = \<lparr>ls_is_bid = bid, ls_levels = replicate n default_level,
     ls_occupied = bitmap_init n, ls_best_index = None\<rparr>"

definition is_better :: "bool \<Rightarrow> nat \<Rightarrow> nat \<Rightarrow> bool" where
  "is_better bid a b = (if bid then a > b else a < b)"

definition ls_level :: "ladder_side \<Rightarrow> nat \<Rightarrow> price_level" where
  "ls_level s index = ls_levels s ! index"

definition ls_set_level :: "ladder_side \<Rightarrow> nat \<Rightarrow> price_level \<Rightarrow> ladder_side" where
  "ls_set_level s index lvl = s\<lparr>ls_levels := (ls_levels s)[index := lvl]\<rparr>"

definition note_nonempty :: "ladder_side \<Rightarrow> nat \<Rightarrow> ladder_side" where
  "note_nonempty s index =
     (let s1 = s\<lparr>ls_occupied := bm_set index (ls_occupied s)\<rparr>
      in if ls_best_index s1 = None \<or> is_better (ls_is_bid s1) index (the (ls_best_index s1))
         then s1\<lparr>ls_best_index := Some index\<rparr> else s1)"

definition note_maybe_empty :: "ladder_side \<Rightarrow> nat \<Rightarrow> ladder_side" where
  "note_maybe_empty s index =
     (if \<not> level_empty (ls_level s index) then s
      else let s1 = s\<lparr>ls_occupied := bm_clear index (ls_occupied s)\<rparr>
        in if ls_best_index s1 = Some index
           then s1\<lparr>ls_best_index :=
             (if ls_is_bid s1
              then (if index = 0 then None else find_highest_at_or_below (ls_occupied s1) (index - 1))
              else find_lowest_at_or_above (ls_occupied s1) (index + 1))\<rparr>
           else s1)"

definition next_after :: "ladder_side \<Rightarrow> nat \<Rightarrow> nat option" where
  "next_after s index =
     (if ls_is_bid s
      then (if index = 0 then None else find_highest_at_or_below (ls_occupied s) (index - 1))
      else find_lowest_at_or_above (ls_occupied s) (index + 1))"

subsection \<open>The occupied levels and the best one\<close>

definition ls_occ :: "ladder_side \<Rightarrow> nat set" where
  "ls_occ s = bits (ls_occupied s)"

definition best_of :: "bool \<Rightarrow> nat set \<Rightarrow> nat option \<Rightarrow> bool" where
  "best_of bid S r \<longleftrightarrow> (case r of None \<Rightarrow> S = {} | Some i \<Rightarrow> i \<in> S \<and> (\<forall>j \<in> S. j \<noteq> i \<longrightarrow> is_better bid i j))"

definition next_of :: "bool \<Rightarrow> nat set \<Rightarrow> nat \<Rightarrow> nat option \<Rightarrow> bool" where
  "next_of bid S i r \<longleftrightarrow> best_of bid {j \<in> S. is_better bid i j} r"

definition ladder_inv :: "ladder_side \<Rightarrow> bool" where
  "ladder_inv s \<longleftrightarrow> bm_num_bits (ls_occupied s) = length (ls_levels s) \<and> bitmap_inv (ls_occupied s) \<and>
     best_of (ls_is_bid s) (ls_occ s) (ls_best_index s)"

lemma ladder_init_inv: "ladder_inv (ladder_init bid n)" "ls_occ (ladder_init bid n) = {}"
  by (simp_all add: ladder_inv_def ladder_init_def ls_occ_def bitmap_init_inv bits_init best_of_def)
    (simp add: bitmap_init_def)

lemma ls_occ_bound: "ladder_inv s \<Longrightarrow> i \<in> ls_occ s \<Longrightarrow> i < length (ls_levels s)"
  by (auto simp: ladder_inv_def ls_occ_def bits_def)

lemma ls_set_level_frame [simp]:
  "ls_is_bid (ls_set_level s i lvl) = ls_is_bid s" "ls_occ (ls_set_level s i lvl) = ls_occ s"
  "length (ls_levels (ls_set_level s i lvl)) = length (ls_levels s)"
  "ls_best_index (ls_set_level s i lvl) = ls_best_index s"
  "ladder_inv (ls_set_level s i lvl) = ladder_inv s"
  "next_after (ls_set_level s i lvl) = next_after s"
  by (simp_all add: ls_set_level_def ls_occ_def ladder_inv_def next_after_def fun_eq_iff)

lemma ls_level_set: "ls_level (ls_set_level s i lvl) j =
    (if i = j \<and> i < length (ls_levels s) then lvl else ls_level s j)"
  by (simp add: ls_level_def ls_set_level_def nth_update_if)

lemma note_frame [simp]:
  "ls_is_bid (note_nonempty s i) = ls_is_bid s" "ls_levels (note_nonempty s i) = ls_levels s"
  "ls_is_bid (note_maybe_empty s i) = ls_is_bid s" "ls_levels (note_maybe_empty s i) = ls_levels s"
  by (simp_all add: note_nonempty_def note_maybe_empty_def Let_def)

lemma note_level_frame [simp]:
  "ls_level (note_nonempty s i) = ls_level s" "ls_level (note_maybe_empty s i) = ls_level s"
  by (simp_all add: ls_level_def fun_eq_iff)

text \<open>The scan of the bitmap below (above) a position finds the next worse occupied level.\<close>

lemma next_scan_below:
  "best_of True {j \<in> bits b. j < i} (if i = 0 then None else find_highest_at_or_below b (i - 1))"
proof (cases "i = 0")
  case False
  show ?thesis
  proof (cases "find_highest_at_or_below b (i - 1)")
    case None
    have "\<not> j < i" if "j \<in> bits b" for j using find_highest_None [OF None that] False by simp
    with None show ?thesis by (auto simp: best_of_def)
  next
    case (Some m)
    have "j < m" if "j \<in> bits b" "j < i" "j \<noteq> m" for j
      using find_highest_Some(3) [OF Some that(1)] that(2,3) by linarith
    moreover have "m < i" using find_highest_Some(2) [OF Some] False by simp
    ultimately show ?thesis
      using Some find_highest_Some(1) [OF Some] False by (auto simp: best_of_def is_better_def)
  qed
qed (simp add: best_of_def)

lemma next_scan_above:
  assumes "bitmap_inv b"
  shows "best_of False {j \<in> bits b. i < j} (find_lowest_at_or_above b (i + 1))"
proof (cases "find_lowest_at_or_above b (i + 1)")
  case None
  with find_lowest_None [OF assms None] show ?thesis by (force simp: best_of_def)
next
  case (Some m)
  have "m < j" if "j \<in> bits b" "i < j" "j \<noteq> m" for j
    using find_lowest_Some(3) [OF assms Some that(1)] that(2,3) by simp
  moreover have "i < m" using find_lowest_Some(2) [OF assms Some] by simp
  ultimately show ?thesis
    using Some find_lowest_Some(1) [OF assms Some] by (auto simp: best_of_def is_better_def)
qed

lemma next_after_spec:
  assumes "ladder_inv s"
  shows "next_of (ls_is_bid s) (ls_occ s) i (next_after s i)"
  using assms next_scan_below [of "ls_occupied s" i] next_scan_above [of "ls_occupied s" i]
  by (auto simp: next_of_def next_after_def ladder_inv_def ls_occ_def is_better_def)

lemma note_nonempty_inv:
  assumes "ladder_inv s" "i < length (ls_levels s)"
  shows "ladder_inv (note_nonempty s i)" "ls_occ (note_nonempty s i) = insert i (ls_occ s)"
proof -
  have i: "i < bm_num_bits (ls_occupied s)" and b: "bitmap_inv (ls_occupied s)"
    and best: "best_of (ls_is_bid s) (ls_occ s) (ls_best_index s)"
    using assms by (auto simp: ladder_inv_def)
  show occ: "ls_occ (note_nonempty s i) = insert i (ls_occ s)"
    using bm_set_inv [OF b i] by (simp add: ls_occ_def note_nonempty_def Let_def)
  have "best_of (ls_is_bid s) (insert i (ls_occ s)) (ls_best_index (note_nonempty s i))"
    using best by (auto simp: note_nonempty_def Let_def best_of_def is_better_def split: option.splits)
  then show "ladder_inv (note_nonempty s i)"
    using assms bm_set_inv [OF b i] occ
    by (auto simp: ladder_inv_def) (auto simp: note_nonempty_def Let_def)
qed

lemma note_maybe_empty_inv:
  assumes "ladder_inv s" "i < length (ls_levels s)"
  shows "ladder_inv (note_maybe_empty s i)"
    and "ls_occ (note_maybe_empty s i) = (if level_empty (ls_level s i) then ls_occ s - {i} else ls_occ s)"
proof -
  have i: "i < bm_num_bits (ls_occupied s)" and b: "bitmap_inv (ls_occupied s)"
    and best: "best_of (ls_is_bid s) (ls_occ s) (ls_best_index s)"
    using assms by (auto simp: ladder_inv_def)
  let ?b = "bm_clear i (ls_occupied s)"
  show occ: "ls_occ (note_maybe_empty s i) = (if level_empty (ls_level s i) then ls_occ s - {i} else ls_occ s)"
    using bm_clear_inv [OF b i] by (simp add: ls_occ_def note_maybe_empty_def Let_def)
  have "best_of (ls_is_bid s) (ls_occ s - {i}) (ls_best_index (note_maybe_empty s i))"
    if e: "level_empty (ls_level s i)"
  proof (cases "ls_best_index s = Some i")
    case True
    then have "{j \<in> bits ?b. is_better (ls_is_bid s) i j} = ls_occ s - {i}"
      using best bm_clear_inv(2) [OF b i] by (auto simp: best_of_def ls_occ_def)
    moreover have "ls_best_index (note_maybe_empty s i) =
        (if ls_is_bid s then (if i = 0 then None else find_highest_at_or_below ?b (i - 1))
         else find_lowest_at_or_above ?b (i + 1))"
      using True e by (simp add: note_maybe_empty_def Let_def)
    ultimately show ?thesis
      using next_scan_below [of ?b i] next_scan_above [OF bm_clear_inv(1) [OF b i], of i]
      by (cases "ls_is_bid s") (simp_all add: is_better_def)
  next
    case False
    with best e show ?thesis by (auto simp: note_maybe_empty_def Let_def best_of_def split: option.splits)
  qed
  then show "ladder_inv (note_maybe_empty s i)"
    using assms bm_clear_inv [OF b i] occ
    by (auto simp: ladder_inv_def) (auto simp: note_maybe_empty_def Let_def)
qed

lemma next_after_None:
  "ladder_inv s \<Longrightarrow> next_after s i = None \<Longrightarrow> j \<in> ls_occ s \<Longrightarrow> \<not> is_better (ls_is_bid s) i j"
  using next_after_spec [of s i] by (simp add: next_of_def best_of_def)

lemma next_after_Some:
  "ladder_inv s \<Longrightarrow> next_after s i = Some j \<Longrightarrow> j \<in> ls_occ s \<and> is_better (ls_is_bid s) i j \<and>
     (\<forall>k \<in> ls_occ s. is_better (ls_is_bid s) i k \<and> k \<noteq> j \<longrightarrow> is_better (ls_is_bid s) j k)"
  using next_after_spec [of s i] by (simp add: next_of_def best_of_def)

lemma ladder_best_None: "ladder_inv s \<Longrightarrow> ls_best_index s = None \<Longrightarrow> ls_occ s = {}"
  by (simp add: ladder_inv_def best_of_def)

lemma ladder_best_Some: "ladder_inv s \<Longrightarrow> ls_best_index s = Some i \<Longrightarrow>
    i \<in> ls_occ s \<and> (\<forall>j \<in> ls_occ s. j \<noteq> i \<longrightarrow> is_better (ls_is_bid s) i j)"
  by (simp add: ladder_inv_def best_of_def)

lemma is_better_asym: "is_better bid i j \<Longrightarrow> \<not> is_better bid j i"
  by (simp add: is_better_def split: if_splits)

subsection \<open>The priority-side interface\<close>

locale priority_side =
  fixes better :: "nat \<Rightarrow> nat \<Rightarrow> bool"
    and occ :: "'s \<Rightarrow> nat set"
    and best :: "'s \<Rightarrow> nat option"
    and next_worse :: "'s \<Rightarrow> nat \<Rightarrow> nat option"
    and invar :: "'s \<Rightarrow> bool"
  assumes better_asym: "better i j \<Longrightarrow> \<not> better j i"
    and best_None: "invar s \<Longrightarrow> best s = None \<Longrightarrow> occ s = {}"
    and best_Some: "invar s \<Longrightarrow> best s = Some i \<Longrightarrow> i \<in> occ s \<and> (\<forall>j \<in> occ s. j \<noteq> i \<longrightarrow> better i j)"
    and next_None: "invar s \<Longrightarrow> next_worse s i = None \<Longrightarrow> j \<in> occ s \<Longrightarrow> \<not> better i j"
    and next_Some: "invar s \<Longrightarrow> next_worse s i = Some j \<Longrightarrow>
      j \<in> occ s \<and> better i j \<and> (\<forall>k \<in> occ s. better i k \<and> k \<noteq> j \<longrightarrow> better j k)"
begin

text \<open>An enumeration of the occupied levels from best to worst.\<close>

definition priority_order :: "'s \<Rightarrow> nat list \<Rightarrow> bool" where
  "priority_order s xs \<longleftrightarrow> sorted_wrt better xs \<and> set xs = occ s"

lemma best_is_first:
  assumes "invar s" "priority_order s xs"
  shows "best s = (case xs of [] \<Rightarrow> None | x # _ \<Rightarrow> Some x)"
proof (cases "best s")
  case None
  with assms best_None [OF assms(1)] show ?thesis by (cases xs) (auto simp: priority_order_def)
next
  case (Some i)
  with assms obtain x ys where xs: "xs = x # ys" using best_Some [OF assms(1)] by (cases xs) (auto simp: priority_order_def)
  with Some assms best_Some [OF assms(1) Some] better_asym have "x = i"
    by (fastforce simp: priority_order_def)
  with Some xs show ?thesis by simp
qed

lemma next_is_successor:
  assumes "invar s" "priority_order s (xs @ i # ys)"
  shows "next_worse s i = (case ys of [] \<Rightarrow> None | y # _ \<Rightarrow> Some y)"
proof -
  have occ: "occ s = set xs \<union> {i} \<union> set ys" and ord: "\<And>x. x \<in> set xs \<Longrightarrow> better x i"
    "\<And>y. y \<in> set ys \<Longrightarrow> better i y" "sorted_wrt better ys"
    using assms(2) by (auto simp: priority_order_def sorted_wrt_append)
  then have worse: "k \<in> occ s \<and> better i k \<longleftrightarrow> k \<in> set ys" for k using better_asym by blast
  show ?thesis
  proof (cases "next_worse s i")
    case None
    with worse next_None [OF assms(1) None] show ?thesis by (cases ys) auto
  next
    case (Some j)
    note j = next_Some [OF assms(1) Some]
    with worse obtain y zs where ys: "ys = y # zs" by (cases ys) auto
    have "j = y"
    proof (rule ccontr)
      assume "j \<noteq> y"
      moreover from this ys j worse [of j] have "j \<in> set zs" by simp
      ultimately have "better y j" "better j y" using ord(3) ys j worse [of y] by auto
      then show False using better_asym by blast
    qed
    with Some ys show ?thesis by simp
  qed
qed

end

interpretation bid_side: priority_side "is_better True" ls_occ ls_best_index next_after
    "\<lambda>s. ladder_inv s \<and> ls_is_bid s"
proof (unfold_locales, goal_cases)
  case (1 i j)
  then show ?case by (rule is_better_asym)
next
  case (2 s)
  then show ?case using ladder_best_None [of s] by simp
next
  case (3 s i)
  then show ?case using ladder_best_Some [of s i] by simp
next
  case (4 s i j)
  then show ?case using next_after_None [of s i j] by simp
next
  case (5 s i j)
  then show ?case using next_after_Some [of s i j] by simp
qed

interpretation ask_side: priority_side "is_better False" ls_occ ls_best_index next_after
    "\<lambda>s. ladder_inv s \<and> \<not> ls_is_bid s"
proof (unfold_locales, goal_cases)
  case (1 i j)
  then show ?case by (rule is_better_asym)
next
  case (2 s)
  then show ?case using ladder_best_None [of s] by simp
next
  case (3 s i)
  then show ?case using ladder_best_Some [of s i] by simp
next
  case (4 s i j)
  then show ?case using next_after_None [of s i j] by simp
next
  case (5 s i j)
  then show ?case using next_after_Some [of s i j] by simp
qed

end
