(* ===== verification/Price_Index.thy ===== *)
theory Price_Index
  imports Bitmap
begin

text \<open>
  \<open>book/price_index_variants.hpp\<close>: three structures that answer which prices are occupied and
  which is the highest.  The locale \<open>price_index\<close> is the question; it is interpreted on all
  three answers, so that each agrees with a finite set and its maximum, and with the others.

  Prices are signed 64-bit values.  The ladder takes those from 0 up to its size; the tree is
  \<open>std::set\<close>, a finite set ordered by signed comparison; the flat index is the sorted vector,
  with \<open>std::lower_bound\<close> as the number of elements below the price.
\<close>

subsection \<open>The three structures\<close>

record ladder_index =
  li_occupied :: bitmap
  li_best :: "nat option"

definition ladder_index_init :: "nat \<Rightarrow> ladder_index" where
  "ladder_index_init num_prices = \<lparr>li_occupied = bitmap_init num_prices, li_best = None\<rparr>"

definition ladder_insert :: "i64 \<Rightarrow> ladder_index \<Rightarrow> ladder_index" where
  "ladder_insert p x =
     (let idx = unat p; x = x\<lparr>li_occupied := bm_set idx (li_occupied x)\<rparr>
      in if (case li_best x of None \<Rightarrow> True | Some b \<Rightarrow> b < idx) then x\<lparr>li_best := Some idx\<rparr> else x)"

definition ladder_erase :: "i64 \<Rightarrow> ladder_index \<Rightarrow> ladder_index" where
  "ladder_erase p x =
     (let idx = unat p; x = x\<lparr>li_occupied := bm_clear idx (li_occupied x)\<rparr>
      in if li_best x = Some idx
         then x\<lparr>li_best := if idx = 0 then None else find_highest_at_or_below (li_occupied x) (idx - 1)\<rparr> else x)"

definition ladder_best :: "ladder_index \<Rightarrow> i64 option" where
  "ladder_best x = map_option of_nat (li_best x)"

record tree_index =
  ti_set :: "i64 set"

definition tree_index_init :: tree_index where
  "tree_index_init = \<lparr>ti_set = {}\<rparr>"

definition tree_insert :: "i64 \<Rightarrow> tree_index \<Rightarrow> tree_index" where
  "tree_insert p x = x\<lparr>ti_set := insert p (ti_set x)\<rparr>"

definition tree_erase :: "i64 \<Rightarrow> tree_index \<Rightarrow> tree_index" where
  "tree_erase p x = x\<lparr>ti_set := ti_set x - {p}\<rparr>"

definition tree_best :: "tree_index \<Rightarrow> i64 option" where
  "tree_best x = (if ti_set x = {} then None else Some (word_of_int (Max (sint ` ti_set x))))"

record flat_index =
  fx_prices :: "i64 list"

definition flat_index_init :: flat_index where
  "flat_index_init = \<lparr>fx_prices = []\<rparr>"

definition lower_bound :: "i64 list \<Rightarrow> i64 \<Rightarrow> nat" where
  "lower_bound v p = length (takeWhile (\<lambda>x. sint x < sint p) v)"

definition flat_insert :: "i64 \<Rightarrow> flat_index \<Rightarrow> flat_index" where
  "flat_insert p x =
     (let v = fx_prices x; it = lower_bound v p
      in if it = length v \<or> v ! it \<noteq> p then x\<lparr>fx_prices := take it v @ p # drop it v\<rparr> else x)"

definition flat_erase :: "i64 \<Rightarrow> flat_index \<Rightarrow> flat_index" where
  "flat_erase p x =
     (let v = fx_prices x; it = lower_bound v p
      in if it \<noteq> length v \<and> v ! it = p then x\<lparr>fx_prices := take it v @ drop (it + 1) v\<rparr> else x)"

definition flat_best :: "flat_index \<Rightarrow> i64 option" where
  "flat_best x = (if fx_prices x = [] then None else Some (last (fx_prices x)))"

subsection \<open>The interface\<close>

datatype index_op = InsertPrice i64 | ErasePrice i64

fun index_op_price :: "index_op \<Rightarrow> i64" where
  "index_op_price (InsertPrice p) = p"
| "index_op_price (ErasePrice p) = p"

fun occupied_after :: "index_op \<Rightarrow> int set \<Rightarrow> int set" where
  "occupied_after (InsertPrice p) S = insert (sint p) S"
| "occupied_after (ErasePrice p) S = S - {sint p}"

definition highest :: "int set \<Rightarrow> i64 option" where
  "highest S = (if S = {} then None else Some (word_of_int (Max S)))"

fun index_apply :: "(i64 \<Rightarrow> 'q \<Rightarrow> 'q) \<Rightarrow> (i64 \<Rightarrow> 'q \<Rightarrow> 'q) \<Rightarrow> index_op \<Rightarrow> 'q \<Rightarrow> 'q" where
  "index_apply ins del (InsertPrice p) q = ins p q"
| "index_apply ins del (ErasePrice p) q = del p q"

locale price_index =
  fixes ins del :: "i64 \<Rightarrow> 'q \<Rightarrow> 'q"
    and best :: "'q \<Rightarrow> i64 option"
    and occ :: "'q \<Rightarrow> int set"
    and valid :: "'q \<Rightarrow> i64 \<Rightarrow> bool"
    and invar :: "'q \<Rightarrow> bool"
  assumes ins_law: "invar q \<Longrightarrow> valid q p \<Longrightarrow> invar (ins p q) \<and> valid (ins p q) = valid q \<and> occ (ins p q) = insert (sint p) (occ q)"
    and del_law: "invar q \<Longrightarrow> valid q p \<Longrightarrow> invar (del p q) \<and> valid (del p q) = valid q \<and> occ (del p q) = occ q - {sint p}"
    and finite_occ: "invar q \<Longrightarrow> finite (occ q)"
    and best_None: "invar q \<Longrightarrow> best q = None \<longleftrightarrow> occ q = {}"
    and best_Some: "invar q \<Longrightarrow> best q = Some p \<Longrightarrow> sint p \<in> occ q \<and> (\<forall>x \<in> occ q. x \<le> sint p)"
begin

lemma best_highest:
  assumes "invar q"
  shows "best q = highest (occ q)"
proof (cases "best q")
  case None
  then show ?thesis using best_None [OF assms] by (simp add: highest_def)
next
  case (Some p)
  then have max: "Max (occ q) = sint p" "occ q \<noteq> {}"
    using best_Some [OF assms Some] finite_occ [OF assms] by (auto intro: Max_eqI)
  with Some show ?thesis by (simp add: highest_def max(1))
qed

lemma run_law:
  assumes "invar q" "\<forall>op \<in> set ops. valid q (index_op_price op)"
  shows "invar (fold (index_apply ins del) ops q)"
    "best (fold (index_apply ins del) ops q) = highest (fold occupied_after ops (occ q))"
proof -
  have "invar (fold (index_apply ins del) ops q) \<and> occ (fold (index_apply ins del) ops q) = fold occupied_after ops (occ q)"
    using assms
  proof (induction ops arbitrary: q)
    case (Cons op ops)
    let ?q = "index_apply ins del op q"
    have st: "invar ?q" "valid ?q = valid q" "occ ?q = occupied_after op (occ q)"
      using ins_law [of q "index_op_price op"] del_law [of q "index_op_price op"] Cons.prems by (cases op; simp)+
    then show ?case using Cons.IH [of ?q] Cons.prems by simp
  qed simp
  then show "invar (fold (index_apply ins del) ops q)"
    "best (fold (index_apply ins del) ops q) = highest (fold occupied_after ops (occ q))"
    using best_highest by auto
qed

end

subsection \<open>The sorted vector\<close>

definition flat_inv :: "flat_index \<Rightarrow> bool" where
  "flat_inv x \<longleftrightarrow> sorted_wrt (\<lambda>a b. sint a < sint b) (fx_prices x)"

lemma lower_bound_split:
  assumes "sorted_wrt (\<lambda>a b. sint a < sint b) v"
  shows "\<exists>xs ys. v = xs @ ys \<and> lower_bound v p = length xs \<and> (\<forall>x \<in> set xs. sint x < sint p) \<and> (\<forall>y \<in> set ys. sint p \<le> sint y)"
  using assms
proof (induction v)
  case (Cons a v)
  show ?case
  proof (cases "sint a < sint p")
    case True
    obtain xs ys where "v = xs @ ys" "lower_bound v p = length xs" "\<forall>x \<in> set xs. sint x < sint p" "\<forall>y \<in> set ys. sint p \<le> sint y"
      using Cons by auto
    with True show ?thesis by (intro exI [of _ "a # xs"] exI [of _ ys]) (simp add: lower_bound_def)
  next
    case False
    with Cons.prems show ?thesis by (intro exI [of _ "[]"] exI [of _ "a # v"]) (fastforce simp: lower_bound_def)
  qed
qed (simp add: lower_bound_def)

text \<open>The price is where \<open>lower_bound\<close> points, or it is not in the vector.\<close>

lemma flat_cases:
  assumes "flat_inv x"
  obtains (there) xs ys where "fx_prices x = xs @ p # ys" "lower_bound (fx_prices x) p = length xs" "p \<notin> set xs" "p \<notin> set ys"
  | (absent) xs ys where "fx_prices x = xs @ ys" "lower_bound (fx_prices x) p = length xs" "p \<notin> set (fx_prices x)"
      "\<forall>a \<in> set xs. sint a < sint p" "\<forall>y \<in> set ys. sint p < sint y"
      "length xs = length (fx_prices x) \<or> fx_prices x ! length xs \<noteq> p"
proof -
  obtain xs ys where v: "fx_prices x = xs @ ys" "lower_bound (fx_prices x) p = length xs"
    "\<forall>a \<in> set xs. sint a < sint p" "\<forall>y \<in> set ys. sint p \<le> sint y"
    using lower_bound_split [of "fx_prices x" p] assms by (auto simp: flat_inv_def)
  have strict: "sorted_wrt (\<lambda>a b. sint a < sint b) ys" using assms v(1) by (simp add: flat_inv_def sorted_wrt_append)
  show thesis
  proof (cases "\<exists>zs. ys = p # zs")
    case True
    then obtain zs where "ys = p # zs" ..
    with v strict show thesis by (intro there [of xs zs]) auto
  next
    case False
    have "sint p < sint y" if y: "y \<in> set ys" for y
    proof -
      obtain z zs where ys: "ys = z # zs" "z \<noteq> p" using y False by (cases ys) auto
      then have "sint p < sint z" using v(4) sint_eq_iff_i64 [of p z] by fastforce
      with y ys strict show ?thesis by auto
    qed
    moreover from this have "p \<notin> set (fx_prices x)" using v(1,3) by auto
    moreover have "length xs = length (fx_prices x) \<or> fx_prices x ! length xs \<noteq> p" using v(1) False by (cases ys) auto
    ultimately show thesis using v by (intro absent [of xs ys]) auto
  qed
qed

lemma flat_insert_inv:
  assumes "flat_inv x"
  shows "flat_inv (flat_insert p x) \<and> set (fx_prices (flat_insert p x)) = insert p (set (fx_prices x))"
proof (cases rule: flat_cases [OF assms, of p, case_names there absent])
  case (there xs ys)
  then show ?thesis using assms by (simp add: flat_insert_def Let_def)
next
  case (absent xs ys)
  then have "fx_prices (flat_insert p x) = xs @ p # ys" by (auto simp: flat_insert_def Let_def)
  with absent assms show ?thesis by (auto simp: flat_inv_def sorted_wrt_append)
qed

lemma flat_erase_inv:
  assumes "flat_inv x"
  shows "flat_inv (flat_erase p x) \<and> set (fx_prices (flat_erase p x)) = set (fx_prices x) - {p}"
proof (cases rule: flat_cases [OF assms, of p, case_names there absent])
  case (there xs ys)
  then have "fx_prices (flat_erase p x) = xs @ ys" by (simp add: flat_erase_def Let_def)
  with there assms show ?thesis by (auto simp: flat_inv_def sorted_wrt_append)
next
  case (absent xs ys)
  then have "flat_erase p x = x" by (auto simp: flat_erase_def Let_def)
  with absent assms show ?thesis by simp
qed

lemma sint_image_Diff: "sint ` (A - {p}) = sint ` A - {sint p}" for p :: i64
  by (auto simp: sint_eq_iff_i64)

interpretation flat: price_index flat_insert flat_erase flat_best "\<lambda>x. sint ` set (fx_prices x)" "\<lambda>x p. True" flat_inv
proof (unfold_locales, goal_cases)
  case (5 x p)
  then obtain v where v: "fx_prices x = v @ [p]" by (auto simp: flat_best_def split: if_splits intro: append_butlast_last_id [symmetric])
  with 5 show ?case by (auto simp: flat_inv_def sorted_wrt_append order.strict_implies_order)
qed (simp_all add: flat_insert_inv flat_erase_inv sint_image_Diff flat_best_def)

interpretation tree: price_index tree_insert tree_erase tree_best "\<lambda>x. sint ` ti_set x" "\<lambda>x p. True" "\<lambda>x. True"
proof (unfold_locales, goal_cases)
  case (5 x p)
  then have p: "p = word_of_int (Max (sint ` ti_set x))" "ti_set x \<noteq> {}" by (auto simp: tree_best_def split: if_splits)
  then have "Max (sint ` ti_set x) \<in> sint ` ti_set x" by (intro Max_in) auto
  then obtain a where a: "a \<in> ti_set x" "Max (sint ` ti_set x) = sint a" by auto
  then have "\<forall>b \<in> ti_set x. sint b \<le> sint a" using Max_ge [of "sint ` ti_set x"] by auto
  with a p show ?case by simp
qed (simp_all add: tree_insert_def tree_erase_def tree_best_def sint_image_Diff)

subsection \<open>The ladder\<close>

definition ladder_index_inv :: "ladder_index \<Rightarrow> bool" where
  "ladder_index_inv x \<longleftrightarrow> bitmap_inv (li_occupied x) \<and> bm_num_bits (li_occupied x) \<le> 2 ^ 63 \<and>
     (case li_best x of None \<Rightarrow> bits (li_occupied x) = {}
      | Some b \<Rightarrow> b \<in> bits (li_occupied x) \<and> (\<forall>j \<in> bits (li_occupied x). j \<le> b))"

definition ladder_valid :: "ladder_index \<Rightarrow> i64 \<Rightarrow> bool" where
  "ladder_valid x p \<longleftrightarrow> 0 \<le> sint p \<and> sint p < int (bm_num_bits (li_occupied x))"

lemma unat_nonneg:
  fixes p :: i64
  assumes "0 \<le> sint p"
  shows "unat p = nat (sint p)" "uint p = sint p"
proof -
  have "sint (of_nat (nat (sint p)) :: i64) = int (nat (sint p))"
    using assms sint_i64_bounds [of p] by (intro sint_of_nat_i64) simp
  then have "of_nat (nat (sint p)) = p" using assms by (simp add: sint_eq_iff_i64 [symmetric])
  then have "unat p = nat (sint p) mod 2 ^ 64" using unat_of_nat [of "nat (sint p)", where 'a = 64] by simp
  moreover have "nat (sint p) < 2 ^ 64" using sint_i64_bounds [of p] by simp
  ultimately show u: "unat p = nat (sint p)" by simp
  have "uint p = int (unat p)" by simp
  with u assms show "uint p = sint p" by simp
qed

lemma ladder_index_init_inv: "n \<le> 2 ^ 63 \<Longrightarrow> ladder_index_inv (ladder_index_init n)"
  by (simp add: ladder_index_inv_def ladder_index_init_def bitmap_init_inv bits_init) (simp add: bitmap_init_def)

lemma ladder_insert_inv:
  assumes "ladder_index_inv x" "ladder_valid x p"
  shows "ladder_index_inv (ladder_insert p x)" "li_occupied (ladder_insert p x) = bm_set (unat p) (li_occupied x)"
    "bits (li_occupied (ladder_insert p x)) = insert (unat p) (bits (li_occupied x))"
proof -
  have i: "unat p < bm_num_bits (li_occupied x)" using assms(2) unat_nonneg(1) [of p] by (auto simp: ladder_valid_def)
  have inv: "bitmap_inv (li_occupied x)" using assms(1) by (simp add: ladder_index_inv_def)
  note b = bm_set_inv [OF inv i]
  show occ: "li_occupied (ladder_insert p x) = bm_set (unat p) (li_occupied x)" by (simp add: ladder_insert_def Let_def)
  then show "bits (li_occupied (ladder_insert p x)) = insert (unat p) (bits (li_occupied x))" using b by simp
  show "ladder_index_inv (ladder_insert p x)"
    using assms(1) b by (cases "li_best x") (auto simp: ladder_index_inv_def ladder_insert_def Let_def)
qed

lemma ladder_erase_inv:
  assumes "ladder_index_inv x" "ladder_valid x p"
  shows "ladder_index_inv (ladder_erase p x)" "li_occupied (ladder_erase p x) = bm_clear (unat p) (li_occupied x)"
    "bits (li_occupied (ladder_erase p x)) = bits (li_occupied x) - {unat p}"
proof -
  have i: "unat p < bm_num_bits (li_occupied x)" using assms(2) unat_nonneg(1) [of p] by (auto simp: ladder_valid_def)
  have inv: "bitmap_inv (li_occupied x)" using assms(1) by (simp add: ladder_index_inv_def)
  note b = bm_clear_inv [OF inv i]
  let ?o = "bm_clear (unat p) (li_occupied x)"
  show occ: "li_occupied (ladder_erase p x) = ?o" by (simp add: ladder_erase_def Let_def)
  then show "bits (li_occupied (ladder_erase p x)) = bits (li_occupied x) - {unat p}" using b by simp
  show "ladder_index_inv (ladder_erase p x)"
  proof (cases "li_best x = Some (unat p)")
    case True
    then have top: "\<forall>j \<in> bits (li_occupied x). j \<le> unat p" using assms(1) by (simp add: ladder_index_inv_def)
    have below: "j \<le> unat p - 1 \<and> 0 < unat p" if "j \<in> bits ?o" for j using that top b by (cases "j = unat p") auto
    let ?f = "find_highest_at_or_below ?o (unat p - 1)"
    have "case (if unat p = 0 then None else ?f) of None \<Rightarrow> bits ?o = {} | Some m \<Rightarrow> m \<in> bits ?o \<and> (\<forall>j \<in> bits ?o. j \<le> m)"
    proof (cases "unat p = 0")
      case True
      then show ?thesis using below by auto
    next
      case False
      then show ?thesis
        using below find_highest_Some [of ?o "unat p - 1"] find_highest_None [of ?o "unat p - 1"] by (fastforce split: option.split)
    qed
    moreover have best: "li_best (ladder_erase p x) = (if unat p = 0 then None else ?f)"
      using True by (simp add: ladder_erase_def Let_def)
    ultimately show ?thesis
      using assms(1) b(1) unfolding ladder_index_inv_def occ best by simp
  next
    case False
    then show ?thesis using assms(1) b
      by (cases "li_best x") (auto simp: ladder_index_inv_def ladder_erase_def Let_def)
  qed
qed

interpretation ladder: price_index ladder_insert ladder_erase ladder_best "\<lambda>x. int ` bits (li_occupied x)" ladder_valid ladder_index_inv
proof (unfold_locales, goal_cases)
  case (1 x p)
  then show ?case
    using ladder_insert_inv [OF 1] unat_nonneg [of p] by (auto simp: ladder_valid_def fun_eq_iff)
next
  case (2 x p)
  then have "int ` (bits (li_occupied x) - {unat p}) = int ` bits (li_occupied x) - {sint p}"
    using unat_nonneg [of p] by (auto simp: ladder_valid_def)
  with 2 show ?case using ladder_erase_inv [OF 2] by (simp add: ladder_valid_def fun_eq_iff)
next
  case (3 x)
  then show ?case by (simp add: bits_def)
next
  case (4 x)
  then show ?case by (auto simp: ladder_best_def ladder_index_inv_def split: option.splits)
next
  case (5 x p)
  then obtain b where b: "li_best x = Some b" "p = of_nat b" by (auto simp: ladder_best_def)
  with 5 have bb: "b \<in> bits (li_occupied x)" "\<forall>j \<in> bits (li_occupied x). j \<le> b" "b < 2 ^ 63"
    by (auto simp: ladder_index_inv_def bits_def)
  then have "sint p = int b" using b by (simp add: sint_of_nat_i64)
  with bb show ?case by simp
qed

end
