(* ===== verification/Structure_Properties.thy ===== *)
theory Structure_Properties
  imports Slab_Pool Pmr_Pool Ladder_Side Price_Index
begin

text \<open>
  The properties of the data structures below the order book: the slab pool, the occupancy
  bitmap, the FIFO of a price level and the three price indexes.
\<close>

lemma free_slots_dealloc:
  assumes "pool_inv capacity p" "i \<in> live_slots capacity p"
  shows "allocate d (deallocate i p) = (Some i, snd (allocate d (deallocate i p)))"
proof -
  have rep: "pool_rep capacity p (free_slots p)" using assms(1) by (simp add: pool_inv_def)
  have "i < capacity" "i \<notin> set (free_slots p)" using assms(2) by (auto simp: live_slots_def)
  from allocate_Some(1) [OF deallocate_rep [OF rep this], of d] show ?thesis by simp
qed

text \<open>The slab pool hands out only slots that are not live and fails only when every slot is; a
  freed slot is the next one handed out, and the count of live objects is exact.\<close>

theorem slab_pool_correct:
  assumes "pool_inv capacity p"
  shows "(case allocate d p of
      (None, p') \<Rightarrow> p' = p \<and> live_slots capacity p = {..<capacity}
    | (Some i, p') \<Rightarrow> i < capacity \<and> i \<notin> live_slots capacity p \<and> pool_inv capacity p' \<and>
        live_slots capacity p' = insert i (live_slots capacity p)) \<and>
    sp_live_count p = card (live_slots capacity p) \<and>
    (\<forall>i \<in> live_slots capacity p. pool_inv capacity (deallocate i p) \<and>
      live_slots capacity (deallocate i p) = live_slots capacity p - {i} \<and>
      fst (allocate d (deallocate i p)) = Some i)"
proof -
  have full: "live_slots capacity p = {..<capacity}" if "sp_live_count p = capacity"
    using slab.count_live [OF assms] slab.live_bound [OF assms] that by (intro card_subset_eq) simp_all
  have reuse: "fst (allocate d (deallocate i p)) = Some i" if "i \<in> live_slots capacity p" for i
    using free_slots_dealloc [OF assms that, of d] by (metis fst_conv)
  obtain r p' where a: "allocate d p = (r, p')" by (cases "allocate d p")
  have "case r of None \<Rightarrow> p' = p \<and> live_slots capacity p = {..<capacity}
    | Some i \<Rightarrow> i < capacity \<and> i \<notin> live_slots capacity p \<and> pool_inv capacity p' \<and>
        live_slots capacity p' = insert i (live_slots capacity p)"
    using a slab.alloc_full [OF assms, of d p'] slab.alloc_fresh [OF assms, of d _ p'] full by (cases r) simp_all
  then show ?thesis
    using slab.dealloc_live [OF assms] reuse unfolding a slab.count_live [OF assms] by (cases r) simp_all
qed

theorem slab_pool_correct_witness:
  "pool_inv 2 (slab_pool_init 2 (0 :: nat)) \<and> fst (allocate 7 (slab_pool_init 2 (0 :: nat))) = Some 0 \<and>
   0 \<notin> live_slots 2 (slab_pool_init 2 (0 :: nat))"
proof -
  have inv: "pool_inv 2 (slab_pool_init 2 (0 :: nat))" by (rule pool_repI [OF pool_rep_init]) (simp_all add: kNone_def)
  moreover have "allocate 7 (slab_pool_init 2 (0 :: nat)) = (Some 0, snd (allocate 7 (slab_pool_init 2 0)))"
    by (simp add: allocate_def slab_pool_init_def kNone_def Let_def)
  ultimately show ?thesis using slab_pool_correct [OF inv, of 7] by (cases "allocate 7 (slab_pool_init 2 (0 :: nat))") simp
qed

text \<open>C36: the word-at-a-time scans of the bitmap, with their leading- and trailing-zero counts, return the
  greatest set bit at or below and the least set bit at or above a position.\<close>

theorem bitmap_scans_correct:
  assumes "bitmap_inv b"
  shows "find_highest_at_or_below b i =
      (if {j \<in> bits b. j \<le> i} = {} then None else Some (Max {j \<in> bits b. j \<le> i})) \<and>
    find_lowest_at_or_above b i =
      (if {j \<in> bits b. i \<le> j} = {} then None else Some (Min {j \<in> bits b. i \<le> j}))"
proof
  have fin: "finite (bits b)" by (rule finite_subset [of _ "{..<bm_num_bits b}"]) (auto simp: bits_def)
  show "find_highest_at_or_below b i = (if {j \<in> bits b. j \<le> i} = {} then None else Some (Max {j \<in> bits b. j \<le> i}))"
  proof (cases "find_highest_at_or_below b i")
    case None
    then show ?thesis using find_highest_None [OF None] by fastforce
  next
    case (Some m)
    then have "Max {j \<in> bits b. j \<le> i} = m" using fin find_highest_Some [OF Some] by (intro Max_eqI) auto
    then show ?thesis using Some find_highest_Some(1,2) [OF Some] by auto
  qed
  show "find_lowest_at_or_above b i = (if {j \<in> bits b. i \<le> j} = {} then None else Some (Min {j \<in> bits b. i \<le> j}))"
  proof (cases "find_lowest_at_or_above b i")
    case None
    then show ?thesis using find_lowest_None [OF assms None] by fastforce
  next
    case (Some m)
    then have "Min {j \<in> bits b. i \<le> j} = m" using fin find_lowest_Some [OF assms Some] by (intro Min_eqI) auto
    then show ?thesis using Some find_lowest_Some(1,2) [OF assms Some] by auto
  qed
qed

theorem bitmap_scans_correct_witness:
  "bitmap_inv (bm_set 70 (bitmap_init 130)) \<and> find_highest_at_or_below (bm_set 70 (bitmap_init 130)) 129 = Some 70 \<and>
   find_lowest_at_or_above (bm_set 70 (bitmap_init 130)) 3 = Some 70 \<and>
   find_lowest_at_or_above (bm_set 70 (bitmap_init 130)) 71 = None"
proof -
  have n: "70 < bm_num_bits (bitmap_init 130)" by (simp add: bitmap_init_def)
  note inv = bm_set_inv [OF bitmap_init_inv n]
  have bits: "bits (bm_set 70 (bitmap_init 130)) = {70}" using inv(2) by (simp add: bits_init)
  have "{j \<in> {70 :: nat}. j \<le> 129} = {70}" "{j \<in> {70 :: nat}. 3 \<le> j} = {70}" "{j \<in> {70 :: nat}. 71 \<le> j} = {}" by auto
  then show ?thesis
    using bitmap_scans_correct [OF inv(1), of 129] bitmap_scans_correct [OF inv(1), of 3] bitmap_scans_correct [OF inv(1), of 71] inv(1)
    by (simp add: bits)
qed

text \<open>Time priority at a price level.  After any sequence of \<open>push_back\<close> and \<open>unlink\<close> calls on the
  intrusive list, the queue is what the same calls do to a plain list; orders queued before and not
  unlinked are still at the front, in their order.\<close>

theorem level_keeps_time_priority:
  assumes "level_inv s" "queue_ops_ok (length (fst s)) (level_queued s) cs"
  shows "level_inv (foldl level_apply s cs) \<and>
    level_queued (foldl level_apply s cs) = foldl queue_op_spec (level_queued s) cs \<and>
    (\<exists>later. level_queued (foldl level_apply s cs) = filter (\<lambda>p. Unlink p \<notin> set cs) (level_queued s) @ later)"
  using fifo.run_refines [OF assms] fifo.run_keeps_priority [OF assms] by blast

theorem level_keeps_time_priority_witness:
  "level_inv (replicate 3 default_node, default_level) \<and>
   level_queued (foldl level_apply (replicate 3 default_node, default_level) [PushBack 2, PushBack 0, PushBack 1, Unlink 0]) = [2, 1]"
proof -
  have nodes: "level_nodes (replicate 3 default_node) default_level = []"
    using level_rep_nodes [OF level_rep_default] .
  have inv: "level_inv (replicate 3 default_node, default_level)"
    by (simp add: level_inv_def level_queued_def nodes level_rep_default)
  have "queue_ops_ok 3 [] [PushBack 2, PushBack 0, PushBack 1, Unlink 0]" by simp
  then show ?thesis
    using level_keeps_time_priority [OF inv, of "[PushBack 2, PushBack 0, PushBack 1, Unlink 0]"] inv
    by (simp add: level_queued_def nodes)
qed

subsection \<open>The price indexes\<close>

text \<open>C30: the bitmap ladder, the tree and the sorted vector are interchangeable: after any sequence of
  insertions and erasures of prices on the ladder all three report the highest price of the set of
  prices inserted and not erased since.\<close>

theorem price_indexes_agree:
  assumes "n \<le> 2 ^ 63" "\<forall>op \<in> set ops. 0 \<le> sint (index_op_price op) \<and> sint (index_op_price op) < int n"
  shows "ladder_best (fold (index_apply ladder_insert ladder_erase) ops (ladder_index_init n)) = highest (fold occupied_after ops {}) \<and>
    tree_best (fold (index_apply tree_insert tree_erase) ops tree_index_init) = highest (fold occupied_after ops {}) \<and>
    flat_best (fold (index_apply flat_insert flat_erase) ops flat_index_init) = highest (fold occupied_after ops {})"
proof -
  have "bits (li_occupied (ladder_index_init n)) = {}" "bm_num_bits (li_occupied (ladder_index_init n)) = n"
    by (simp_all add: ladder_index_init_def bits_init) (simp add: bitmap_init_def)
  then show ?thesis
    using ladder.run_law(2) [OF ladder_index_init_inv [OF assms(1)], of ops] tree.run_law(2) [where q = tree_index_init and ops = ops]
      flat.run_law(2) [where q = flat_index_init and ops = ops] assms(2)
    by (simp add: ladder_valid_def tree_index_init_def flat_index_init_def flat_inv_def)
qed

theorem price_indexes_agree_witness:
  "ladder_best (fold (index_apply ladder_insert ladder_erase) [InsertPrice 3, InsertPrice 70, ErasePrice 70] (ladder_index_init 100)) = Some 3 \<and>
   flat_best (fold (index_apply flat_insert flat_erase) [InsertPrice 3, InsertPrice 70, ErasePrice 70] flat_index_init) = Some 3"
proof -
  have "highest (fold occupied_after [InsertPrice 3, InsertPrice 70, ErasePrice 70] {}) = Some 3"
    by (simp add: highest_def insert_Diff_if)
  then show ?thesis using price_indexes_agree [of 100 "[InsertPrice 3, InsertPrice 70, ErasePrice 70]"] by simp
qed

end
