(* ===== verification/Order_Book.thy ===== *)
theory Order_Book
  imports Slab_Pool Ladder_Side
begin

text \<open>
  \<open>OrderBook<NumLevels, MaxOrders>\<close> of \<open>book/order_book.hpp\<close>.  The template parameters are
  the fields \<open>ob_num_levels\<close> and \<open>ob_max_orders\<close>, which no operation writes; the order
  index is the third-party hash map, so every operation that uses it takes the record \<open>H\<close> of
  its operations.  Errors of \<open>std::expected\<close> are the left summand of a result.

  The abstract view of a book is \<open>book_orders\<close>: for each side and price index the resting
  orders, oldest first.  The invariant \<open>book_inv\<close> ties the pool, the linked lists, the
  aggregates, the occupancy bitmaps, the cached best indices and the order index together;
  the lemmas show that every operation keeps it and what it does to the abstract view.
\<close>

datatype add_error = PriceOutOfRange | DuplicateOrderId | PoolExhausted | InvalidQuantity | MarketOrderCannotRest
datatype cancel_error = CancelNotFound
datatype reduce_error = ReduceNotFound | InvalidFillAmount
datatype replace_error = ReplaceNotFound | ReplacePriceOutOfRange | ReplaceInvalidQuantity | ReplacePoolExhausted

record 'm order_book =
  ob_num_levels :: nat
  ob_max_orders :: nat
  ob_symbol :: symbol_id
  ob_base_price :: price
  ob_bids :: ladder_side
  ob_asks :: ladder_side
  ob_pool :: "order_node slab_pool"
  ob_order_index :: 'm
  ob_order_count :: nat

type_synonym 'm index_ops = "(order_id, nat, 'm) hash_map_ops"

definition order_book_init :: "'m index_ops \<Rightarrow> nat \<Rightarrow> nat \<Rightarrow> symbol_id \<Rightarrow> price \<Rightarrow> 'm order_book" where
  "order_book_init H num_levels max_orders symbol base =
     \<lparr>ob_num_levels = num_levels, ob_max_orders = max_orders, ob_symbol = symbol, ob_base_price = base,
      ob_bids = ladder_init True num_levels, ob_asks = ladder_init False num_levels,
      ob_pool = slab_pool_init max_orders default_node, ob_order_index = hm_empty H, ob_order_count = 0\<rparr>"

abbreviation nodes :: "'m order_book \<Rightarrow> node_heap" where
  "nodes b \<equiv> sp_storage (ob_pool b)"

abbreviation set_nodes :: "node_heap \<Rightarrow> 'm order_book \<Rightarrow> 'm order_book" where
  "set_nodes h b \<equiv> b\<lparr>ob_pool := (ob_pool b)\<lparr>sp_storage := h\<rparr>\<rparr>"

subsection \<open>Prices and levels\<close>

definition index_of :: "'m order_book \<Rightarrow> price \<Rightarrow> nat option" where
  "index_of b p =
     (let offset = p - ob_base_price b
      in if sint offset < 0 \<or> unat offset \<ge> ob_num_levels b then None else Some (unat offset))"

definition price_at :: "'m order_book \<Rightarrow> nat \<Rightarrow> price" where
  "price_at b index = ob_base_price b + of_nat index"

definition level_for :: "'m order_book \<Rightarrow> side \<Rightarrow> nat \<Rightarrow> price_level" where
  "level_for b s index = (if s = Buy then ls_level (ob_bids b) index else ls_level (ob_asks b) index)"

text \<open>Writing through the reference \<open>level_for\<close> returns.\<close>

definition set_level_for :: "'m order_book \<Rightarrow> side \<Rightarrow> nat \<Rightarrow> price_level \<Rightarrow> 'm order_book" where
  "set_level_for b s index lvl =
     (if s = Buy then b\<lparr>ob_bids := ls_set_level (ob_bids b) index lvl\<rparr>
      else b\<lparr>ob_asks := ls_set_level (ob_asks b) index lvl\<rparr>)"

definition note_nonempty_for :: "'m order_book \<Rightarrow> side \<Rightarrow> nat \<Rightarrow> 'm order_book" where
  "note_nonempty_for b s index =
     (if s = Buy then b\<lparr>ob_bids := note_nonempty (ob_bids b) index\<rparr>
      else b\<lparr>ob_asks := note_nonempty (ob_asks b) index\<rparr>)"

definition note_maybe_empty_for :: "'m order_book \<Rightarrow> side \<Rightarrow> nat \<Rightarrow> 'm order_book" where
  "note_maybe_empty_for b s index =
     (if s = Buy then b\<lparr>ob_bids := note_maybe_empty (ob_bids b) index\<rparr>
      else b\<lparr>ob_asks := note_maybe_empty (ob_asks b) index\<rparr>)"

subsection \<open>Operations that change the book\<close>

definition book_add :: "'m index_ops \<Rightarrow> 'm order_book \<Rightarrow> order \<Rightarrow> (add_error + order_id) \<times> 'm order_book" where
  "book_add H b ord =
     (if o_type ord \<noteq> Limit then (Inl MarketOrderCannotRest, b)
      else if sint (o_remaining ord) \<le> 0 then (Inl InvalidQuantity, b)
      else case index_of b (o_price ord) of
        None \<Rightarrow> (Inl PriceOutOfRange, b)
      | Some index \<Rightarrow>
          if hm_find H (ob_order_index b) (o_id ord) \<noteq> None then (Inl DuplicateOrderId, b)
          else (case allocate default_node (ob_pool b) of
            (None, pool1) \<Rightarrow> (Inl PoolExhausted, b\<lparr>ob_pool := pool1\<rparr>)
          | (Some node, pool1) \<Rightarrow>
              let h1 = (sp_storage pool1)[node := (sp_storage pool1 ! node)
                          \<lparr>n_order := ord, n_level_index := index\<rparr>];
                  lvl = level_for b (o_side ord) index;
                  was_empty = level_empty lvl;
                  (h2, lvl2) = level_push_back h1 lvl node;
                  b2 = set_level_for (b\<lparr>ob_pool := pool1\<lparr>sp_storage := h2\<rparr>\<rparr>) (o_side ord) index lvl2;
                  b3 = (if was_empty then note_nonempty_for b2 (o_side ord) index else b2)
              in (Inr (o_id ord),
                  b3\<lparr>ob_order_index := hm_emplace H (ob_order_index b3) (o_id ord) node,
                     ob_order_count := ob_order_count b3 + 1\<rparr>)))"

definition unlink_and_free :: "'m order_book \<Rightarrow> nat \<Rightarrow> 'm order_book" where
  "unlink_and_free b node =
     (let index = n_level_index (nodes b ! node);
          s = o_side (n_order (nodes b ! node));
          (h1, lvl1) = level_unlink (nodes b) (level_for b s index) node;
          b1 = set_level_for (set_nodes h1 b) s index lvl1;
          b2 = note_maybe_empty_for b1 (o_side (n_order (nodes b1 ! node))) index
      in b2\<lparr>ob_pool := deallocate node (ob_pool b2)\<rparr>)"

definition book_cancel :: "'m index_ops \<Rightarrow> 'm order_book \<Rightarrow> order_id \<Rightarrow> (cancel_error + unit) \<times> 'm order_book" where
  "book_cancel H b oid =
     (case hm_find H (ob_order_index b) oid of
        None \<Rightarrow> (Inl CancelNotFound, b)
      | Some node \<Rightarrow>
          let b1 = unlink_and_free b node
          in (Inr (), b1\<lparr>ob_order_index := hm_erase H (ob_order_index b1) oid,
                        ob_order_count := ob_order_count b1 - 1\<rparr>))"

definition sub_remaining :: "order_node \<Rightarrow> quantity \<Rightarrow> order_node" where
  "sub_remaining nd q = nd\<lparr>n_order := (n_order nd)\<lparr>o_remaining := o_remaining (n_order nd) - q\<rparr>\<rparr>"

definition reduce_quantity ::
    "'m index_ops \<Rightarrow> 'm order_book \<Rightarrow> order_id \<Rightarrow> quantity \<Rightarrow> (reduce_error + unit) \<times> 'm order_book" where
  "reduce_quantity H b oid fill_amount =
     (case hm_find H (ob_order_index b) oid of
        None \<Rightarrow> (Inl ReduceNotFound, b)
      | Some node \<Rightarrow>
          if sint fill_amount \<le> 0 \<or> sint fill_amount > sint (node_remaining (nodes b) node)
          then (Inl InvalidFillAmount, b)
          else
            let index = n_level_index (nodes b ! node);
                s = o_side (n_order (nodes b ! node));
                lvl = level_for b s index;
                fully_filled = (sint fill_amount = sint (node_remaining (nodes b) node))
            in if fully_filled then
                 let (h1, lvl1) = level_unlink (nodes b) lvl node;
                     h2 = h1[node := sub_remaining (h1 ! node) fill_amount];
                     b1 = set_level_for (set_nodes h2 b) s index lvl1;
                     b2 = note_maybe_empty_for b1 s index
                 in (Inr (), b2\<lparr>ob_order_index := hm_erase H (ob_order_index b2) oid,
                               ob_pool := deallocate node (ob_pool b2),
                               ob_order_count := ob_order_count b2 - 1\<rparr>)
               else
                 let h1 = (nodes b)[node := sub_remaining (nodes b ! node) fill_amount]
                 in (Inr (), set_level_for (set_nodes h1 b) s index
                       (lvl\<lparr>pl_total_quantity := pl_total_quantity lvl - fill_amount\<rparr>)))"

definition book_replace ::
    "'m index_ops \<Rightarrow> 'm order_book \<Rightarrow> order_id \<Rightarrow> price \<Rightarrow> quantity \<Rightarrow> seq_no \<Rightarrow> nanos \<Rightarrow>
       (replace_error + unit) \<times> 'm order_book" where
  "book_replace H b oid new_price new_quantity new_sequence new_timestamp =
     (case hm_find H (ob_order_index b) oid of
        None \<Rightarrow> (Inl ReplaceNotFound, b)
      | Some node \<Rightarrow>
          if sint new_quantity \<le> 0 then (Inl ReplaceInvalidQuantity, b)
          else if index_of b new_price = None then (Inl ReplacePriceOutOfRange, b)
          else
            let updated = (n_order (nodes b ! node))\<lparr>o_price := new_price, o_quantity := new_quantity,
                   o_remaining := new_quantity, o_sequence := new_sequence, o_timestamp := new_timestamp\<rparr>;
                b1 = unlink_and_free b node;
                b2 = b1\<lparr>ob_order_index := hm_erase H (ob_order_index b1) oid,
                        ob_order_count := ob_order_count b1 - 1\<rparr>
            in (case book_add H b2 updated of
                  (Inl _, b3) \<Rightarrow> (Inl ReplacePoolExhausted, b3)
                | (Inr _, b3) \<Rightarrow> (Inr (), b3)))"

subsection \<open>Queries\<close>

definition best_price :: "'m order_book \<Rightarrow> ladder_side \<Rightarrow> price option" where
  "best_price b s = (case ls_best_index s of Some i \<Rightarrow> Some (price_at b i) | None \<Rightarrow> None)"

definition best_bid :: "'m order_book \<Rightarrow> price option" where
  "best_bid b = best_price b (ob_bids b)"

definition best_ask :: "'m order_book \<Rightarrow> price option" where
  "best_ask b = best_price b (ob_asks b)"

definition level_at :: "'m order_book \<Rightarrow> side \<Rightarrow> price \<Rightarrow> price_level option" where
  "level_at b s p = (case index_of b p of None \<Rightarrow> None | Some i \<Rightarrow> Some (level_for b s i))"

definition front_at :: "'m order_book \<Rightarrow> side \<Rightarrow> price \<Rightarrow> ptr" where
  "front_at b s p = (case index_of b p of None \<Rightarrow> None | Some i \<Rightarrow> pl_head (level_for b s i))"

definition book_find :: "'m index_ops \<Rightarrow> 'm order_book \<Rightarrow> order_id \<Rightarrow> ptr" where
  "book_find H b oid = hm_find H (ob_order_index b) oid"

text \<open>
  \<open>for_each_level\<close> calls a visitor on the occupied levels from best to worst until it returns
  false; the visitor's captured variables are the state \<open>st\<close>.
\<close>

definition side_best_index :: "'m order_book \<Rightarrow> side \<Rightarrow> nat option" where
  "side_best_index b s = (if s = Buy then ls_best_index (ob_bids b) else ls_best_index (ob_asks b))"

definition side_next_after :: "'m order_book \<Rightarrow> side \<Rightarrow> nat \<Rightarrow> nat option" where
  "side_next_after b s i = (if s = Buy then next_after (ob_bids b) i else next_after (ob_asks b) i)"

function visit_levels ::
    "'m order_book \<Rightarrow> side \<Rightarrow> (price \<Rightarrow> price_level \<Rightarrow> 's \<Rightarrow> bool \<times> 's) \<Rightarrow> nat option \<Rightarrow> 's \<Rightarrow> 's" where
  "visit_levels b s visit None st = st"
| "visit_levels b s visit (Some i) st =
     (case visit (price_at b i) (level_for b s i) st of
        (go_on, st') \<Rightarrow> if \<not> go_on then st' else visit_levels b s visit (side_next_after b s i) st')"
  by pat_completeness auto
termination
proof (relation "measure (\<lambda>(b, s, visit, idx, st). case idx of None \<Rightarrow> 0 | Some i \<Rightarrow>
    (let l = (if s = Buy then ob_bids b else ob_asks b)
     in if ls_is_bid l then Suc i else Suc (bm_num_bits (ls_occupied l) - i)))", goal_cases)
  case (2 b s visit i st go_on st')
  have "case next_after l i of None \<Rightarrow> True | Some j \<Rightarrow>
      (if ls_is_bid l then j < i
       else bm_num_bits (ls_occupied l) - j < bm_num_bits (ls_occupied l) - i)" for l
    using find_highest_Some(2) [of "ls_occupied l" "i - 1"] find_lowest_progress [of "ls_occupied l" "i + 1"]
    by (fastforce simp: next_after_def split: option.splits)
  from this [of "if s = Buy then ob_bids b else ob_asks b"] show ?case
    by (auto simp: side_next_after_def Let_def split: option.splits if_splits)
qed simp

definition for_each_level ::
    "'m order_book \<Rightarrow> side \<Rightarrow> (price \<Rightarrow> price_level \<Rightarrow> 's \<Rightarrow> bool \<times> 's) \<Rightarrow> 's \<Rightarrow> 's" where
  "for_each_level b s visit st = visit_levels b s visit (side_best_index b s) st"

end
