(* ===== verification/Order_Book_Inv.thy ===== *)
theory Order_Book_Inv
  imports Order_Book
begin

text \<open>
  The invariant of the order book and the refinement of its operations to the abstract view
  \<open>book_orders\<close> (side and price index to the resting orders, oldest first).

  \<open>book_rep H b q fl\<close> relates a book to the node sequence \<open>q\<close> of every level and the free
  list \<open>fl\<close> of its pool; both are functions of the book, so \<open>book_inv\<close> needs no ghost state.
\<close>

named_theorems book_frame \<open>components of the book an update leaves alone\<close>

subsection \<open>Components of a book\<close>

definition side_ladder :: "'m order_book \<Rightarrow> side \<Rightarrow> ladder_side" where
  "side_ladder b s = (if s = Buy then ob_bids b else ob_asks b)"

lemma level_for_ladder: "level_for b s i = ls_level (side_ladder b s) i"
  by (simp add: level_for_def side_ladder_def)

lemma side_ladder_updates [book_frame]:
  "side_ladder (set_level_for b s i lvl) t =
     (if t = s then ls_set_level (side_ladder b s) i lvl else side_ladder b t)"
  "side_ladder (note_nonempty_for b s i) t =
     (if t = s then note_nonempty (side_ladder b s) i else side_ladder b t)"
  "side_ladder (note_maybe_empty_for b s i) t =
     (if t = s then note_maybe_empty (side_ladder b s) i else side_ladder b t)"
  "side_ladder (b\<lparr>ob_pool := p\<rparr>) t = side_ladder b t"
  "side_ladder (b\<lparr>ob_order_index := m\<rparr>) t = side_ladder b t"
  "side_ladder (b\<lparr>ob_order_count := n\<rparr>) t = side_ladder b t"
  by (cases s; cases t; simp add: side_ladder_def set_level_for_def note_nonempty_for_def
      note_maybe_empty_for_def)+

lemma book_field_updates [book_frame]:
  "ob_pool (set_level_for b s i lvl) = ob_pool b"
  "ob_pool (note_nonempty_for b s i) = ob_pool b"
  "ob_pool (note_maybe_empty_for b s i) = ob_pool b"
  "ob_order_index (set_level_for b s i lvl) = ob_order_index b"
  "ob_order_index (note_nonempty_for b s i) = ob_order_index b"
  "ob_order_index (note_maybe_empty_for b s i) = ob_order_index b"
  "ob_order_count (set_level_for b s i lvl) = ob_order_count b"
  "ob_order_count (note_nonempty_for b s i) = ob_order_count b"
  "ob_order_count (note_maybe_empty_for b s i) = ob_order_count b"
  by (simp_all add: set_level_for_def note_nonempty_for_def note_maybe_empty_for_def)

text \<open>The template parameters and constructor arguments, which no operation writes.\<close>

definition same_config :: "'m order_book \<Rightarrow> 'm order_book \<Rightarrow> bool" where
  "same_config b b' \<longleftrightarrow> ob_num_levels b' = ob_num_levels b \<and> ob_max_orders b' = ob_max_orders b \<and>
     ob_base_price b' = ob_base_price b \<and> ob_symbol b' = ob_symbol b"

lemma same_config_refl [simp]: "same_config b b"
  by (simp add: same_config_def)

lemma same_config_trans: "same_config b b1 \<Longrightarrow> same_config b1 b2 \<Longrightarrow> same_config b b2"
  by (simp add: same_config_def)

lemma same_config_updates [book_frame]:
  "same_config b (set_level_for b' s i lvl) = same_config b b'"
  "same_config b (note_nonempty_for b' s i) = same_config b b'"
  "same_config b (note_maybe_empty_for b' s i) = same_config b b'"
  "same_config b (b'\<lparr>ob_pool := p\<rparr>) = same_config b b'"
  "same_config b (b'\<lparr>ob_order_index := m\<rparr>) = same_config b b'"
  "same_config b (b'\<lparr>ob_order_count := n\<rparr>) = same_config b b'"
  by (simp_all add: same_config_def set_level_for_def note_nonempty_for_def note_maybe_empty_for_def)

lemma same_config_price_at: "same_config b b' \<Longrightarrow> price_at b' i = price_at b i"
  by (simp add: same_config_def price_at_def)

lemma same_config_index_of: "same_config b b' \<Longrightarrow> index_of b' p = index_of b p"
  by (simp add: same_config_def index_of_def)

subsection \<open>Prices and indices\<close>

text \<open>Every price of the ladder is a 64-bit price: the last one does not overflow.\<close>

definition ladder_config :: "'m order_book \<Rightarrow> bool" where
  "ladder_config b \<longleftrightarrow> ob_num_levels b \<le> 2 ^ 63 \<and> sint (ob_base_price b) + int (ob_num_levels b) \<le> 2 ^ 63"

lemma index_of_Some:
  assumes "index_of b p = Some i"
  shows "i < ob_num_levels b" "price_at b i = p"
  using assms by (auto simp: index_of_def Let_def price_at_def split: if_splits)

lemma sint_price_at:
  assumes "ladder_config b" "i < ob_num_levels b"
  shows "sint (price_at b i) = sint (ob_base_price b) + int i"
proof -
  have i: "sint (of_nat i :: i64) = int i"
    using assms by (intro sint_of_nat_i64) (simp add: ladder_config_def)
  show ?thesis
    unfolding price_at_def
    using assms sint_i64_bounds(1) [of "ob_base_price b"]
    by (subst sint_plus_i64) (auto simp: i ladder_config_def)
qed

lemma index_of_price_at:
  assumes "ladder_config b" "i < ob_num_levels b"
  shows "index_of b (price_at b i) = Some i"
proof -
  have lt: "i < 2 ^ 63" using assms by (simp add: ladder_config_def)
  then have "unat (of_nat i :: i64) = i" "sint (of_nat i :: i64) = int i"
    by (simp_all add: unat_of_nat sint_of_nat_i64)
  with assms(2) show ?thesis by (simp add: index_of_def price_at_def)
qed

lemma price_at_inject:
  "ladder_config b \<Longrightarrow> i < ob_num_levels b \<Longrightarrow> j < ob_num_levels b \<Longrightarrow>
     price_at b i = price_at b j \<longleftrightarrow> i = j"
  using index_of_price_at by (metis option.inject)

subsection \<open>The representation invariant\<close>

definition node_ok :: "'m order_book \<Rightarrow> side \<Rightarrow> nat \<Rightarrow> nat \<Rightarrow> bool" where
  "node_ok b s i p \<longleftrightarrow> n_level_index (nodes b ! p) = i \<and> o_side (n_order (nodes b ! p)) = s \<and>
     o_type (n_order (nodes b ! p)) = Limit \<and> 0 < sint (node_remaining (nodes b) p) \<and>
     o_price (n_order (nodes b ! p)) = price_at b i"

definition side_rep :: "'m order_book \<Rightarrow> side \<Rightarrow> (nat \<Rightarrow> nat list) \<Rightarrow> bool" where
  "side_rep b s qs \<longleftrightarrow> ls_is_bid (side_ladder b s) = (s = Buy) \<and>
     length (ls_levels (side_ladder b s)) = ob_num_levels b \<and> ladder_inv (side_ladder b s) \<and>
     ls_occ (side_ladder b s) = {i. qs i \<noteq> []} \<and>
     (\<forall>i < ob_num_levels b. level_rep (nodes b) (level_for b s i) (qs i))"

definition index_rep :: "'m index_ops \<Rightarrow> 'm order_book \<Rightarrow> (side \<Rightarrow> nat \<Rightarrow> nat list) \<Rightarrow> bool" where
  "index_rep H b q \<longleftrightarrow> (\<forall>oid p. hm_find H (ob_order_index b) oid = Some p \<longleftrightarrow>
     (\<exists>s i. p \<in> set (q s i)) \<and> o_id (n_order (nodes b ! p)) = oid)"

definition book_rep :: "'m index_ops \<Rightarrow> 'm order_book \<Rightarrow> (side \<Rightarrow> nat \<Rightarrow> nat list) \<Rightarrow> nat list \<Rightarrow> bool" where
  "book_rep H b q fl \<longleftrightarrow>
     ladder_config b \<and> pool_rep (ob_max_orders b) (ob_pool b) fl \<and>
     ob_order_count b = sp_live_count (ob_pool b) \<and>
     (\<forall>s. side_rep b s (q s)) \<and>
     (\<forall>s i p. p \<in> set (q s i) \<longrightarrow> i < ob_num_levels b \<and> p \<notin> set fl \<and> node_ok b s i p) \<and>
     (\<forall>p < ob_max_orders b. p \<notin> set fl \<longrightarrow> (\<exists>s i. p \<in> set (q s i))) \<and>
     index_rep H b q"

definition book_queue :: "'m order_book \<Rightarrow> side \<Rightarrow> nat \<Rightarrow> nat list" where
  "book_queue b s i = (if i < ob_num_levels b then level_nodes (nodes b) (level_for b s i) else [])"

definition book_inv :: "'m index_ops \<Rightarrow> 'm order_book \<Rightarrow> bool" where
  "book_inv H b \<longleftrightarrow> book_rep H b (book_queue b) (free_slots (ob_pool b))"

text \<open>The abstract view: the resting orders of a level, oldest first.\<close>

definition book_orders :: "'m order_book \<Rightarrow> side \<Rightarrow> nat \<Rightarrow> order list" where
  "book_orders b s i = map (\<lambda>p. n_order (nodes b ! p)) (book_queue b s i)"

lemma book_repD:
  assumes "book_rep H b q fl"
  shows "ladder_config b" "pool_rep (ob_max_orders b) (ob_pool b) fl"
    "ob_order_count b = sp_live_count (ob_pool b)" "side_rep b s (q s)"
    "p \<in> set (q s i) \<Longrightarrow> i < ob_num_levels b" "p \<in> set (q s i) \<Longrightarrow> p \<notin> set fl"
    "p \<in> set (q s i) \<Longrightarrow> node_ok b s i p" "index_rep H b q"
    "p < ob_max_orders b \<Longrightarrow> p \<notin> set fl \<Longrightarrow> \<exists>s i. p \<in> set (q s i)"
    "i < ob_num_levels b \<Longrightarrow> level_rep (nodes b) (level_for b s i) (q s i)"
  using assms unfolding book_rep_def side_rep_def by blast+

lemma book_rep_heap:
  assumes "book_rep H b q fl"
  shows "length (nodes b) = ob_max_orders b" "length (nodes b) < 2 ^ 32"
  using book_repD(2) [OF assms] by (simp_all add: pool_rep_def kNone_def)

lemma book_rep_slot:
  assumes "book_rep H b q fl" "p \<in> set (q s i)"
  shows "p < ob_max_orders b"
proof -
  have "dseg (nodes b) None (pl_head (level_for b s i)) (q s i) (pl_tail (level_for b s i)) None"
    using book_repD(10) [OF assms(1) book_repD(5) [OF assms]] by (simp add: level_rep_def)
  from dseg_bound [OF this assms(2)] book_rep_heap(1) [OF assms(1)] show ?thesis by simp
qed

text \<open>A node is queued on one level only.\<close>

lemma book_rep_disjoint:
  assumes "book_rep H b q fl" "p \<in> set (q s i)" "p \<in> set (q t j)"
  shows "t = s \<and> j = i"
  using book_repD(7) [OF assms(1,2)] book_repD(7) [OF assms(1,3)] by (auto simp: node_ok_def)

lemma book_rep_queue:
  assumes "book_rep H b q fl"
  shows "book_queue b = q" "free_slots (ob_pool b) = fl"
proof -
  have "book_queue b s i = q s i" for s i
  proof (cases "i < ob_num_levels b")
    case True
    then show ?thesis using level_rep_nodes [OF book_repD(10) [OF assms True]] by (simp add: book_queue_def)
  next
    case False
    then have "p \<notin> set (q s i)" for p using book_repD(5) [OF assms, of p s i] by blast
    from this [of "hd (q s i)"] have "q s i = []" by (cases "q s i") auto
    with False show ?thesis by (simp add: book_queue_def)
  qed
  then show "book_queue b = q" by blast
  show "free_slots (ob_pool b) = fl" by (rule pool_rep_free_slots [OF book_repD(2) [OF assms]])
qed

lemma book_repI: "book_rep H b q fl \<Longrightarrow> book_inv H b"
  using book_rep_queue by (fastforce simp: book_inv_def)

lemma book_inv_rep: "book_inv H b \<Longrightarrow> book_rep H b (book_queue b) (free_slots (ob_pool b))"
  by (simp add: book_inv_def)

lemma book_rep_orders: "book_rep H b q fl \<Longrightarrow> book_orders b s i = map (\<lambda>p. n_order (nodes b ! p)) (q s i)"
  using book_rep_queue(1) by (fastforce simp: book_orders_def)

lemma index_repD:
  assumes "book_rep H b q fl" "hm_find H (ob_order_index b) oid = Some p"
  obtains s i where "p \<in> set (q s i)" "o_id (n_order (nodes b ! p)) = oid"
    "o_side (n_order (nodes b ! p)) = s" "n_level_index (nodes b ! p) = i"
  using book_repD(8) [OF assms(1)] assms(2) book_repD(7) [OF assms(1)]
  unfolding index_rep_def node_ok_def by blast

text \<open>The changes of one operation, confined to one level.\<close>

lemma book_rep_update:
  assumes rep: "book_rep H b q fl" and cfg: "same_config b b'" and i: "i < ob_num_levels b"
    and pool: "pool_rep (ob_max_orders b) (ob_pool b') fl'"
      "ob_order_count b' = sp_live_count (ob_pool b')"
    and other: "\<And>t. t \<noteq> s \<Longrightarrow> side_ladder b' t = side_ladder b t"
    and ladder: "ls_is_bid (side_ladder b' s) = ls_is_bid (side_ladder b s)"
      "length (ls_levels (side_ladder b' s)) = length (ls_levels (side_ladder b s))"
      "ladder_inv (side_ladder b' s)"
      "ls_occ (side_ladder b' s) = (if ps = [] then ls_occ (side_ladder b s) - {i} else insert i (ls_occ (side_ladder b s)))"
      "\<And>j. j \<noteq> i \<Longrightarrow> ls_level (side_ladder b' s) j = ls_level (side_ladder b s) j"
    and level: "level_rep (nodes b') (ls_level (side_ladder b' s) i) ps"
    and here: "\<And>p. p \<in> set ps \<Longrightarrow> p \<notin> set fl' \<and> node_ok b' s i p"
    and frame: "length (nodes b') = length (nodes b)"
      "\<And>t j p. p \<in> set (q t j) \<Longrightarrow> t \<noteq> s \<or> j \<noteq> i \<Longrightarrow> nodes b' ! p = nodes b ! p \<and> p \<notin> set fl'"
    and slots: "\<And>p. p < ob_max_orders b \<Longrightarrow> p \<notin> set fl' \<Longrightarrow> p \<in> set ps \<or> p \<notin> set fl \<and> p \<notin> set (q s i)"
    and index: "index_rep H b' (q(s := (q s)(i := ps)))"
  shows "book_rep H b' (q(s := (q s)(i := ps))) fl'"
proof -
  let ?q = "q(s := (q s)(i := ps))"
  have N: "ob_num_levels b' = ob_num_levels b" "ob_max_orders b' = ob_max_orders b"
    and cfg': "ladder_config b'"
    using cfg book_repD(1) [OF rep] by (simp_all add: same_config_def ladder_config_def)
  have side: "side_rep b' t (?q t)" for t
  proof -
    have lvl: "level_rep (nodes b') (level_for b' t j) (?q t j)" if "j < ob_num_levels b" for j
    proof (cases "t = s \<and> j = i")
      case True
      with level show ?thesis by (simp add: level_for_ladder)
    next
      case False
      then have "level_for b' t j = level_for b t j"
        using other ladder(5) by (cases "t = s") (auto simp: level_for_ladder)
      moreover have "level_rep (nodes b') (level_for b t j) (q t j)"
        using level_rep_frame [OF book_repD(10) [OF rep that] frame(1)] frame(2) False by blast
      ultimately show ?thesis using False by auto
    qed
    have "side_rep b t (q t)" by (rule book_repD(4) [OF rep])
    with lvl N other ladder show ?thesis
      by (cases "t = s") (auto simp: side_rep_def)
  qed
  have node: "j < ob_num_levels b \<and> p \<notin> set fl' \<and> node_ok b' t j p" if "p \<in> set (?q t j)" for t j p
  proof (cases "t = s \<and> j = i")
    case True
    with that here i show ?thesis by simp
  next
    case False
    with that have p: "p \<in> set (q t j)" by (auto split: if_splits)
    with False frame(2) [OF p] book_repD(5,7) [OF rep p] show ?thesis
      by (auto simp: node_ok_def same_config_price_at [OF cfg])
  qed
  have "\<exists>t j. p \<in> set (?q t j)" if "p < ob_max_orders b" "p \<notin> set fl'" for p
  proof (cases "p \<in> set ps")
    case True
    then have "p \<in> set (?q s i)" by simp
    then show ?thesis by blast
  next
    case False
    with slots [OF that] that obtain t j where "p \<in> set (q t j)" "p \<notin> set (q s i)"
      using book_repD(9) [OF rep] by blast
    then have "p \<in> set (?q t j)" by auto
    then show ?thesis by blast
  qed
  with cfg' N pool side node index show ?thesis unfolding book_rep_def by simp
qed

subsection \<open>Construction\<close>

lemma book_rep_init:
  assumes H: "hash_map_spec H" and M: "0 < m" "m \<le> kNone"
    and cfg: "n \<le> 2 ^ 63" "sint base + int n \<le> 2 ^ 63"
  shows "book_rep H (order_book_init H n m symbol base) (\<lambda>_ _. []) [0..<m]"
proof -
  let ?b = "order_book_init H n m symbol base"
  have "side_ladder ?b s = ladder_init (s = Buy) n" for s
    by (cases s) (simp_all add: side_ladder_def order_book_init_def)
  moreover have "level_rep (nodes ?b) (ls_level (ladder_init bid n) i) []" if "i < n" for bid i
    using that level_rep_default by (simp add: ls_level_def ladder_init_def)
  moreover have "ls_is_bid (ladder_init bid n) = bid" "length (ls_levels (ladder_init bid n)) = n" for bid
    by (simp_all add: ladder_init_def)
  ultimately have "side_rep ?b s (\<lambda>_. [])" for s
    using ladder_init_inv by (simp add: side_rep_def level_for_ladder) (simp add: order_book_init_def)
  moreover have "index_rep H ?b (\<lambda>_ _. [])"
    using hash_map_specD(1) [OF H] by (simp add: index_rep_def order_book_init_def)
  moreover have "ladder_config ?b" using cfg by (simp add: ladder_config_def order_book_init_def)
  ultimately show ?thesis
    using pool_rep_init [OF M, of default_node]
    by (simp add: book_rep_def) (simp add: order_book_init_def slab_pool_init_def)
qed

subsection \<open>Adding an order\<close>

lemma pool_rep_storage:
  "length h = length (sp_storage p) \<Longrightarrow> pool_rep c (p\<lparr>sp_storage := h\<rparr>) fl = pool_rep c p fl"
  by (auto simp: pool_rep_def)

lemma book_rep_tail:
  assumes "book_rep H b q fl" "i < ob_num_levels b" "pl_tail (level_for b s i) = Some r"
  shows "r \<in> set (q s i)"
proof -
  have "dseg (nodes b) None (pl_head (level_for b s i)) (q s i) (pl_tail (level_for b s i)) None"
    using book_repD(10) [OF assms(1,2)] by (simp add: level_rep_def)
  from dseg_lst [OF this] assms(3) show ?thesis by (auto split: if_splits)
qed

lemma book_rep_level_empty:
  assumes "book_rep H b q fl" "i < ob_num_levels b"
  shows "level_empty (level_for b s i) \<longleftrightarrow> q s i = []"
  using level_rep_empty [OF book_repD(10) [OF assms] book_rep_heap(2) [OF assms(1)]] .

lemma book_rep_occ:
  assumes "book_rep H b q fl"
  shows "ls_occ (side_ladder b s) = {i. q s i \<noteq> []}" "ladder_inv (side_ladder b s)"
    "length (ls_levels (side_ladder b s)) = ob_num_levels b" "ls_is_bid (side_ladder b s) = (s = Buy)"
  using book_repD(4) [OF assms, of s] by (simp_all add: side_rep_def)

lemma book_add_Inr:
  assumes H: "hash_map_spec H" and rep: "book_rep H b q (p # fl)"
    and ok: "o_type ord = Limit" "0 < sint (o_remaining ord)" "index_of b (o_price ord) = Some i"
      "hm_find H (ob_order_index b) (o_id ord) = None"
  defines "s \<equiv> o_side ord"
  shows "fst (book_add H b ord) = Inr (o_id ord)"
    and "book_rep H (snd (book_add H b ord)) (q(s := (q s)(i := q s i @ [p]))) fl"
    and "n_order (nodes (snd (book_add H b ord)) ! r) = (if r = p then ord else n_order (nodes b ! r))"
    and "same_config b (snd (book_add H b ord))"
proof -
  let ?lvl = "level_for b s i"
  note i = index_of_Some [OF ok(3)]
  have pool: "pool_rep (ob_max_orders b) (ob_pool b) (p # fl)" by (rule book_repD(2) [OF rep])
  then have p: "p < ob_max_orders b" "p \<notin> set fl" "p < length (nodes b)"
    by (auto simp: pool_rep_def)
  have pq: "p \<notin> set (q t j)" for t j using book_repD(6) [OF rep, of p t j] by auto
  define pool1 where "pool1 = snd (allocate default_node (ob_pool b))"
  define h1 where "h1 = (sp_storage pool1)[p := (sp_storage pool1 ! p)\<lparr>n_order := ord, n_level_index := i\<rparr>]"
  obtain h2 lvl2 where push: "level_push_back h1 ?lvl p = (h2, lvl2)" by (cases "level_push_back h1 ?lvl p")
  define b2 where "b2 = set_level_for (b\<lparr>ob_pool := pool1\<lparr>sp_storage := h2\<rparr>\<rparr>) s i lvl2"
  define b3 where "b3 = (if level_empty ?lvl then note_nonempty_for b2 s i else b2)"
  define b' where "b' = b3\<lparr>ob_order_index := hm_emplace H (ob_order_index b3) (o_id ord) p,
     ob_order_count := ob_order_count b3 + 1\<rparr>"
  note alloc = allocate_Some [OF pool, of default_node]
  have add: "book_add H b ord = (Inr (o_id ord), b')"
    using ok alloc(1) push
    by (simp add: book_add_def b'_def b3_def b2_def h1_def pool1_def s_def Let_def)
  have pool1: "pool_rep (ob_max_orders b) pool1 fl" "sp_live_count pool1 = sp_live_count (ob_pool b) + 1"
    using alloc by (simp_all add: pool1_def)
  have h1: "length h1 = length (nodes b)" "h1 ! r = (if r = p then (default_node\<lparr>n_order := ord, n_level_index := i\<rparr>) else nodes b ! r)" for r
    using p alloc(1) by (auto simp: h1_def pool1_def nth_update_if)
  have len: "length h2 = length (nodes b)"
    using same_ordersD(1) [OF level_push_back_frame(1) [OF push]] h1(1) by simp
  have b': "ob_pool b' = pool1\<lparr>sp_storage := h2\<rparr>" "nodes b' = h2"
    "ob_order_count b' = ob_order_count b + 1" "same_config b b'"
    "ob_order_index b' = hm_emplace H (ob_order_index b) (o_id ord) p"
    by (simp_all add: b'_def b3_def b2_def book_frame)
  have lad: "side_ladder b' t = (if t \<noteq> s then side_ladder b t
      else if level_empty ?lvl then note_nonempty (ls_set_level (side_ladder b s) i lvl2) i
      else ls_set_level (side_ladder b s) i lvl2)" for t
    by (simp add: b'_def b3_def b2_def book_frame)
  have orders: "n_order (nodes b' ! r) = (if r = p then ord else n_order (nodes b ! r))"
    "n_level_index (nodes b' ! r) = (if r = p then i else n_level_index (nodes b ! r))" for r
    using same_ordersD(2,3) [OF level_push_back_frame(1) [OF push], of r] h1(2) by (simp_all add: b')
  have other: "nodes b' ! r = nodes b ! r" if "r \<in> set (q t j)" "t \<noteq> s \<or> j \<noteq> i" for t j r
  proof -
    have "r \<noteq> p" using that(1) pq by blast
    moreover have "pl_tail ?lvl \<noteq> Some r"
      using book_rep_tail [OF rep i(1), of s r] book_rep_disjoint [OF rep that(1)] that(2) by blast
    ultimately show ?thesis using level_push_back_frame(2) [OF push, of r] h1(2) by (simp add: b')
  qed
  have level: "level_rep h2 lvl2 (q s i @ [p])"
  proof (rule level_push_back_rep [OF _ _ pq push])
    show "level_rep h1 ?lvl (q s i)"
      using pq h1 by (intro level_rep_frame [OF book_repD(10) [OF rep i(1)]]) auto
    show "p < length h1" using p h1 by simp
  qed
  note occ = book_rep_occ [OF rep]
  have "book_rep H b' (q(s := (q s)(i := q s i @ [p]))) fl"
  proof (rule book_rep_update [OF rep b'(4) i(1)])
    show "pool_rep (ob_max_orders b) (ob_pool b') fl"
      using pool1 len alloc(1) by (simp add: b' pool_rep_storage pool1_def)
    show "ob_order_count b' = sp_live_count (ob_pool b')"
      using pool1(2) book_repD(3) [OF rep] by (simp add: b')
    show "level_rep (nodes b') (ls_level (side_ladder b' s) i) (q s i @ [p])"
      using level i(1) occ(3) by (simp add: lad b' ls_level_set)
    show "ladder_inv (side_ladder b' s)"
      using note_nonempty_inv(1) [of "ls_set_level (side_ladder b s) i lvl2" i] occ i(1) by (simp add: lad)
    show "ls_occ (side_ladder b' s) = (if q s i @ [p] = [] then ls_occ (side_ladder b s) - {i}
        else insert i (ls_occ (side_ladder b s)))"
      using note_nonempty_inv(2) [of "ls_set_level (side_ladder b s) i lvl2" i] occ i(1)
        book_rep_level_empty [OF rep i(1), of s] by (auto simp: lad)
    show "r \<notin> set fl \<and> node_ok b' s i r" if "r \<in> set (q s i @ [p])" for r
      using that p(2) book_repD(6,7) [OF rep, of r s i] ok i(2) same_config_price_at [OF b'(4)]
      by (auto simp: node_ok_def orders s_def)
    show "nodes b' ! r = nodes b ! r \<and> r \<notin> set fl" if "r \<in> set (q t j)" "t \<noteq> s \<or> j \<noteq> i" for t j r
      using other [OF that] book_repD(6) [OF rep that(1)] by simp
    show "index_rep H b' (q(s := (q s)(i := q s i @ [p])))"
      unfolding index_rep_def
    proof (intro allI)
      fix oid r
      have mem: "(\<exists>t j. r \<in> set ((q(s := (q s)(i := q s i @ [p]))) t j)) \<longleftrightarrow> r = p \<or> (\<exists>t j. r \<in> set (q t j))"
        by (auto split: if_splits)
      have old: "hm_find H (ob_order_index b) oid = Some r \<longleftrightarrow> (\<exists>t j. r \<in> set (q t j)) \<and> o_id (n_order (nodes b ! r)) = oid" for oid
        using book_repD(8) [OF rep] by (simp add: index_rep_def)
      show "hm_find H (ob_order_index b') oid = Some r \<longleftrightarrow>
          (\<exists>t j. r \<in> set ((q(s := (q s)(i := q s i @ [p]))) t j)) \<and> o_id (n_order (nodes b' ! r)) = oid"
        unfolding mem b'(5) orders hash_map_specD(2) [OF H]
        using old [of oid] old [of "o_id ord"] pq ok(4)
        by (cases "r = p"; cases "oid = o_id ord") simp_all
    qed
  qed (use lad occ len in \<open>auto simp: b' ls_level_set split: if_splits\<close>)
  then show "fst (book_add H b ord) = Inr (o_id ord)"
    and "book_rep H (snd (book_add H b ord)) (q(s := (q s)(i := q s i @ [p]))) fl"
    and "n_order (nodes (snd (book_add H b ord)) ! r) = (if r = p then ord else n_order (nodes b ! r))"
    and "same_config b (snd (book_add H b ord))"
    using orders(1) b'(4) by (simp_all add: add)
qed

subsection \<open>Removing an order\<close>

lemma dseg_neighbours:
  assumes "dseg h None first (xs @ p # ys) lst None"
  shows "n_prev (h ! p) = Some r \<Longrightarrow> r \<in> set xs" "n_next (h ! p) = Some r \<Longrightarrow> r \<in> set ys"
proof -
  from assms obtain l where *: "dseg h None first xs l (Some p)" "n_prev (h ! p) = l"
    "dseg h (Some p) (n_next (h ! p)) ys lst None" by (auto simp: dseg_append)
  show "n_prev (h ! p) = Some r \<Longrightarrow> r \<in> set xs" "n_next (h ! p) = Some r \<Longrightarrow> r \<in> set ys"
    using dseg_lst [OF *(1)] *(2) dseg_first [OF *(3)] by (auto split: if_splits)
qed

lemma book_rep_remove:
  assumes H: "hash_map_spec H" and rep: "book_rep H b q fl" and q: "q s i = xs @ p # ys"
    and unlink: "level_unlink (nodes b) (level_for b s i) p = (h1, lvl1)"
    and h2: "length h2 = length h1" "\<And>r. r \<noteq> p \<Longrightarrow> h2 ! r = h1 ! r"
    and b': "ob_pool b' = deallocate p ((ob_pool b)\<lparr>sp_storage := h2\<rparr>)"
      "ob_order_count b' = ob_order_count b - 1"
      "ob_order_index b' = hm_erase H (ob_order_index b) (o_id (n_order (nodes b ! p)))"
      "same_config b b'"
    and lad: "\<And>t. side_ladder b' t = (if t \<noteq> s then side_ladder b t
        else note_maybe_empty (ls_set_level (side_ladder b s) i lvl1) i)"
  shows "book_rep H b' (q(s := (q s)(i := xs @ ys))) (p # fl)"
    and "r \<noteq> p \<Longrightarrow> n_order (nodes b' ! r) = n_order (nodes b ! r)"
proof -
  have pin: "p \<in> set (q s i)" using q by simp
  note i = book_repD(5) [OF rep pin] and pfl = book_repD(6) [OF rep pin] and slot = book_rep_slot [OF rep pin]
  have lrep: "level_rep (nodes b) (level_for b s i) (xs @ p # ys)"
    using book_repD(10) [OF rep i, of s] q by simp
  then have seg: "dseg (nodes b) None (pl_head (level_for b s i)) (xs @ p # ys) (pl_tail (level_for b s i)) None"
    and dist: "p \<notin> set (xs @ ys)" by (auto simp: level_rep_def)
  have nodes: "nodes b' = h2" by (simp add: b' deallocate_def)
  note same = level_unlink_frame(1) [OF unlink]
  have len: "length h2 = length (nodes b)" using h2(1) same_ordersD(1) [OF same] by simp
  have orders: "n_order (nodes b' ! r) = n_order (nodes b ! r)"
    "n_level_index (nodes b' ! r) = n_level_index (nodes b ! r)" if "r \<noteq> p" for r
    using same_ordersD(2,3) [OF same, of r] h2(2) [OF that] by (simp_all add: nodes)
  have other: "nodes b' ! r = nodes b ! r" if "r \<in> set (q t j)" "t \<noteq> s \<or> j \<noteq> i" for t j r
  proof -
    have "r \<notin> set (q s i)" using book_rep_disjoint [OF rep that(1)] that(2) by blast
    then have "r \<noteq> p" "n_prev (nodes b ! p) \<noteq> Some r" "n_next (nodes b ! p) \<noteq> Some r"
      using dseg_neighbours [OF seg] q by auto
    then show ?thesis using level_unlink_frame(2) [OF unlink, of r] h2(2) by (simp add: nodes)
  qed
  have level: "level_rep h2 lvl1 (xs @ ys)"
  proof (rule level_rep_frame [OF level_unlink_rep [OF lrep unlink] h2(1)])
    show "h2 ! r = h1 ! r" if "r \<in> set (xs @ ys)" for r using that dist by (intro h2(2)) auto
  qed
  note occ = book_rep_occ [OF rep]
  have e: "level_empty lvl1 \<longleftrightarrow> xs @ ys = []"
    using level_rep_empty [OF level] len book_rep_heap(2) [OF rep] by simp
  have set': "r \<in> set (xs @ ys) \<longleftrightarrow> r \<in> set (q s i) \<and> r \<noteq> p" for r using q dist by auto
  show "book_rep H b' (q(s := (q s)(i := xs @ ys))) (p # fl)"
  proof (rule book_rep_update [OF rep b'(4) i])
    show "pool_rep (ob_max_orders b) (ob_pool b') (p # fl)"
      unfolding b' by (rule deallocate_rep) (use book_repD(2) [OF rep] len slot pfl in \<open>simp_all add: pool_rep_storage\<close>)
    show "ob_order_count b' = sp_live_count (ob_pool b')"
      using book_repD(3) [OF rep] by (simp add: b' deallocate_def)
    show "level_rep (nodes b') (ls_level (side_ladder b' s) i) (xs @ ys)"
      using level i occ(3) by (simp add: lad nodes ls_level_set)
    show "ladder_inv (side_ladder b' s)"
      using note_maybe_empty_inv(1) [of "ls_set_level (side_ladder b s) i lvl1" i] occ i by (simp add: lad)
    show "ls_occ (side_ladder b' s) = (if xs @ ys = [] then ls_occ (side_ladder b s) - {i}
        else insert i (ls_occ (side_ladder b s)))"
      using note_maybe_empty_inv(2) [of "ls_set_level (side_ladder b s) i lvl1" i] occ i e q
      by (auto simp: lad ls_level_set)
    show "r \<notin> set (p # fl) \<and> node_ok b' s i r" if "r \<in> set (xs @ ys)" for r
      using that set' [of r] book_repD(6,7) [OF rep, of r s i] same_config_price_at [OF b'(4)]
      by (simp add: node_ok_def orders)
    show "nodes b' ! r = nodes b ! r \<and> r \<notin> set (p # fl)" if "r \<in> set (q t j)" "t \<noteq> s \<or> j \<noteq> i" for t j r
      using other [OF that] book_repD(6) [OF rep that(1)] book_rep_disjoint [OF rep that(1)] that(2) pin
      by auto
    show "index_rep H b' (q(s := (q s)(i := xs @ ys)))"
      unfolding index_rep_def
    proof (intro allI)
      fix oid r
      have "(\<exists>t j. r \<in> set ((q(s := (q s)(i := xs @ ys))) t j)) \<longleftrightarrow>
          r \<in> set (xs @ ys) \<or> (\<exists>t j. (t \<noteq> s \<or> j \<noteq> i) \<and> r \<in> set (q t j))"
        by (auto split: if_splits)
      then have mem: "(\<exists>t j. r \<in> set ((q(s := (q s)(i := xs @ ys))) t j)) \<longleftrightarrow> r \<noteq> p \<and> (\<exists>t j. r \<in> set (q t j))"
        using set' [of r] book_rep_disjoint [OF rep pin] by (cases "r = p") (simp, metis+)
      have old: "hm_find H (ob_order_index b) oid = Some r' \<longleftrightarrow> (\<exists>t j. r' \<in> set (q t j)) \<and> o_id (n_order (nodes b ! r')) = oid" for oid r'
        using book_repD(8) [OF rep] by (simp add: index_rep_def)
      have "hm_find H (ob_order_index b) (o_id (n_order (nodes b ! p))) = Some p" using old pin by blast
      then show "hm_find H (ob_order_index b') oid = Some r \<longleftrightarrow>
          (\<exists>t j. r \<in> set ((q(s := (q s)(i := xs @ ys))) t j)) \<and> o_id (n_order (nodes b' ! r)) = oid"
        unfolding mem b'(3) hash_map_specD(3) [OF H]
        using old [of oid r] old [of "o_id (n_order (nodes b ! p))" r] orders(1) [of r]
        by (cases "r = p"; cases "oid = o_id (n_order (nodes b ! p))") simp_all
    qed
  qed (use lad occ len set' in \<open>auto simp: nodes ls_level_set split: if_splits\<close>)
  show "r \<noteq> p \<Longrightarrow> n_order (nodes b' ! r) = n_order (nodes b ! r)" by (rule orders(1))
qed

text \<open>The lookup in the order index, split at the node it finds.\<close>

lemma book_rep_find:
  assumes "book_rep H b q fl" "hm_find H (ob_order_index b) oid = Some p"
  obtains s i xs ys where "q s i = xs @ p # ys" "o_id (n_order (nodes b ! p)) = oid"
    "o_side (n_order (nodes b ! p)) = s" "n_level_index (nodes b ! p) = i" "i < ob_num_levels b"
    "p \<notin> set xs" "p \<notin> set ys"
proof -
  obtain s i where p: "p \<in> set (q s i)" "o_id (n_order (nodes b ! p)) = oid"
    "o_side (n_order (nodes b ! p)) = s" "n_level_index (nodes b ! p) = i"
    using index_repD [OF assms] by blast
  have i: "i < ob_num_levels b" by (rule book_repD(5) [OF assms(1) p(1)])
  then have "distinct (q s i)" using book_repD(10) [OF assms(1), of i s] by (simp add: level_rep_def)
  with p(1) obtain xs ys where "q s i = xs @ p # ys" "p \<notin> set xs" "p \<notin> set ys"
    by (rule split_list_distinct)
  with that p i show thesis by blast
qed

lemma book_cancel_Inr:
  assumes H: "hash_map_spec H" and rep: "book_rep H b q fl"
    and found: "hm_find H (ob_order_index b) oid = Some p"
    and at: "q s i = xs @ p # ys" "o_side (n_order (nodes b ! p)) = s" "n_level_index (nodes b ! p) = i"
      "o_id (n_order (nodes b ! p)) = oid"
  shows "fst (book_cancel H b oid) = Inr ()"
    and "book_rep H (snd (book_cancel H b oid)) (q(s := (q s)(i := xs @ ys))) (p # fl)"
    and "r \<noteq> p \<Longrightarrow> n_order (nodes (snd (book_cancel H b oid)) ! r) = n_order (nodes b ! r)"
    and "same_config b (snd (book_cancel H b oid))"
proof -
  obtain h1 lvl1 where unlink: "level_unlink (nodes b) (level_for b s i) p = (h1, lvl1)"
    by (cases "level_unlink (nodes b) (level_for b s i) p")
  have side: "o_side (n_order (h1 ! p)) = s"
    using same_ordersD(2) [OF level_unlink_frame(1) [OF unlink]] at(2) by simp
  let ?b' = "snd (book_cancel H b oid)"
  have b': "ob_pool ?b' = deallocate p ((ob_pool b)\<lparr>sp_storage := h1\<rparr>)"
    "ob_order_count ?b' = ob_order_count b - 1"
    "ob_order_index ?b' = hm_erase H (ob_order_index b) (o_id (n_order (nodes b ! p)))"
    and cfg: "same_config b ?b'"
    and lad: "\<And>t. side_ladder ?b' t = (if t \<noteq> s then side_ladder b t
        else note_maybe_empty (ls_set_level (side_ladder b s) i lvl1) i)"
    using found at unlink side
    by (simp_all add: book_cancel_def unlink_and_free_def Let_def book_frame)
  show "fst (book_cancel H b oid) = Inr ()" using found by (simp add: book_cancel_def Let_def)
  show "same_config b ?b'" by (rule cfg)
  show "book_rep H ?b' (q(s := (q s)(i := xs @ ys))) (p # fl)"
    "r \<noteq> p \<Longrightarrow> n_order (nodes ?b' ! r) = n_order (nodes b ! r)"
    using book_rep_remove [OF H rep at(1) unlink refl refl b' cfg lad] by blast+
qed

lemma reduce_full_Inr:
  assumes H: "hash_map_spec H" and rep: "book_rep H b q fl"
    and found: "hm_find H (ob_order_index b) oid = Some p"
    and at: "q s i = xs @ p # ys" "o_side (n_order (nodes b ! p)) = s" "n_level_index (nodes b ! p) = i"
      "o_id (n_order (nodes b ! p)) = oid"
    and full: "f = node_remaining (nodes b) p"
  shows "fst (reduce_quantity H b oid f) = Inr ()"
    and "book_rep H (snd (reduce_quantity H b oid f)) (q(s := (q s)(i := xs @ ys))) (p # fl)"
    and "r \<noteq> p \<Longrightarrow> n_order (nodes (snd (reduce_quantity H b oid f)) ! r) = n_order (nodes b ! r)"
    and "same_config b (snd (reduce_quantity H b oid f))"
proof -
  have pos: "0 < sint f" using book_repD(7) [OF rep, of p s i] at(1) full by (simp add: node_ok_def)
  obtain h1 lvl1 where unlink: "level_unlink (nodes b) (level_for b s i) p = (h1, lvl1)"
    by (cases "level_unlink (nodes b) (level_for b s i) p")
  let ?b' = "snd (reduce_quantity H b oid f)" and ?h2 = "h1[p := sub_remaining (h1 ! p) f]"
  have b': "ob_pool ?b' = deallocate p ((ob_pool b)\<lparr>sp_storage := ?h2\<rparr>)"
    "ob_order_count ?b' = ob_order_count b - 1"
    "ob_order_index ?b' = hm_erase H (ob_order_index b) (o_id (n_order (nodes b ! p)))"
    and cfg: "same_config b ?b'"
    and lad: "\<And>t. side_ladder ?b' t = (if t \<noteq> s then side_ladder b t
        else note_maybe_empty (ls_set_level (side_ladder b s) i lvl1) i)"
    using found at unlink pos full
    by (simp_all add: reduce_quantity_def Let_def book_frame)
  show "fst (reduce_quantity H b oid f) = Inr ()"
    using found at unlink pos full by (simp add: reduce_quantity_def Let_def)
  show "same_config b ?b'" by (rule cfg)
  show "book_rep H ?b' (q(s := (q s)(i := xs @ ys))) (p # fl)"
    "r \<noteq> p \<Longrightarrow> n_order (nodes ?b' ! r) = n_order (nodes b ! r)"
    using book_rep_remove [OF H rep at(1) unlink _ _ b' cfg lad] by (simp_all add: nth_update_if)
qed

lemma reduce_partial_Inr:
  assumes rep: "book_rep H b q fl"
    and found: "hm_find H (ob_order_index b) oid = Some p"
    and at: "q s i = xs @ p # ys" "o_side (n_order (nodes b ! p)) = s" "n_level_index (nodes b ! p) = i"
    and part: "0 < sint f" "sint f < sint (node_remaining (nodes b) p)"
  defines "b' \<equiv> snd (reduce_quantity H b oid f)"
  shows "fst (reduce_quantity H b oid f) = Inr ()"
    and "book_rep H b' q fl"
    and "n_order (nodes b' ! r) = (if r = p
      then (n_order (nodes b ! p))\<lparr>o_remaining := node_remaining (nodes b) p - f\<rparr> else n_order (nodes b ! r))"
    and "same_config b b'"
proof -
  let ?lvl = "level_for b s i" and ?h = "(nodes b)[p := sub_remaining (nodes b ! p) f]"
  have pin: "p \<in> set (q s i)" using at by simp
  note i = book_repD(5) [OF rep pin] and occ = book_rep_occ [OF rep]
  have p: "p < length (nodes b)" using book_rep_slot [OF rep pin] book_rep_heap(1) [OF rep] by simp
  have red: "reduce_quantity H b oid f =
      (Inr (), set_level_for (set_nodes ?h b) s i (?lvl\<lparr>pl_total_quantity := pl_total_quantity ?lvl - f\<rparr>))"
    using found at part by (simp add: reduce_quantity_def Let_def)
  then show "fst (reduce_quantity H b oid f) = Inr ()" by simp
  have b': "ob_pool b' = (ob_pool b)\<lparr>sp_storage := ?h\<rparr>" "ob_order_count b' = ob_order_count b"
    "ob_order_index b' = ob_order_index b" and cfg: "same_config b b'"
    and lad: "\<And>t. side_ladder b' t = (if t \<noteq> s then side_ladder b t
        else ls_set_level (side_ladder b s) i (?lvl\<lparr>pl_total_quantity := pl_total_quantity ?lvl - f\<rparr>))"
    unfolding b'_def by (simp_all add: red book_frame)
  show "same_config b b'" by (rule cfg)
  have orders: "n_order (nodes b' ! r) = (if r = p
      then (n_order (nodes b ! p))\<lparr>o_remaining := node_remaining (nodes b) p - f\<rparr> else n_order (nodes b ! r))"
    "n_level_index (nodes b' ! r) = n_level_index (nodes b ! r)" for r
    using p by (simp_all add: b' nth_update_if sub_remaining_def)
  show "n_order (nodes b' ! r) = (if r = p
      then (n_order (nodes b ! p))\<lparr>o_remaining := node_remaining (nodes b) p - f\<rparr> else n_order (nodes b ! r))"
    by (rule orders(1))
  have ids: "o_id (n_order (nodes b' ! r)) = o_id (n_order (nodes b ! r))" for r by (simp add: orders)
  have "book_rep H b' (q(s := (q s)(i := q s i))) fl"
  proof (rule book_rep_update [OF rep cfg i])
    show "pool_rep (ob_max_orders b) (ob_pool b') fl"
      using book_repD(2) [OF rep] by (simp add: b' pool_rep_storage)
    show "ob_order_count b' = sp_live_count (ob_pool b')" using book_repD(3) [OF rep] by (simp add: b')
    show "level_rep (nodes b') (ls_level (side_ladder b' s) i) (q s i)"
      using level_rep_reduce [of "nodes b" ?lvl xs p ys f] book_repD(10) [OF rep i, of s] at(1) i occ(3)
      by (simp add: lad b' ls_level_set sub_remaining_def)
    show "ls_occ (side_ladder b' s) = (if q s i = [] then ls_occ (side_ladder b s) - {i}
        else insert i (ls_occ (side_ladder b s)))" using occ at(1) by (auto simp: lad)
    show "r \<notin> set fl \<and> node_ok b' s i r" if "r \<in> set (q s i)" for r
      using book_repD(6,7) [OF rep that] part same_config_price_at [OF cfg]
      by (auto simp: node_ok_def orders sint_minus_i64)
    show "nodes b' ! r = nodes b ! r \<and> r \<notin> set fl" if "r \<in> set (q t j)" "t \<noteq> s \<or> j \<noteq> i" for t j r
      using book_repD(6) [OF rep that(1)] book_rep_disjoint [OF rep that(1)] that(2) pin
      by (auto simp: b' nth_update_if)
    show "index_rep H b' (q(s := (q s)(i := q s i)))"
      using book_repD(8) [OF rep] by (simp add: index_rep_def b'(3) ids)
  qed (use lad occ book_repD(9) [OF rep] in \<open>auto simp: b' ls_level_set\<close>)
  then show "book_rep H b' q fl" by simp
qed

subsection \<open>Refinement to the abstract view\<close>

type_synonym abook = "side \<Rightarrow> nat \<Rightarrow> order list"

definition spec_add :: "order \<Rightarrow> nat \<Rightarrow> abook \<Rightarrow> abook" where
  "spec_add ord i v = v(o_side ord := (v (o_side ord))(i := v (o_side ord) i @ [ord]))"

definition spec_remove :: "order_id \<Rightarrow> abook \<Rightarrow> abook" where
  "spec_remove oid v = (\<lambda>s i. filter (\<lambda>ord. o_id ord \<noteq> oid) (v s i))"

definition spec_fill :: "order_id \<Rightarrow> quantity \<Rightarrow> abook \<Rightarrow> abook" where
  "spec_fill oid f v = (\<lambda>s i. map (\<lambda>ord. if o_id ord = oid
     then ord\<lparr>o_remaining := o_remaining ord - f\<rparr> else ord) (v s i))"

definition resting_ids :: "abook \<Rightarrow> order_id set" where
  "resting_ids v = {o_id ord | ord s i. ord \<in> set (v s i)}"

lemma book_rep_id_unique:
  assumes rep: "book_rep H b q fl" and p: "p \<in> set (q s i)" and r: "r \<in> set (q t j)"
    and same: "o_id (n_order (nodes b ! p)) = o_id (n_order (nodes b ! r))"
  shows "p = r"
proof -
  have "hm_find H (ob_order_index b) (o_id (n_order (nodes b ! p))) = Some p"
    using book_repD(8) [OF rep] p unfolding index_rep_def by blast
  moreover have "hm_find H (ob_order_index b) (o_id (n_order (nodes b ! p))) = Some r"
    using book_repD(8) [OF rep] r same unfolding index_rep_def by auto
  ultimately show ?thesis by simp
qed

lemma book_rep_resting_ids:
  assumes "book_rep H b q fl"
  shows "oid \<in> resting_ids (book_orders b) \<longleftrightarrow> hm_find H (ob_order_index b) oid \<noteq> None"
proof
  assume "oid \<in> resting_ids (book_orders b)"
  then obtain p s i where "p \<in> set (q s i)" "o_id (n_order (nodes b ! p)) = oid"
    by (auto simp: resting_ids_def book_rep_orders [OF assms])
  then show "hm_find H (ob_order_index b) oid \<noteq> None"
    using book_repD(8) [OF assms] unfolding index_rep_def by (metis option.distinct(1))
next
  assume "hm_find H (ob_order_index b) oid \<noteq> None"
  then obtain p where "hm_find H (ob_order_index b) oid = Some p" by blast
  then obtain s i where "p \<in> set (q s i)" and oid: "o_id (n_order (nodes b ! p)) = oid"
    using index_repD [OF assms] by blast
  then have "n_order (nodes b ! p) \<in> set (book_orders b s i)"
    by (simp add: book_rep_orders [OF assms])
  with oid show "oid \<in> resting_ids (book_orders b)" unfolding resting_ids_def by blast
qed

lemma spec_add_eq:
  assumes rep: "book_rep H b q (p # fl)" and rep': "book_rep H b' (q(s := (q s)(i := q s i @ [p]))) fl"
    and ord: "\<And>r. n_order (nodes b' ! r) = (if r = p then ord else n_order (nodes b ! r))"
    and s: "s = o_side ord"
  shows "book_orders b' = spec_add ord i (book_orders b)"
proof (intro ext)
  fix t j
  have pq: "p \<notin> set (q t j)" for t j using book_repD(6) [OF rep, of p t j] by auto
  have "map (\<lambda>r. n_order (nodes b' ! r)) (q t j) = map (\<lambda>r. n_order (nodes b ! r)) (q t j)" for t j
    using pq [of t j] by (auto simp: ord)
  then show "book_orders b' t j = spec_add ord i (book_orders b) t j"
    by (simp add: book_rep_orders [OF rep] book_rep_orders [OF rep'] spec_add_def s ord)
qed

lemma spec_remove_eq:
  assumes rep: "book_rep H b q fl" and rep': "book_rep H b' (q(s := (q s)(i := xs @ ys))) fl'"
    and ord: "\<And>r. r \<noteq> p \<Longrightarrow> n_order (nodes b' ! r) = n_order (nodes b ! r)"
    and at: "q s i = xs @ p # ys" "p \<notin> set xs" "p \<notin> set ys" "o_id (n_order (nodes b ! p)) = oid"
  shows "book_orders b' = spec_remove oid (book_orders b)"
proof (intro ext)
  fix t j
  have pin: "p \<in> set (q s i)" using at by simp
  have "filter (\<lambda>r. o_id (n_order (nodes b ! r)) \<noteq> oid) (q t j) = filter (\<lambda>r. r \<noteq> p) (q t j)"
    using book_rep_id_unique [OF rep pin, of _ t j] at(4) by (intro filter_cong refl) metis
  then have "spec_remove oid (book_orders b) t j = map (\<lambda>r. n_order (nodes b ! r)) (filter (\<lambda>r. r \<noteq> p) (q t j))"
    by (simp only: spec_remove_def book_rep_orders [OF rep] filter_map comp_def)
  also have "\<dots> = map (\<lambda>r. n_order (nodes b' ! r)) (filter (\<lambda>r. r \<noteq> p) (q t j))"
    by (rule map_cong [OF refl]) (simp add: ord)
  also have "filter (\<lambda>r. r \<noteq> p) (q t j) = (q(s := (q s)(i := xs @ ys))) t j"
  proof (cases "t = s \<and> j = i")
    case True
    with at show ?thesis by (simp add: filter_neq_split filter_neq_id)
  next
    case False
    then have "p \<notin> set (q t j)" using book_rep_disjoint [OF rep pin, of t j] by blast
    moreover from False have "(q(s := (q s)(i := xs @ ys))) t j = q t j" by auto
    ultimately show ?thesis using filter_neq_id by metis
  qed
  finally show "book_orders b' t j = spec_remove oid (book_orders b) t j"
    by (simp only: book_rep_orders [OF rep'])
qed

lemma spec_fill_eq:
  assumes rep: "book_rep H b q fl" and rep': "book_rep H b' q fl'" and p: "p \<in> set (q s i)"
    and ord: "\<And>r. n_order (nodes b' ! r) = (if r = p
      then (n_order (nodes b ! p))\<lparr>o_remaining := node_remaining (nodes b) p - f\<rparr> else n_order (nodes b ! r))"
    and oid: "o_id (n_order (nodes b ! p)) = oid"
  shows "book_orders b' = spec_fill oid f (book_orders b)"
proof (intro ext)
  fix t j
  have "n_order (nodes b' ! r) = (if o_id (n_order (nodes b ! r)) = oid
      then (n_order (nodes b ! r))\<lparr>o_remaining := node_remaining (nodes b) r - f\<rparr> else n_order (nodes b ! r))"
    if "r \<in> set (q t j)" for r
    using book_rep_id_unique [OF rep p that] oid ord [of r] by metis
  then show "book_orders b' t j = spec_fill oid f (book_orders b) t j"
    unfolding book_rep_orders [OF rep] book_rep_orders [OF rep'] spec_fill_def map_map comp_def
    by (intro map_cong refl) blast
qed

end
