(* ===== verification/Order_Book_Spec.thy ===== *)
theory Order_Book_Spec
  imports Order_Book_Inv
begin

text \<open>
  The contracts of the order book's operations over the abstract view, and the properties of
  the book.  Every result, errors included, is a function of the abstract view.
\<close>

definition add_outcome :: "'m order_book \<Rightarrow> order \<Rightarrow> add_error + order_id" where
  "add_outcome b ord =
     (if o_type ord \<noteq> Limit then Inl MarketOrderCannotRest
      else if sint (o_remaining ord) \<le> 0 then Inl InvalidQuantity
      else if index_of b (o_price ord) = None then Inl PriceOutOfRange
      else if o_id ord \<in> resting_ids (book_orders b) then Inl DuplicateOrderId
      else if ob_order_count b = ob_max_orders b then Inl PoolExhausted
      else Inr (o_id ord))"

lemma book_rep_full: "book_rep H b q fl \<Longrightarrow> ob_order_count b = ob_max_orders b \<longleftrightarrow> fl = []"
  using book_repD(2,3) by (fastforce simp: pool_rep_def)

lemma book_add_full:
  assumes "book_rep H b q []" "o_type ord = Limit" "0 < sint (o_remaining ord)"
    "index_of b (o_price ord) = Some i" "hm_find H (ob_order_index b) (o_id ord) = None"
  shows "book_add H b ord = (Inl PoolExhausted, b)"
proof -
  have "allocate default_node (ob_pool b) = (None, ob_pool b)"
    using book_repD(2) [OF assms(1)] by (simp add: pool_rep_def allocate_def)
  with assms show ?thesis by (simp add: book_add_def)
qed

lemma book_add_spec:
  assumes H: "hash_map_spec H" and inv: "book_inv H b"
  shows "fst (book_add H b ord) = add_outcome b ord"
    and "book_inv H (snd (book_add H b ord))"
    and "add_outcome b ord = Inl e \<Longrightarrow> snd (book_add H b ord) = b"
    and "add_outcome b ord = Inr oid \<Longrightarrow> index_of b (o_price ord) = Some i \<Longrightarrow>
      book_orders (snd (book_add H b ord)) = spec_add ord i (book_orders b)"
    and "same_config b (snd (book_add H b ord))"
proof -
  let ?q = "book_queue b" and ?fl = "free_slots (ob_pool b)"
  have rep: "book_rep H b ?q ?fl" using inv by (rule book_inv_rep)
  note ids = book_rep_resting_ids [OF rep] and full = book_rep_full [OF rep]
  consider (bad) e' where "book_add H b ord = (Inl e', b)" "add_outcome b ord = Inl e'"
    | (ok) p fl' i' where "?fl = p # fl'" "o_type ord = Limit" "0 < sint (o_remaining ord)"
        "index_of b (o_price ord) = Some i'" "hm_find H (ob_order_index b) (o_id ord) = None"
        "add_outcome b ord = Inr (o_id ord)"
  proof (cases "o_type ord = Limit \<and> 0 < sint (o_remaining ord) \<and> index_of b (o_price ord) \<noteq> None \<and>
      hm_find H (ob_order_index b) (o_id ord) = None")
    case False
    then have "\<exists>e'. book_add H b ord = (Inl e', b) \<and> add_outcome b ord = Inl e'"
      using ids [of "o_id ord"] by (auto simp: book_add_def add_outcome_def)
    with that(1) show ?thesis by blast
  next
    case True
    then obtain i' where i': "index_of b (o_price ord) = Some i'" by blast
    show ?thesis
    proof (cases ?fl)
      case Nil
      with True i' rep have "book_add H b ord = (Inl PoolExhausted, b)" by (auto intro: book_add_full)
      with True ids [of "o_id ord"] full Nil that(1) show ?thesis by (simp add: add_outcome_def)
    next
      case (Cons p fl')
      with True ids [of "o_id ord"] full i' that(2) show ?thesis by (simp add: add_outcome_def)
    qed
  qed
  note branch = this
  have "fst (book_add H b ord) = add_outcome b ord \<and> book_inv H (snd (book_add H b ord)) \<and>
    (\<forall>e. add_outcome b ord = Inl e \<longrightarrow> snd (book_add H b ord) = b) \<and>
    (\<forall>oid i. add_outcome b ord = Inr oid \<longrightarrow> index_of b (o_price ord) = Some i \<longrightarrow>
      book_orders (snd (book_add H b ord)) = spec_add ord i (book_orders b)) \<and>
    same_config b (snd (book_add H b ord))"
  proof (rule branch, goal_cases)
    case (1 e')
    then show ?case using inv by simp
  next
    case (2 p fl' i')
    have rep1: "book_rep H b ?q (p # fl')" using rep 2(1) by simp
    note added = book_add_Inr [OF H rep1 2(2-5)]
    have "book_orders (snd (book_add H b ord)) = spec_add ord i' (book_orders b)"
      by (rule spec_add_eq [OF rep1 added(2,3) refl])
    then show ?case using added(1,4) book_repI [OF added(2)] 2(4,6) by simp
  qed
  then show "fst (book_add H b ord) = add_outcome b ord"
    and "book_inv H (snd (book_add H b ord))"
    and "add_outcome b ord = Inl e \<Longrightarrow> snd (book_add H b ord) = b"
    and "add_outcome b ord = Inr oid \<Longrightarrow> index_of b (o_price ord) = Some i \<Longrightarrow>
      book_orders (snd (book_add H b ord)) = spec_add ord i (book_orders b)"
    and "same_config b (snd (book_add H b ord))" by blast+
qed

lemma book_cancel_spec:
  assumes H: "hash_map_spec H" and inv: "book_inv H b"
  shows "fst (book_cancel H b oid) = (if oid \<in> resting_ids (book_orders b) then Inr () else Inl CancelNotFound)"
    and "book_inv H (snd (book_cancel H b oid))"
    and "book_orders (snd (book_cancel H b oid)) = spec_remove oid (book_orders b)"
    and "same_config b (snd (book_cancel H b oid))"
proof -
  have rep: "book_rep H b (book_queue b) (free_slots (ob_pool b))" using inv by (rule book_inv_rep)
  note ids = book_rep_resting_ids [OF rep, of oid]
  have "fst (book_cancel H b oid) = (if oid \<in> resting_ids (book_orders b) then Inr () else Inl CancelNotFound) \<and>
    book_inv H (snd (book_cancel H b oid)) \<and>
    book_orders (snd (book_cancel H b oid)) = spec_remove oid (book_orders b) \<and>
    same_config b (snd (book_cancel H b oid))"
  proof (cases "hm_find H (ob_order_index b) oid")
    case None
    then have "spec_remove oid (book_orders b) = book_orders b"
      using ids unfolding spec_remove_def resting_ids_def by (intro ext filter_True) blast
    with None ids inv show ?thesis by (simp add: book_cancel_def)
  next
    case (Some p)
    obtain s i xs ys where at: "book_queue b s i = xs @ p # ys" "o_id (n_order (nodes b ! p)) = oid"
      "o_side (n_order (nodes b ! p)) = s" "n_level_index (nodes b ! p) = i" "i < ob_num_levels b"
      "p \<notin> set xs" "p \<notin> set ys"
      by (rule book_rep_find [OF rep Some])
    note c = book_cancel_Inr [OF H rep Some at(1,3,4,2)]
    show ?thesis
      using c(1,4) book_repI [OF c(2)] spec_remove_eq [OF rep c(2,3) at(1,6,7,2)] ids Some by simp
  qed
  then show "fst (book_cancel H b oid) = (if oid \<in> resting_ids (book_orders b) then Inr () else Inl CancelNotFound)"
    "book_inv H (snd (book_cancel H b oid))"
    "book_orders (snd (book_cancel H b oid)) = spec_remove oid (book_orders b)"
    "same_config b (snd (book_cancel H b oid))" by blast+
qed

text \<open>The order resting under an identifier.\<close>

lemma book_find_spec:
  assumes inv: "book_inv H b" and found: "book_find H b oid = Some p"
  obtains s i where "n_order (nodes b ! p) \<in> set (book_orders b s i)" "o_id (n_order (nodes b ! p)) = oid"
proof -
  have rep: "book_rep H b (book_queue b) (free_slots (ob_pool b))" using inv by (rule book_inv_rep)
  obtain s i where "p \<in> set (book_queue b s i)" "o_id (n_order (nodes b ! p)) = oid"
    using index_repD [OF rep found [unfolded book_find_def]] by blast
  then show thesis using that [of s i] by (simp add: book_orders_def)
qed

lemma book_find_None:
  assumes inv: "book_inv H b"
  shows "book_find H b oid = None \<longleftrightarrow> oid \<notin> resting_ids (book_orders b)"
  using book_rep_resting_ids [OF book_inv_rep [OF inv], of oid] by (auto simp: book_find_def)

text \<open>What the invariant says of the resting orders.\<close>

lemma book_orders_ok:
  assumes inv: "book_inv H b" and ord: "ord \<in> set (book_orders b s i)"
  shows "i < ob_num_levels b" "o_side ord = s" "o_type ord = Limit" "0 < sint (o_remaining ord)"
    "o_price ord = price_at b i"
proof -
  have rep: "book_rep H b (book_queue b) (free_slots (ob_pool b))" using inv by (rule book_inv_rep)
  from ord obtain p where p: "p \<in> set (book_queue b s i)" "ord = n_order (nodes b ! p)"
    by (auto simp: book_orders_def)
  show "i < ob_num_levels b" "o_side ord = s" "o_type ord = Limit" "0 < sint (o_remaining ord)"
    "o_price ord = price_at b i"
    using book_repD(5,7) [OF rep p(1)] p(2) by (simp_all add: node_ok_def)
qed

lemma book_orders_unique:
  assumes inv: "book_inv H b" and "x \<in> set (book_orders b s i)" "y \<in> set (book_orders b t j)" "o_id x = o_id y"
  shows "x = y" "s = t" "i = j"
proof -
  have rep: "book_rep H b (book_queue b) (free_slots (ob_pool b))" using inv by (rule book_inv_rep)
  from assms obtain p r where p: "p \<in> set (book_queue b s i)" "x = n_order (nodes b ! p)"
    and r: "r \<in> set (book_queue b t j)" "y = n_order (nodes b ! r)" by (auto simp: book_orders_def)
  then have "p = r" using book_rep_id_unique [OF rep p(1) r(1)] assms(4) by simp
  then show "x = y" "s = t" "i = j" using p r book_rep_disjoint [OF rep p(1)] by auto
qed

lemma book_orders_distinct_ids:
  assumes inv: "book_inv H b"
  shows "distinct (map o_id (book_orders b s i))"
proof -
  have rep: "book_rep H b (book_queue b) (free_slots (ob_pool b))" using inv by (rule book_inv_rep)
  have "distinct (book_queue b s i)"
  proof (cases "i < ob_num_levels b")
    case True
    then show ?thesis using book_repD(10) [OF rep True, of s] by (simp add: level_rep_def)
  qed (simp add: book_queue_def)
  moreover have "inj_on (\<lambda>p. o_id (n_order (nodes b ! p))) (set (book_queue b s i))"
    using book_rep_id_unique [OF rep] by (auto simp: inj_on_def)
  ultimately show ?thesis by (simp add: book_orders_def distinct_map comp_def)
qed

lemma book_orders_find:
  assumes rep: "book_rep H b q fl" and "ord \<in> set (book_orders b s i)"
  obtains p xs ys where "hm_find H (ob_order_index b) (o_id ord) = Some p" "n_order (nodes b ! p) = ord"
    "q s i = xs @ p # ys" "p \<notin> set xs" "p \<notin> set ys" "o_side ord = s" "n_level_index (nodes b ! p) = i"
proof -
  from assms obtain p where p: "p \<in> set (q s i)" "n_order (nodes b ! p) = ord"
    by (auto simp: book_rep_orders [OF rep])
  then have found: "hm_find H (ob_order_index b) (o_id ord) = Some p"
    using book_repD(8) [OF rep] unfolding index_rep_def by blast
  obtain t j xs ys where at: "q t j = xs @ p # ys" "o_id (n_order (nodes b ! p)) = o_id ord"
    "o_side (n_order (nodes b ! p)) = t" "n_level_index (nodes b ! p) = j" "j < ob_num_levels b"
    "p \<notin> set xs" "p \<notin> set ys" by (rule book_rep_find [OF rep found])
  have "t = s \<and> j = i" by (rule book_rep_disjoint [OF rep p(1)]) (simp add: at(1))
  with that [OF found p(2), of xs ys] at p(2) show thesis by simp
qed

lemma reduce_quantity_spec:
  assumes H: "hash_map_spec H" and inv: "book_inv H b" and ord: "ord \<in> set (book_orders b s i)"
  shows "sint f \<le> 0 \<or> sint (o_remaining ord) < sint f \<Longrightarrow>
      reduce_quantity H b (o_id ord) f = (Inl InvalidFillAmount, b)"
    and "0 < sint f \<and> sint f \<le> sint (o_remaining ord) \<Longrightarrow>
      fst (reduce_quantity H b (o_id ord) f) = Inr () \<and> book_inv H (snd (reduce_quantity H b (o_id ord) f)) \<and>
      same_config b (snd (reduce_quantity H b (o_id ord) f)) \<and>
      book_orders (snd (reduce_quantity H b (o_id ord) f)) =
        (if f = o_remaining ord then spec_remove (o_id ord) (book_orders b)
         else spec_fill (o_id ord) f (book_orders b))"
proof -
  let ?b' = "snd (reduce_quantity H b (o_id ord) f)"
  have rep: "book_rep H b (book_queue b) (free_slots (ob_pool b))" using inv by (rule book_inv_rep)
  obtain p xs ys where p: "hm_find H (ob_order_index b) (o_id ord) = Some p" "n_order (nodes b ! p) = ord"
    "book_queue b s i = xs @ p # ys" "p \<notin> set xs" "p \<notin> set ys" "o_side ord = s" "n_level_index (nodes b ! p) = i"
    by (rule book_orders_find [OF rep ord])
  show "reduce_quantity H b (o_id ord) f = (Inl InvalidFillAmount, b)"
    if "sint f \<le> 0 \<or> sint (o_remaining ord) < sint f"
    using that p(1,2) by (simp add: reduce_quantity_def)
  assume f: "0 < sint f \<and> sint f \<le> sint (o_remaining ord)"
  have at: "o_side (n_order (nodes b ! p)) = s" "o_id (n_order (nodes b ! p)) = o_id ord" using p by simp_all
  show "fst (reduce_quantity H b (o_id ord) f) = Inr () \<and> book_inv H ?b' \<and> same_config b ?b' \<and>
      book_orders ?b' = (if f = o_remaining ord then spec_remove (o_id ord) (book_orders b)
         else spec_fill (o_id ord) f (book_orders b))"
  proof (cases "f = o_remaining ord")
    case True
    then have "f = node_remaining (nodes b) p" using p(2) by simp
    note r = reduce_full_Inr [OF H rep p(1,3) at(1) p(7) at(2) this]
    show ?thesis
      using r(1,4) book_repI [OF r(2)] spec_remove_eq [OF rep r(2,3) p(3,4,5) at(2)] True by simp
  next
    case False
    then have f: "0 < sint f" "sint f < sint (node_remaining (nodes b) p)"
      using f p(2) sint_eq_iff_i64 [of f "o_remaining ord"] by simp_all
    note r = reduce_partial_Inr [OF rep p(1,3) at(1) p(7) f]
    have pin: "p \<in> set (book_queue b s i)" using p(3) by simp
    show ?thesis
      using r(1,4) book_repI [OF r(2)] spec_fill_eq [OF rep r(2) pin r(3) at(2)] False by simp
  qed
qed

lemma reduce_quantity_NotFound:
  assumes "book_inv H b" "oid \<notin> resting_ids (book_orders b)"
  shows "reduce_quantity H b oid f = (Inl ReduceNotFound, b)"
  using book_find_None [OF assms(1), of oid] assms(2) by (simp add: reduce_quantity_def book_find_def)

definition replaced_order :: "order \<Rightarrow> price \<Rightarrow> quantity \<Rightarrow> seq_no \<Rightarrow> nanos \<Rightarrow> order" where
  "replaced_order ord price qty seq ts = ord\<lparr>o_price := price, o_quantity := qty, o_remaining := qty,
     o_sequence := seq, o_timestamp := ts\<rparr>"

lemma book_cancel_room:
  assumes H: "hash_map_spec H" and inv: "book_inv H b" and "oid \<in> resting_ids (book_orders b)"
  shows "ob_order_count (snd (book_cancel H b oid)) < ob_max_orders b"
proof -
  have rep: "book_rep H b (book_queue b) (free_slots (ob_pool b))" using inv by (rule book_inv_rep)
  then obtain p where found: "hm_find H (ob_order_index b) oid = Some p"
    using book_rep_resting_ids [OF rep, of oid] assms(3) by blast
  obtain s i xs ys where at: "book_queue b s i = xs @ p # ys" "o_id (n_order (nodes b ! p)) = oid"
    "o_side (n_order (nodes b ! p)) = s" "n_level_index (nodes b ! p) = i" "i < ob_num_levels b"
    "p \<notin> set xs" "p \<notin> set ys" by (rule book_rep_find [OF rep found])
  note c = book_cancel_Inr [OF H rep found at(1,3,4,2)]
  have "pool_rep (ob_max_orders b) (ob_pool (snd (book_cancel H b oid))) (p # free_slots (ob_pool b))"
    using book_repD(2) [OF c(2)] c(4) by (simp add: same_config_def)
  then show ?thesis using book_repD(3) [OF c(2)] by (simp add: pool_rep_def)
qed

lemma spec_remove_ids: "resting_ids (spec_remove oid v) = resting_ids v - {oid}"
  by (auto simp: resting_ids_def spec_remove_def)

lemma book_replace_spec:
  fixes seq :: seq_no and ts :: nanos
  assumes H: "hash_map_spec H" and inv: "book_inv H b" and ord: "ord \<in> set (book_orders b s i)"
    and qty: "0 < sint qty" and price: "index_of b price = Some j"
  defines "b' \<equiv> snd (book_replace H b (o_id ord) price qty seq ts)"
  shows "fst (book_replace H b (o_id ord) price qty seq ts) = Inr ()" "book_inv H b'" "same_config b b'"
    "book_orders b' = spec_add (replaced_order ord price qty seq ts) j (spec_remove (o_id ord) (book_orders b))"
proof -
  have rep: "book_rep H b (book_queue b) (free_slots (ob_pool b))" using inv by (rule book_inv_rep)
  let ?upd = "replaced_order ord price qty seq ts" and ?b1 = "snd (book_cancel H b (o_id ord))"
  obtain p xs ys where p: "hm_find H (ob_order_index b) (o_id ord) = Some p" "n_order (nodes b ! p) = ord"
    by (rule book_orders_find [OF rep ord])
  have oid: "o_id ord \<in> resting_ids (book_orders b)" using ord unfolding resting_ids_def by blast
  note c = book_cancel_spec [OF H inv, of "o_id ord"]
  have "add_outcome ?b1 ?upd = Inr (o_id ord)"
    using book_orders_ok(3) [OF inv ord] qty price same_config_index_of [OF c(4)]
      book_cancel_room [OF H inv oid] c(3,4)
    by (simp add: add_outcome_def replaced_order_def spec_remove_ids same_config_def)
  note a = book_add_spec [OF H c(2), of ?upd] and out = this
  have j: "index_of ?b1 (o_price ?upd) = Some j"
    using price same_config_index_of [OF c(4)] by (simp add: replaced_order_def)
  have eq: "book_replace H b (o_id ord) price qty seq ts = (Inr (), snd (book_add H ?b1 ?upd))"
    using p qty price a(1) out
    by (cases "book_add H ?b1 ?upd") (simp add: book_replace_def book_cancel_def replaced_order_def Let_def)
  show "fst (book_replace H b (o_id ord) price qty seq ts) = Inr ()" by (simp add: eq)
  show "book_inv H b'" unfolding b'_def eq snd_conv by (rule a(2))
  show "same_config b b'" unfolding b'_def eq snd_conv by (rule same_config_trans [OF c(4) a(5)])
  show "book_orders b' = spec_add ?upd j (spec_remove (o_id ord) (book_orders b))"
    unfolding b'_def eq snd_conv a(4) [OF out j] c(3) ..
qed

subsection \<open>Queries\<close>

text \<open>The levels of a side, best first, and the resting orders in price-time priority.\<close>

definition priority_indices :: "side \<Rightarrow> nat \<Rightarrow> nat list" where
  "priority_indices s n = (if s = Buy then rev [0..<n] else [0..<n])"

definition occupied_levels :: "'m order_book \<Rightarrow> side \<Rightarrow> nat list" where
  "occupied_levels b s = filter (\<lambda>i. book_orders b s i \<noteq> []) (priority_indices s (ob_num_levels b))"

definition priority_orders :: "'m order_book \<Rightarrow> side \<Rightarrow> order list" where
  "priority_orders b s = concat (map (book_orders b s) (priority_indices s (ob_num_levels b)))"

lemma set_priority_indices [simp]: "set (priority_indices s n) = {..<n}"
  by (auto simp: priority_indices_def)

lemma sorted_priority_indices: "sorted_wrt (is_better (s = Buy)) (priority_indices s n)"
proof -
  have "is_better False = (<)" "is_better True = (>)" by (simp_all add: fun_eq_iff is_better_def)
  then show ?thesis by (cases s) (simp_all add: priority_indices_def sorted_wrt_rev)
qed

lemma book_rep_priority_order:
  assumes "book_rep H b q fl"
  shows "sorted_wrt (is_better (s = Buy)) (occupied_levels b s)"
    "set (occupied_levels b s) = ls_occ (side_ladder b s)"
proof -
  show "sorted_wrt (is_better (s = Buy)) (occupied_levels b s)"
    unfolding occupied_levels_def by (rule sorted_wrt_filter [OF sorted_priority_indices])
  have "q s i \<noteq> [] \<Longrightarrow> i < ob_num_levels b" for i using book_repD(5) [OF assms, of "hd (q s i)" s i] by simp
  then show "set (occupied_levels b s) = ls_occ (side_ladder b s)"
    unfolding book_rep_occ(1) [OF assms]
    by (auto simp: occupied_levels_def book_rep_orders [OF assms])
qed

lemma side_best_ladder: "side_best_index b s = ls_best_index (side_ladder b s)"
  by (simp add: side_best_index_def side_ladder_def)

lemma side_next_ladder: "side_next_after b s i = next_after (side_ladder b s) i"
  by (simp add: side_next_after_def side_ladder_def)

text \<open>Both sides of the book satisfy the priority-side interface, one per instance of the template.\<close>

lemma side_best_index_spec:
  assumes "book_inv H b"
  shows "side_best_index b s = (case occupied_levels b s of [] \<Rightarrow> None | i # _ \<Rightarrow> Some i)"
proof -
  note rep = book_inv_rep [OF assms]
  note ord = book_rep_priority_order [OF rep, of s] and occ = book_rep_occ(2,4) [OF rep, of s]
  show ?thesis
    using bid_side.best_is_first [of "side_ladder b s" "occupied_levels b s"]
      ask_side.best_is_first [of "side_ladder b s" "occupied_levels b s"] ord occ
    unfolding side_best_ladder bid_side.priority_order_def ask_side.priority_order_def
    by (cases s) simp_all
qed

lemma side_next_after_spec:
  assumes "book_inv H b" "occupied_levels b s = xs @ i # ys"
  shows "side_next_after b s i = (case ys of [] \<Rightarrow> None | j # _ \<Rightarrow> Some j)"
proof -
  note rep = book_inv_rep [OF assms(1)]
  note ord = book_rep_priority_order [OF rep, of s] and occ = book_rep_occ(2,4) [OF rep, of s]
  show ?thesis
    using bid_side.next_is_successor [of "side_ladder b s" xs i ys]
      ask_side.next_is_successor [of "side_ladder b s" xs i ys] ord occ assms(2)
    unfolding side_next_ladder bid_side.priority_order_def ask_side.priority_order_def
    by (cases s) simp_all
qed

text \<open>\<open>for_each_level\<close> is a left-to-right walk over the occupied levels, best first, that stops
  when the visitor says so.\<close>

fun visit_all :: "('a \<Rightarrow> 's \<Rightarrow> bool \<times> 's) \<Rightarrow> 'a list \<Rightarrow> 's \<Rightarrow> 's" where
  "visit_all f [] st = st"
| "visit_all f (x # xs) st = (case f x st of (go_on, st') \<Rightarrow> if go_on then visit_all f xs st' else st')"

lemma visit_levels_suffix:
  assumes "book_inv H b" "occupied_levels b s = xs @ ys"
  shows "visit_levels b s visit (case ys of [] \<Rightarrow> None | i # _ \<Rightarrow> Some i) st =
    visit_all (\<lambda>i. visit (price_at b i) (level_for b s i)) ys st"
  using assms(2)
proof (induction ys arbitrary: xs st)
  case (Cons i ys)
  have "visit_levels b s visit (side_next_after b s i) st' =
      visit_all (\<lambda>i. visit (price_at b i) (level_for b s i)) ys st'" for st'
    using Cons.IH [of "xs @ [i]" st'] Cons.prems side_next_after_spec [OF assms(1) Cons.prems] by simp
  then show ?case by (auto split: prod.split)
qed simp

lemma for_each_level_spec:
  assumes "book_inv H b"
  shows "for_each_level b s visit st =
    visit_all (\<lambda>i. visit (price_at b i) (level_for b s i)) (occupied_levels b s) st"
  using visit_levels_suffix [OF assms, of s "[]" "occupied_levels b s"]
  by (simp add: for_each_level_def side_best_index_spec [OF assms])

text \<open>The front of the best level is the first order in price-time priority.\<close>

lemma concat_filter_nonempty: "concat (map f (filter (\<lambda>i. f i \<noteq> []) xs)) = concat (map f xs)"
  by (induction xs) auto

lemma priority_orders_occupied: "priority_orders b s = concat (map (book_orders b s) (occupied_levels b s))"
  by (simp add: priority_orders_def occupied_levels_def concat_filter_nonempty)

lemma set_priority_orders:
  assumes "book_inv H b"
  shows "set (priority_orders b s) = (\<Union>i. set (book_orders b s i))"
  using book_orders_ok(1) [OF assms] by (auto simp: priority_orders_def)

lemma side_best_index_None:
  assumes "book_inv H b"
  shows "side_best_index b s = None \<longleftrightarrow> priority_orders b s = []"
proof -
  have "book_orders b s i \<noteq> []" if "i \<in> set (occupied_levels b s)" for i
    using that by (simp add: occupied_levels_def)
  then show ?thesis
    by (cases "occupied_levels b s") (auto simp: side_best_index_spec [OF assms] priority_orders_occupied)
qed

lemma best_front:
  assumes inv: "book_inv H b" and best: "side_best_index b s = Some i"
  obtains p ord rest where "i < ob_num_levels b" "front_at b s (price_at b i) = Some p" "n_order (nodes b ! p) = ord"
    "priority_orders b s = ord # rest" "ord \<in> set (book_orders b s i)"
proof -
  note rep = book_inv_rep [OF inv]
  from best obtain rest where occ: "occupied_levels b s = i # rest"
    by (auto simp: side_best_index_spec [OF inv] split: list.splits)
  then have "i \<in> set (occupied_levels b s)" by simp
  then have i: "i < ob_num_levels b" "book_orders b s i \<noteq> []" by (simp_all add: occupied_levels_def)
  then obtain p ps where q: "book_queue b s i = p # ps" by (cases "book_queue b s i") (simp_all add: book_orders_def)
  have "pl_head (level_for b s i) = Some p"
    using level_rep_head [OF book_repD(10) [OF rep i(1), of s]] q by simp
  then have "front_at b s (price_at b i) = Some p"
    using index_of_price_at [OF book_repD(1) [OF rep] i(1)] by (simp add: front_at_def)
  moreover have "book_orders b s i = n_order (nodes b ! p) # map (\<lambda>p. n_order (nodes b ! p)) ps"
    using q by (simp add: book_orders_def)
  ultimately show thesis
    using that [OF i(1), of p "n_order (nodes b ! p)"] occ by (simp add: priority_orders_occupied)
qed

lemma best_price_side:
  "(if s = Buy then best_bid b else best_ask b) = map_option (price_at b) (side_best_index b s)"
  by (simp add: best_bid_def best_ask_def best_price_def side_best_index_def split: option.split)

end
