(* ===== verification/Priority_Book.thy ===== *)
theory Priority_Book
  imports Order_Book_Spec
begin

text \<open>
  The book as the matching engine sees it: for each side one list of resting orders in
  price-time priority.  The operations of the book are restated over these lists, and the
  interface \<open>priority_book\<close> collects the laws the matching loop relies on.  The lemmas inside
  the interface describe the loop that consumes the front of one side until a quantity is
  exhausted or the prices stop crossing.
\<close>

lemma ex_side: "(\<exists>s. P s) \<longleftrightarrow> P Buy \<or> P Sell"
  by (metis side.exhaust)

subsection \<open>Price-time priority\<close>

definition better_price :: "side \<Rightarrow> price \<Rightarrow> price \<Rightarrow> bool" where
  "better_price s p q = (if s = Buy then sint q < sint p else sint p < sint q)"

definition in_priority :: "side \<Rightarrow> order list \<Rightarrow> bool" where
  "in_priority s = sorted_wrt (\<lambda>x y. \<not> better_price s (o_price y) (o_price x))"

text \<open>A new order goes behind every order of the same or a better price.\<close>

fun insert_priority :: "side \<Rightarrow> order \<Rightarrow> order list \<Rightarrow> order list" where
  "insert_priority s ord [] = [ord]"
| "insert_priority s ord (x # xs) =
     (if better_price s (o_price ord) (o_price x) then ord # x # xs else x # insert_priority s ord xs)"

lemma insert_priority_append:
  "\<forall>x \<in> set xs. \<not> better_price s (o_price ord) (o_price x) \<Longrightarrow>
     insert_priority s ord (xs @ ys) = xs @ insert_priority s ord ys"
  by (induction xs) auto

lemma insert_priority_front:
  "\<forall>y \<in> set ys. better_price s (o_price ord) (o_price y) \<Longrightarrow> insert_priority s ord ys = ord # ys"
  by (cases ys) auto

lemma set_insert_priority [simp]: "set (insert_priority s ord xs) = insert ord (set xs)"
  by (induction xs) auto

lemma better_price_at:
  assumes "ladder_config b" "i < ob_num_levels b" "j < ob_num_levels b"
  shows "better_price s (price_at b i) (price_at b j) \<longleftrightarrow> is_better (s = Buy) i j"
  using sint_price_at [OF assms(1,2)] sint_price_at [OF assms(1,3)]
  by (auto simp: better_price_def is_better_def)

subsection \<open>The resting orders of a book in priority\<close>

lemma priority_orders_ok:
  assumes inv: "book_inv H b" and "x \<in> set (priority_orders b s)"
  shows "o_side x = s" "o_type x = Limit" "0 < sint (o_remaining x)" "index_of b (o_price x) \<noteq> None"
proof -
  from assms obtain i where i: "x \<in> set (book_orders b s i)" by (auto simp: set_priority_orders)
  note ok = book_orders_ok [OF inv i]
  show "o_side x = s" "o_type x = Limit" "0 < sint (o_remaining x)" by (fact ok(2), fact ok(3), fact ok(4))
  show "index_of b (o_price x) \<noteq> None"
    using ok(5) index_of_price_at [OF book_repD(1) [OF book_inv_rep [OF inv]] ok(1)] by simp
qed

lemma sorted_wrt_concat:
  assumes "sorted_wrt R xs" "\<And>i. i \<in> set xs \<Longrightarrow> sorted_wrt P (f i)"
    and "\<And>i j x y. i \<in> set xs \<Longrightarrow> j \<in> set xs \<Longrightarrow> R i j \<Longrightarrow> x \<in> set (f i) \<Longrightarrow> y \<in> set (f j) \<Longrightarrow> P x y"
  shows "sorted_wrt P (concat (map f xs))"
  using assms
proof (induction xs)
  case (Cons a xs)
  have "sorted_wrt P (concat (map f xs))"
    using Cons.prems by (intro Cons.IH) (auto intro: Cons.prems(3))
  moreover have "P x y" if "x \<in> set (f a)" "j \<in> set xs" "y \<in> set (f j)" for x y j
    using that Cons.prems(1) by (intro Cons.prems(3) [of a j]) auto
  ultimately show ?case using Cons.prems(2) [of a] by (auto simp: sorted_wrt_append)
qed simp

lemma priority_orders_sorted:
  assumes inv: "book_inv H b"
  shows "in_priority s (priority_orders b s)"
  unfolding in_priority_def priority_orders_def
proof (rule sorted_wrt_concat [OF sorted_priority_indices])
  note cfg = book_repD(1) [OF book_inv_rep [OF inv]]
  fix i
  show "sorted_wrt (\<lambda>x y. \<not> better_price s (o_price y) (o_price x)) (book_orders b s i)"
    using book_orders_ok(5) [OF inv, of _ s i] by (auto simp: sorted_wrt_iff_nth_less better_price_def)
  fix j x y
  assume "i \<in> set (priority_indices s (ob_num_levels b))" "j \<in> set (priority_indices s (ob_num_levels b))"
    "is_better (s = Buy) i j" "x \<in> set (book_orders b s i)" "y \<in> set (book_orders b s j)"
  then show "\<not> better_price s (o_price y) (o_price x)"
    using better_price_at [OF cfg, of j i s] is_better_asym book_orders_ok(5) [OF inv] by simp
qed

lemma distinct_concat_map:
  assumes "distinct xs" "\<And>i. i \<in> set xs \<Longrightarrow> distinct (f i)"
    and "\<And>i j. i \<in> set xs \<Longrightarrow> j \<in> set xs \<Longrightarrow> i \<noteq> j \<Longrightarrow> set (f i) \<inter> set (f j) = {}"
  shows "distinct (concat (map f xs))"
  using assms by (induction xs) auto

lemma priority_orders_distinct:
  assumes inv: "book_inv H b"
  shows "distinct (map o_id (priority_orders b s))"
proof -
  have "distinct (concat (map (\<lambda>i. map o_id (book_orders b s i)) (priority_indices s (ob_num_levels b))))"
  proof (rule distinct_concat_map)
    show "distinct (priority_indices s (ob_num_levels b))" by (simp add: priority_indices_def)
    show "distinct (map o_id (book_orders b s i))" for i by (rule book_orders_distinct_ids [OF inv])
    show "set (map o_id (book_orders b s i)) \<inter> set (map o_id (book_orders b s j)) = {}" if "i \<noteq> j" for i j
      using book_orders_unique(3) [OF inv, of _ s i _ s j] that by auto
  qed
  then show ?thesis by (simp add: priority_orders_def map_concat comp_def)
qed

lemma priority_orders_unique:
  assumes inv: "book_inv H b" and "x \<in> set (priority_orders b s)" "y \<in> set (priority_orders b t)" "o_id x = o_id y"
  shows "x = y" "s = t"
proof -
  from assms obtain i j where "x \<in> set (book_orders b s i)" "y \<in> set (book_orders b t j)"
    by (auto simp: set_priority_orders)
  from book_orders_unique [OF inv this assms(4)] show "x = y" "s = t" by simp_all
qed

lemma resting_ids_priority:
  assumes inv: "book_inv H b"
  shows "resting_ids (book_orders b) = o_id ` (set (priority_orders b Buy) \<union> set (priority_orders b Sell))"
  by (auto simp: resting_ids_def set_priority_orders [OF inv] image_iff ex_side)

text \<open>The two lists determine the levels.\<close>

lemma filter_concat_level:
  assumes "distinct xs" "i \<in> set xs" "\<And>j x. j \<in> set xs \<Longrightarrow> x \<in> set (f j) \<Longrightarrow> P x \<longleftrightarrow> j = i"
  shows "filter P (concat (map f xs)) = f i"
  using assms
proof (induction xs)
  case (Cons j xs)
  have tail: "filter P (concat (map f xs)) = (if i \<in> set xs then f i else [])"
  proof (cases "i \<in> set xs")
    case False
    then have "\<And>x. x \<in> set (concat (map f xs)) \<Longrightarrow> \<not> P x" using Cons.prems(3) by auto
    then show ?thesis using False by (simp add: filter_empty_conv)
  qed (use Cons in auto)
  have "filter P (f j) = (if j = i then f i else [])"
    using Cons.prems(3) [of j] by (auto simp: filter_empty_conv filter_id_conv)
  with tail Cons.prems(1,2) show ?case by auto
qed simp

lemma book_orders_priority:
  assumes inv: "book_inv H b" and i: "i < ob_num_levels b"
  shows "book_orders b s i = filter (\<lambda>x. o_price x = price_at b i) (priority_orders b s)"
  unfolding priority_orders_def
proof (rule filter_concat_level [symmetric])
  fix j x assume "j \<in> set (priority_indices s (ob_num_levels b))" "x \<in> set (book_orders b s j)"
  then show "o_price x = price_at b i \<longleftrightarrow> j = i"
    using book_orders_ok(5) [OF inv] price_at_inject [OF book_repD(1) [OF book_inv_rep [OF inv]] _ i] by simp
qed (use i in \<open>simp_all add: priority_indices_def\<close>)

text \<open>The cached aggregates of a level are those of the orders resting at its price.\<close>

lemma level_at_aggregates:
  assumes inv: "book_inv H b" and lvl: "level_at b s p = Some lvl"
  shows "pl_total_quantity lvl = sum_list (map o_remaining (filter (\<lambda>x. o_price x = p) (priority_orders b s)))"
    "pl_order_count lvl = of_nat (length (filter (\<lambda>x. o_price x = p) (priority_orders b s)))"
proof -
  obtain i where i: "index_of b p = Some i" "lvl = level_for b s i"
    using lvl by (auto simp: level_at_def split: option.splits)
  note lt = index_of_Some [OF i(1)]
  have "filter (\<lambda>x. o_price x = p) (priority_orders b s) = map (\<lambda>q. n_order (nodes b ! q)) (book_queue b s i)"
    using book_orders_priority [OF inv lt(1), of s] lt(2) by (simp add: book_orders_def)
  then show "pl_total_quantity lvl = sum_list (map o_remaining (filter (\<lambda>x. o_price x = p) (priority_orders b s)))"
    "pl_order_count lvl = of_nat (length (filter (\<lambda>x. o_price x = p) (priority_orders b s)))"
    using book_repD(10) [OF book_inv_rep [OF inv] lt(1), of s] i(2) by (simp_all add: level_rep_def comp_def)
qed

text \<open>\<open>order_count\<close> counts the resting orders of both sides.\<close>

lemma order_count_priority:
  assumes inv: "book_inv H b"
  shows "ob_order_count b = length (priority_orders b Buy) + length (priority_orders b Sell)"
proof -
  let ?slots = "\<lambda>s. concat (map (book_queue b s) (priority_indices s (ob_num_levels b)))"
  let ?fl = "free_slots (ob_pool b)"
  note rep = book_inv_rep [OF inv]
  have pool: "pool_rep (ob_max_orders b) (ob_pool b) ?fl" by (rule book_repD(2) [OF rep])
  have len: "length (priority_orders b s) = length (?slots s)" for s
    by (simp add: priority_orders_def book_orders_def length_concat comp_def)
  have ids: "map (\<lambda>p. o_id (n_order (nodes b ! p))) (?slots s) = map o_id (priority_orders b s)" for s
    by (simp add: priority_orders_def book_orders_def map_concat comp_def)
  then have "distinct (?slots s)" for s
    using priority_orders_distinct [OF inv, of s] by (metis distinct_map)
  moreover have "set (?slots Buy) \<inter> set (?slots Sell) = {}"
  proof -
    have "\<not> (p \<in> set (book_queue b Buy i) \<and> p \<in> set (book_queue b Sell j))" for p i j
      using book_rep_disjoint [OF rep, of p Buy i Sell j] by auto
    then show ?thesis unfolding set_concat set_map by blast
  qed
  ultimately have "length (?slots Buy @ ?slots Sell) = card (set (?slots Buy) \<union> set (?slots Sell))"
    using distinct_card [of "?slots Buy @ ?slots Sell"] by simp
  also have "set (?slots Buy) \<union> set (?slots Sell) = {..<ob_max_orders b} - set ?fl"
  proof (rule set_eqI)
    fix p
    have "p \<in> set (?slots s) \<longleftrightarrow> (\<exists>i. p \<in> set (book_queue b s i))" for s
      using book_repD(5) [OF rep, of p s] unfolding set_concat set_map set_priority_indices by blast
    moreover have "p \<in> {..<ob_max_orders b} - set ?fl \<longleftrightarrow> (\<exists>s i. p \<in> set (book_queue b s i))"
    proof
      assume "p \<in> {..<ob_max_orders b} - set ?fl"
      then show "\<exists>s i. p \<in> set (book_queue b s i)" by (intro book_repD(9) [OF rep]) simp_all
    next
      assume "\<exists>s i. p \<in> set (book_queue b s i)"
      then obtain s i where "p \<in> set (book_queue b s i)" by blast
      from book_rep_slot [OF rep this] book_repD(6) [OF rep this]
      show "p \<in> {..<ob_max_orders b} - set ?fl" by simp
    qed
    ultimately show "p \<in> set (?slots Buy) \<union> set (?slots Sell) \<longleftrightarrow> p \<in> {..<ob_max_orders b} - set ?fl"
      by (simp add: ex_side)
  qed
  also have "card \<dots> = ob_max_orders b - length ?fl"
    using pool free_chain_bound [of "sp_next_free (ob_pool b)" "sp_free_head (ob_pool b)" ?fl]
    by (subst card_Diff_subset) (auto simp: pool_rep_def distinct_card)
  also have "\<dots> = ob_order_count b" using pool book_repD(3) [OF rep] by (auto simp: pool_rep_def)
  finally show ?thesis by (simp add: len)
qed

subsection \<open>The operations on the priority lists\<close>

lemma priority_spec_add:
  assumes inv: "book_inv H b" and i: "index_of b (o_price ord) = Some i" and s: "o_side ord = s"
  shows "concat (map (spec_add ord i (book_orders b) s) (priority_indices s (ob_num_levels b))) =
    insert_priority s ord (priority_orders b s)"
proof -
  let ?v = "book_orders b s"
  note cfg = book_repD(1) [OF book_inv_rep [OF inv]] and i' = index_of_Some [OF i]
  have "i \<in> set (priority_indices s (ob_num_levels b))" using i'(1) by simp
  then obtain xs ys where ids: "priority_indices s (ob_num_levels b) = xs @ i # ys"
    by (meson split_list)
  then have lt: "set xs \<subseteq> {..<ob_num_levels b}" "set ys \<subseteq> {..<ob_num_levels b}"
    using set_priority_indices [of s "ob_num_levels b"] by auto
  have "sorted_wrt (is_better (s = Buy)) (xs @ i # ys)"
    unfolding ids [symmetric] by (rule sorted_priority_indices)
  then have ord: "j \<in> set xs \<Longrightarrow> is_better (s = Buy) j i" "j \<in> set ys \<Longrightarrow> is_better (s = Buy) i j" for j
    by (auto simp: sorted_wrt_append)
  have ni: "i \<notin> set xs" "i \<notin> set ys" using ord [of i] by (auto simp: is_better_def)
  have xs: "\<not> better_price s (o_price ord) (o_price x)" if "x \<in> set (concat (map ?v xs) @ ?v i)" for x
  proof -
    from that obtain j where j: "x \<in> set (?v j)" "j = i \<or> j \<in> set xs" by auto
    then have "\<not> is_better (s = Buy) i j" using ord(1) [of j] is_better_asym by (auto simp: is_better_def)
    then show ?thesis
      using book_orders_ok(1,5) [OF inv j(1)] better_price_at [OF cfg i'(1), of j s] i'(2) by simp
  qed
  have ys: "better_price s (o_price ord) (o_price y)" if y: "y \<in> set (concat (map ?v ys))" for y
  proof -
    from y obtain j where j: "y \<in> set (?v j)" "j \<in> set ys" by auto
    then show ?thesis
      using book_orders_ok(1,5) [OF inv j(1)] better_price_at [OF cfg i'(1), of j s] i'(2) ord(2) by simp
  qed
  have upd: "map (spec_add ord i (book_orders b) s) zs = map ?v zs" if "i \<notin> set zs" for zs
    using that s by (auto simp: spec_add_def)
  have "insert_priority s ord (priority_orders b s) =
      (concat (map ?v xs) @ ?v i) @ insert_priority s ord (concat (map ?v ys))"
    using insert_priority_append [of "concat (map ?v xs) @ ?v i" s ord "concat (map ?v ys)"] xs
    by (simp add: priority_orders_def ids)
  also have "insert_priority s ord (concat (map ?v ys)) = ord # concat (map ?v ys)"
    using ys by (intro insert_priority_front) blast
  finally show ?thesis using s by (simp add: ids upd [OF ni(1)] upd [OF ni(2)]) (simp add: spec_add_def)
qed

lemma book_add_priority:
  assumes H: "hash_map_spec H" and inv: "book_inv H b" and ok: "add_outcome b ord = Inr oid"
  shows "priority_orders (snd (book_add H b ord)) s =
    (if s = o_side ord then insert_priority s ord (priority_orders b s) else priority_orders b s)"
proof -
  obtain i where i: "index_of b (o_price ord) = Some i"
    using ok by (auto simp: add_outcome_def split: if_splits)
  note a = book_add_spec [OF H inv, of ord]
  have "ob_num_levels (snd (book_add H b ord)) = ob_num_levels b" using a(5) by (simp add: same_config_def)
  then show ?thesis
    using priority_spec_add [OF inv i refl] a(4) [OF ok i] by (auto simp: priority_orders_def spec_add_def)
qed

lemma priority_spec_remove:
  assumes "book_orders b' = spec_remove oid (book_orders b)" "same_config b b'"
  shows "priority_orders b' s = filter (\<lambda>x. o_id x \<noteq> oid) (priority_orders b s)"
  using assms by (simp add: priority_orders_def spec_remove_def same_config_def filter_concat comp_def)

lemma priority_spec_fill:
  assumes "book_orders b' = spec_fill oid f (book_orders b)" "same_config b b'"
  shows "priority_orders b' s = map (\<lambda>x. if o_id x = oid then x\<lparr>o_remaining := o_remaining x - f\<rparr> else x)
    (priority_orders b s)"
  using assms by (simp add: priority_orders_def spec_fill_def same_config_def map_concat comp_def)

lemma book_cancel_priority:
  assumes "hash_map_spec H" "book_inv H b"
  shows "priority_orders (snd (book_cancel H b oid)) s = filter (\<lambda>x. o_id x \<noteq> oid) (priority_orders b s)"
  using book_cancel_spec(3,4) [OF assms] by (intro priority_spec_remove) simp_all

text \<open>A fill of the order at the front of a side.\<close>

lemma reduce_front_priority:
  assumes H: "hash_map_spec H" and inv: "book_inv H b" and front: "priority_orders b s = r # rs"
    and f: "0 < sint f" "sint f \<le> sint (o_remaining r)"
  defines "b' \<equiv> snd (reduce_quantity H b (o_id r) f)"
  shows "book_inv H b'" "same_config b b'"
    and "priority_orders b' s =
      (if f = o_remaining r then rs else r\<lparr>o_remaining := o_remaining r - f\<rparr> # rs)"
    and "t \<noteq> s \<Longrightarrow> priority_orders b' t = priority_orders b t"
proof -
  have rin: "r \<in> set (priority_orders b s)" using front by simp
  then obtain i where i: "r \<in> set (book_orders b s i)" by (auto simp: set_priority_orders [OF inv])
  have red: "book_inv H b'" "same_config b b'" "book_orders b' = (if f = o_remaining r
      then spec_remove (o_id r) (book_orders b) else spec_fill (o_id r) f (book_orders b))"
    using reduce_quantity_spec(2) [OF H inv i] f unfolding b'_def by simp_all
  show "book_inv H b'" "same_config b b'" by (fact red(1), fact red(2))
  have "o_id r \<notin> o_id ` set rs" using priority_orders_distinct [OF inv, of s] front by simp
  then have rs: "o_id x \<noteq> o_id r" if "x \<in> set rs" for x using that by (metis imageI)
  have other: "o_id x \<noteq> o_id r" if "x \<in> set (priority_orders b t)" "t \<noteq> s" for x t
    using priority_orders_unique(2) [OF inv that(1) rin] that(2) by blast
  show "priority_orders b' s = (if f = o_remaining r then rs else r\<lparr>o_remaining := o_remaining r - f\<rparr> # rs)"
  proof (cases "f = o_remaining r")
    case True
    have "filter (\<lambda>x. o_id x \<noteq> o_id r) rs = rs" using rs by (intro filter_True) auto
    then show ?thesis using priority_spec_remove [of b' "o_id r" b s] red True front by simp
  next
    case False
    have "map (\<lambda>x. if o_id x = o_id r then x\<lparr>o_remaining := o_remaining x - f\<rparr> else x) rs = rs"
      using rs by (intro map_idI) auto
    then show ?thesis using priority_spec_fill [of b' "o_id r" f b s] red False front by simp
  qed
  show "priority_orders b' t = priority_orders b t" if t: "t \<noteq> s"
  proof (cases "f = o_remaining r")
    case True
    have "filter (\<lambda>x. o_id x \<noteq> o_id r) (priority_orders b t) = priority_orders b t"
      using other [OF _ t] by (intro filter_True) blast
    then show ?thesis using priority_spec_remove [of b' "o_id r" b t] red True by simp
  next
    case False
    have "map (\<lambda>x. if o_id x = o_id r then x\<lparr>o_remaining := o_remaining x - f\<rparr> else x) (priority_orders b t)
        = priority_orders b t"
      using other [OF _ t] by (intro map_idI) auto
    then show ?thesis using priority_spec_fill [of b' "o_id r" f b t] red False by simp
  qed
qed

end
