(* ===== verification/Book_Properties.thy ===== *)
theory Book_Properties
  imports Priority_Book
begin

text \<open>
  The properties of the order book, over the resting orders of each side in price-time
  priority, with concrete instances on a book of four price levels and room for two orders.
\<close>

subsection \<open>A concrete book\<close>

definition demo_order :: "order_id \<Rightarrow> client_id \<Rightarrow> side \<Rightarrow> price \<Rightarrow> quantity \<Rightarrow> order" where
  "demo_order oid client s price qty = \<lparr>o_id = oid, o_client = client, o_symbol = 1, o_side = s, o_type = Limit,
     o_tif = Day, o_price = price, o_quantity = qty, o_remaining = qty, o_sequence = oid, o_timestamp = 0\<rparr>"

definition demo_bid :: order where
  "demo_bid = demo_order 11 7 Buy 101 5"

definition demo_ask :: order where
  "demo_ask = demo_order 12 8 Sell 103 3"

type_synonym demo_map = "order_id \<rightharpoonup> nat"

definition demo_empty :: "demo_map order_book" where
  "demo_empty = order_book_init fun_map 4 2 1 100"

definition demo_one :: "demo_map order_book" where
  "demo_one = snd (book_add fun_map demo_empty demo_bid)"

definition demo_two :: "demo_map order_book" where
  "demo_two = snd (book_add fun_map demo_one demo_ask)"

lemmas demo_orders = demo_bid_def demo_ask_def demo_order_def

lemma book_init_inv:
  assumes "hash_map_spec H" "0 < max_orders" "max_orders \<le> kNone" "num_levels \<le> 2 ^ 63"
    "sint base + int num_levels \<le> 2 ^ 63"
  shows "book_inv H (order_book_init H num_levels max_orders symbol base)"
    "priority_orders (order_book_init H num_levels max_orders symbol base) s = []"
proof -
  have rep: "book_rep H (order_book_init H num_levels max_orders symbol base) (\<lambda>s i. []) [0..<max_orders]"
    using assms by (intro book_rep_init) simp_all
  show "book_inv H (order_book_init H num_levels max_orders symbol base)" by (rule book_repI [OF rep])
  show "priority_orders (order_book_init H num_levels max_orders symbol base) s = []"
    by (simp add: priority_orders_def book_rep_orders [OF rep])
qed

lemma demo_empty_inv: "book_inv fun_map demo_empty" "priority_orders demo_empty s = []"
  unfolding demo_empty_def by (rule book_init_inv; simp add: fun_map_spec kNone_def)+

lemma demo_empty_config:
  "ob_num_levels demo_empty = 4" "ob_max_orders demo_empty = 2" "ob_base_price demo_empty = 100" "ob_symbol demo_empty = 1"
  by (simp_all add: demo_empty_def order_book_init_def)

lemma demo_index:
  assumes "same_config demo_empty b"
  shows "index_of b 101 = Some 1" "index_of b 102 = Some 2" "index_of b 103 = Some 3" "index_of b 99 = None"
    "index_of b 104 = None"
  unfolding same_config_index_of [OF assms]
  by (simp_all add: index_of_def demo_empty_config Let_def)

text \<open>Adding the two orders.\<close>

lemma demo_one_add: "add_outcome demo_empty demo_bid = Inr 11"
  using demo_index [of demo_empty] order_count_priority [OF demo_empty_inv(1)]
  by (simp add: add_outcome_def demo_orders demo_empty_config resting_ids_priority [OF demo_empty_inv(1)] demo_empty_inv(2))

lemma demo_one_inv:
  "book_inv fun_map demo_one" "same_config demo_empty demo_one"
  "priority_orders demo_one Buy = [demo_bid]" "priority_orders demo_one Sell = []"
  unfolding demo_one_def
  using book_add_spec(2,5) [OF fun_map_spec demo_empty_inv(1), of demo_bid]
    book_add_priority [OF fun_map_spec demo_empty_inv(1) demo_one_add]
  by (simp_all add: demo_empty_inv(2)) (simp_all add: demo_bid_def demo_order_def)

lemma demo_two_add: "add_outcome demo_one demo_ask = Inr 12"
  using demo_index [OF demo_one_inv(2)] order_count_priority [OF demo_one_inv(1)] demo_one_inv(2)
  by (simp add: add_outcome_def demo_ask_def demo_order_def resting_ids_priority [OF demo_one_inv(1)] demo_one_inv(3,4)
      same_config_def demo_empty_config demo_bid_def)

lemma demo_two_inv:
  "book_inv fun_map demo_two" "same_config demo_empty demo_two"
  "priority_orders demo_two Buy = [demo_bid]" "priority_orders demo_two Sell = [demo_ask]"
  unfolding demo_two_def
  using book_add_spec(2,5) [OF fun_map_spec demo_one_inv(1), of demo_ask] same_config_trans [OF demo_one_inv(2)]
    book_add_priority [OF fun_map_spec demo_one_inv(1) demo_two_add]
  by (simp_all add: demo_one_inv(3,4)) (simp_all add: demo_ask_def demo_order_def)

lemma demo_two_config:
  "ob_num_levels demo_two = 4" "ob_max_orders demo_two = 2" "ob_base_price demo_two = 100" "ob_symbol demo_two = 1"
  "ob_order_count demo_two = 2"
  using demo_two_inv(2) order_count_priority [OF demo_two_inv(1)] demo_two_inv(3,4)
  by (simp_all add: same_config_def demo_empty_config)

lemma book_replace_priority:
  fixes seq :: seq_no and ts :: nanos
  assumes H: "hash_map_spec H" and inv: "book_inv H b" and ord: "ord \<in> set (priority_orders b s)"
    and qty: "0 < sint qty" and price: "index_of b price \<noteq> None"
  defines "b' \<equiv> snd (book_replace H b (o_id ord) price qty seq ts)"
  shows "fst (book_replace H b (o_id ord) price qty seq ts) = Inr ()" "book_inv H b'"
    and "priority_orders b' t = (if t = s
      then insert_priority s (replaced_order ord price qty seq ts) (filter (\<lambda>x. o_id x \<noteq> o_id ord) (priority_orders b s))
      else priority_orders b t)"
proof -
  obtain i where i: "ord \<in> set (book_orders b s i)" using ord by (auto simp: set_priority_orders [OF inv])
  obtain j where j: "index_of b price = Some j" using price by blast
  let ?b1 = "snd (book_cancel H b (o_id ord))" and ?upd = "replaced_order ord price qty seq ts"
  note r = book_replace_spec [OF H inv i qty j, of seq ts, folded b'_def] and c = book_cancel_spec [OF H inv, of "o_id ord"]
  show "fst (book_replace H b (o_id ord) price qty seq ts) = Inr ()" "book_inv H b'" by (fact r(1), fact r(2))
  have upd: "o_side ?upd = s" "index_of ?b1 (o_price ?upd) = Some j"
    using priority_orders_ok(1) [OF inv ord] j same_config_index_of [OF c(4)] by (simp_all add: replaced_order_def)
  have n: "ob_num_levels b' = ob_num_levels ?b1" using r(3) c(4) by (simp add: same_config_def)
  have "priority_orders b' t = (if t = s then insert_priority s ?upd (priority_orders ?b1 s) else priority_orders ?b1 t)"
    using priority_spec_add [OF c(2) upd(2,1)] upd(1) unfolding priority_orders_def [of b'] r(4) n c(3) [symmetric]
    by (auto simp: priority_orders_def spec_add_def)
  moreover have "filter (\<lambda>x. o_id x \<noteq> o_id ord) (priority_orders b t) = priority_orders b t" if "t \<noteq> s"
    using priority_orders_unique(2) [OF inv _ ord] that by (intro filter_True) blast
  ultimately show "priority_orders b' t = (if t = s
      then insert_priority s ?upd (filter (\<lambda>x. o_id x \<noteq> o_id ord) (priority_orders b s)) else priority_orders b t)"
    by (simp add: book_cancel_priority [OF H inv])
qed

lemma price_index_iff:
  assumes "ladder_config b"
  shows "index_of b p = Some i \<longleftrightarrow> i < ob_num_levels b \<and> price_at b i = p"
  using index_of_Some [of b p i] index_of_price_at [OF assms] by auto

lemma best_front_price:
  assumes inv: "book_inv H b"
  shows "map_option (price_at b) (side_best_index b s) =
    (case priority_orders b s of [] \<Rightarrow> None | x # _ \<Rightarrow> Some (o_price x))"
proof (cases "side_best_index b s")
  case None
  then show ?thesis using side_best_index_None [OF inv] by simp
next
  case (Some i)
  obtain p ord rest where "priority_orders b s = ord # rest" "ord \<in> set (book_orders b s i)"
    by (rule best_front [OF inv Some])
  with Some book_orders_ok(5) [OF inv] show ?thesis by simp
qed

lemma front_is_best:
  assumes inv: "book_inv H b"
  shows "priority_orders b Buy = x # xs \<Longrightarrow> y \<in> set xs \<Longrightarrow> sint (o_price y) \<le> sint (o_price x)"
    "priority_orders b Sell = x # xs \<Longrightarrow> y \<in> set xs \<Longrightarrow> sint (o_price x) \<le> sint (o_price y)"
  using priority_orders_sorted [OF inv, of Buy] priority_orders_sorted [OF inv, of Sell]
  by (auto simp: in_priority_def better_price_def not_less)

subsection \<open>Properties\<close>

text \<open>C10: \<open>OrderBook::add\<close> on a well-formed book: a market order, a non-positive quantity, a price
  off the ladder, an identifier that already rests, or a full book each give the matching error
  and leave the book unchanged; otherwise the order is queued behind every order of its side with the
  same or a better price, the other side is untouched and the book stays well-formed.\<close>

theorem book_add_correct:
  assumes "hash_map_spec H" "book_inv H b"
  shows "fst (book_add H b ord) = add_outcome b ord \<and> book_inv H (snd (book_add H b ord)) \<and>
    (case add_outcome b ord of
       Inl _ \<Rightarrow> snd (book_add H b ord) = b
     | Inr _ \<Rightarrow> \<forall>s. priority_orders (snd (book_add H b ord)) s =
         (if s = o_side ord then insert_priority s ord (priority_orders b s) else priority_orders b s))"
  using book_add_spec(1,2,3) [OF assms, of ord] book_add_priority [OF assms] by (simp split: sum.split)

theorem book_add_correct_witness:
  "hash_map_spec (fun_map :: demo_map index_ops) \<and> book_inv fun_map demo_one \<and>
   priority_orders (snd (book_add fun_map demo_one demo_ask)) Sell = [demo_ask] \<and>
   priority_orders (snd (book_add fun_map demo_one demo_ask)) Buy = [demo_bid]"
  using book_add_correct [OF fun_map_spec demo_one_inv(1), of demo_ask] demo_two_add fun_map_spec demo_one_inv
  by (simp add: demo_ask_def demo_order_def)

text \<open>C11: \<open>OrderBook::cancel\<close> succeeds exactly for the identifiers that rest on either side; it removes
  that order and nothing else, and the priority among the others is unchanged.\<close>

theorem book_cancel_correct:
  assumes "hash_map_spec H" "book_inv H b"
  shows "fst (book_cancel H b oid) = (if oid \<in> o_id ` (set (priority_orders b Buy) \<union> set (priority_orders b Sell))
      then Inr () else Inl CancelNotFound) \<and>
    book_inv H (snd (book_cancel H b oid)) \<and>
    priority_orders (snd (book_cancel H b oid)) s = filter (\<lambda>x. o_id x \<noteq> oid) (priority_orders b s)"
  using book_cancel_spec(1,2) [OF assms] book_cancel_priority [OF assms] by (simp add: resting_ids_priority [OF assms(2)])

theorem book_cancel_correct_witness:
  "hash_map_spec (fun_map :: demo_map index_ops) \<and> book_inv fun_map demo_two \<and>
   fst (book_cancel fun_map demo_two 11) = Inr () \<and> priority_orders (snd (book_cancel fun_map demo_two 11)) Buy = []"
  using book_cancel_correct [OF fun_map_spec demo_two_inv(1), of 11 Buy] fun_map_spec demo_two_inv
  by (simp add: demo_orders)

text \<open>C12: \<open>OrderBook::reduce_quantity\<close> on a resting order: an amount that is not positive or exceeds
  the open quantity is refused without effect; the full open quantity removes the order; a smaller
  amount lowers its open quantity in place, so the order keeps its priority.\<close>

theorem reduce_quantity_correct:
  fixes f :: quantity
  assumes "hash_map_spec H" "book_inv H b" "ord \<in> set (priority_orders b s)"
  defines "b' \<equiv> snd (reduce_quantity H b (o_id ord) f)"
  shows "if 0 < sint f \<and> sint f \<le> sint (o_remaining ord)
    then fst (reduce_quantity H b (o_id ord) f) = Inr () \<and> book_inv H b' \<and>
      priority_orders b' t = (if f = o_remaining ord then filter (\<lambda>x. o_id x \<noteq> o_id ord) (priority_orders b t)
        else map (\<lambda>x. if o_id x = o_id ord then x\<lparr>o_remaining := o_remaining x - f\<rparr> else x) (priority_orders b t))
    else reduce_quantity H b (o_id ord) f = (Inl InvalidFillAmount, b)"
proof -
  obtain i where i: "ord \<in> set (book_orders b s i)" using assms(2,3) by (auto simp: set_priority_orders)
  note r = reduce_quantity_spec [OF assms(1,2) i, of f, folded b'_def]
  show ?thesis
  proof (cases "0 < sint f \<and> sint f \<le> sint (o_remaining ord)")
    case True
    then show ?thesis
      using r(2) priority_spec_remove [of b' "o_id ord" b t] priority_spec_fill [of b' "o_id ord" f b t] by auto
  qed (use r(1) in auto)
qed

theorem reduce_quantity_correct_witness:
  "hash_map_spec (fun_map :: demo_map index_ops) \<and> book_inv fun_map demo_two \<and> demo_bid \<in> set (priority_orders demo_two Buy) \<and>
   priority_orders (snd (reduce_quantity fun_map demo_two 11 2)) Buy = [demo_bid\<lparr>o_remaining := 3\<rparr>]"
  using reduce_quantity_correct [OF fun_map_spec demo_two_inv(1), of demo_bid Buy 2 Buy] fun_map_spec demo_two_inv
  by (simp add: demo_orders)

text \<open>C13: a validated \<open>OrderBook::replace\<close> of a resting order cannot fail: the slot it frees is there
  for the new terms even in a full book.  The order loses its priority and is queued as a new one.\<close>

theorem book_replace_correct:
  fixes seq :: seq_no and ts :: nanos
  assumes "hash_map_spec H" "book_inv H b" "ord \<in> set (priority_orders b s)"
    "0 < sint qty" "index_of b price \<noteq> None"
  defines "b' \<equiv> snd (book_replace H b (o_id ord) price qty seq ts)"
  shows "fst (book_replace H b (o_id ord) price qty seq ts) = Inr () \<and> book_inv H b' \<and>
    priority_orders b' s = insert_priority s (replaced_order ord price qty seq ts)
      (filter (\<lambda>x. o_id x \<noteq> o_id ord) (priority_orders b s)) \<and>
    priority_orders b' (opposite s) = priority_orders b (opposite s)"
  using book_replace_priority [OF assms(1-5), of seq ts, folded b'_def] opposite_neq [of s] by simp

theorem book_replace_correct_witness:
  "hash_map_spec (fun_map :: demo_map index_ops) \<and> book_inv fun_map demo_two \<and> demo_bid \<in> set (priority_orders demo_two Buy) \<and>
   ob_order_count demo_two = ob_max_orders demo_two \<and> fst (book_replace fun_map demo_two 11 102 9 20 1) = Inr () \<and>
   priority_orders (snd (book_replace fun_map demo_two 11 102 9 20 1)) Buy = [replaced_order demo_bid 102 9 20 1]"
  using book_replace_correct [OF fun_map_spec demo_two_inv(1), of demo_bid Buy 9 102 20 1] fun_map_spec demo_two_inv
    demo_index [OF demo_two_inv(2)] demo_two_config
  by (simp add: demo_orders)

text \<open>\<open>best_bid\<close> and \<open>best_ask\<close>, read from the cached index, are the highest resting bid and the
  lowest resting ask, and are absent exactly when the side is empty.\<close>

theorem best_prices_correct:
  assumes "book_inv H b"
  shows "(case best_bid b of
      None \<Rightarrow> priority_orders b Buy = []
    | Some p \<Rightarrow> p \<in> o_price ` set (priority_orders b Buy) \<and> (\<forall>x \<in> set (priority_orders b Buy). sint (o_price x) \<le> sint p))
   \<and> (case best_ask b of
      None \<Rightarrow> priority_orders b Sell = []
    | Some p \<Rightarrow> p \<in> o_price ` set (priority_orders b Sell) \<and> (\<forall>x \<in> set (priority_orders b Sell). sint p \<le> sint (o_price x)))"
  using best_price_side [of Buy b] best_price_side [of Sell b] best_front_price [OF assms, of Buy]
    best_front_price [OF assms, of Sell] front_is_best [OF assms]
  by (cases "priority_orders b Buy"; cases "priority_orders b Sell") auto

theorem best_prices_correct_witness:
  "book_inv fun_map demo_two \<and> best_bid demo_two = Some 101 \<and> best_ask demo_two = Some 103"
  using best_prices_correct [OF demo_two_inv(1)] demo_two_inv
  by (auto simp: demo_orders split: option.splits)

text \<open>\<open>for_each_level\<close>, which follows the bitmap from the best index on, visits exactly the levels
  that hold orders, each once, from the best price to the worst, until the visitor stops it.\<close>

theorem for_each_level_correct:
  assumes "book_inv H b"
  shows "for_each_level b s visit st =
      visit_all (\<lambda>i. visit (price_at b i) (level_for b s i)) (occupied_levels b s) st \<and>
    sorted_wrt (is_better (s = Buy)) (occupied_levels b s) \<and>
    set (occupied_levels b s) = {i. i < ob_num_levels b \<and> book_orders b s i \<noteq> []}"
  using for_each_level_spec [OF assms] book_rep_priority_order(1) [OF book_inv_rep [OF assms]]
  by (auto simp: occupied_levels_def)

theorem for_each_level_correct_witness:
  "book_inv fun_map demo_two \<and>
   for_each_level demo_two Buy (\<lambda>price lvl st. (True, st @ [price])) [] =
     visit_all (\<lambda>i st. (True, st @ [price_at demo_two i])) (occupied_levels demo_two Buy) [] \<and>
   sorted_wrt (is_better True) (occupied_levels demo_two Buy)"
  using for_each_level_correct [OF demo_two_inv(1), of Buy "\<lambda>price lvl st. (True, st @ [price])" "[]"] demo_two_inv(1)
  by simp

text \<open>The cached counters.  \<open>order_count\<close> is the number of resting orders of both sides; it never
  exceeds \<open>MaxOrders\<close>, and no two resting orders share an identifier.  The aggregates of a level, as
  market data reads them, are the sum of the open quantities and the number of the orders queued at
  that price, in the machine's arithmetic.\<close>

theorem book_counters_correct:
  assumes "book_inv H b"
  shows "ob_order_count b = length (priority_orders b Buy) + length (priority_orders b Sell) \<and>
    ob_order_count b \<le> ob_max_orders b \<and>
    distinct (map o_id (priority_orders b Buy @ priority_orders b Sell)) \<and>
    (level_at b s p = Some lvl \<longrightarrow>
      pl_total_quantity lvl = sum_list (map o_remaining (filter (\<lambda>x. o_price x = p) (priority_orders b s))) \<and>
      pl_order_count lvl = of_nat (length (filter (\<lambda>x. o_price x = p) (priority_orders b s))))"
proof -
  note level_at_aggregates [OF assms, of s p lvl]
  moreover have "o_id ` set (priority_orders b Buy) \<inter> o_id ` set (priority_orders b Sell) = {}"
    using priority_orders_unique(2) [OF assms, of _ Buy _ Sell] by auto
  ultimately show ?thesis
    using order_count_priority [OF assms] priority_orders_distinct [OF assms] book_repD(2,3) [OF book_inv_rep [OF assms]]
    by (auto simp: pool_rep_def)
qed

theorem book_counters_correct_witness:
  "book_inv fun_map demo_two \<and> ob_order_count demo_two = 2 \<and> ob_order_count demo_two \<le> ob_max_orders demo_two \<and>
   (\<exists>lvl. level_at demo_two Buy 101 = Some lvl \<and> pl_total_quantity lvl = 5 \<and> pl_order_count lvl = 1)"
proof -
  let ?lvl = "level_for demo_two Buy 1"
  have lvl: "level_at demo_two Buy 101 = Some ?lvl" using demo_index [OF demo_two_inv(2)] by (simp add: level_at_def)
  note c = book_counters_correct [OF demo_two_inv(1), of Buy 101 ?lvl]
  then have "pl_total_quantity ?lvl = 5 \<and> pl_order_count ?lvl = 1" using lvl demo_two_inv by (simp add: demo_orders)
  moreover have "ob_order_count demo_two = 2" "ob_order_count demo_two \<le> ob_max_orders demo_two"
    using c demo_two_inv by simp_all
  ultimately show ?thesis using lvl demo_two_inv(1) by blast
qed

text \<open>Prices and ladder indices correspond: for a ladder whose prices fit into 64 bits, \<open>index_of\<close>
  accepts exactly the prices \<open>price_at\<close> yields and inverts it.\<close>

theorem price_index_round_trip:
  assumes "ladder_config b"
  shows "(index_of b p = Some i \<longleftrightarrow> i < ob_num_levels b \<and> price_at b i = p) \<and>
    (index_of b p = None \<longleftrightarrow> sint p < sint (ob_base_price b) \<or> sint (ob_base_price b) + int (ob_num_levels b) \<le> sint p)"
proof -
  have "index_of b p \<noteq> None \<longleftrightarrow> (\<exists>i. i < ob_num_levels b \<and> price_at b i = p)"
    using price_index_iff [OF assms] by blast
  also have "\<dots> \<longleftrightarrow> (\<exists>i. i < ob_num_levels b \<and> sint p = sint (ob_base_price b) + int i)"
    using sint_price_at [OF assms] sint_eq_iff_i64 by metis
  also have "\<dots> \<longleftrightarrow> sint (ob_base_price b) \<le> sint p \<and> sint p < sint (ob_base_price b) + int (ob_num_levels b)"
    by (auto intro!: exI [of _ "nat (sint p - sint (ob_base_price b))"])
  finally have "index_of b p = None \<longleftrightarrow>
      sint p < sint (ob_base_price b) \<or> sint (ob_base_price b) + int (ob_num_levels b) \<le> sint p" by linarith
  then show ?thesis by (simp only: price_index_iff [OF assms] simp_thms)
qed

theorem price_index_round_trip_witness:
  "ladder_config demo_two \<and> index_of demo_two 102 = Some 2 \<and> index_of demo_two 104 = None"
  using price_index_round_trip [of demo_two 102 2] price_index_round_trip [of demo_two 104 0]
  by (simp add: ladder_config_def demo_two_config price_at_def)

end
