(* ===== verification/Fifo_Matching.thy ===== *)
theory Fifo_Matching
  imports Priority_Book
begin

text \<open>
  The reference semantics of matching, over plain lists: an incoming quantity is allocated
  greedily to a list of resting orders, each in full before the next.  The interface
  \<open>priority_book\<close> gives a book's side as such a list, and the lemmas inside it show that the
  loop which repeatedly fills the front order computes the greedy allocation.  The interface
  is interpreted on the order book.
\<close>

subsection \<open>Greedy allocation\<close>

fun greedy_fills :: "quantity \<Rightarrow> order list \<Rightarrow> (order \<times> quantity) list" where
  "greedy_fills q [] = []"
| "greedy_fills q (r # rs) =
     (if sint q \<le> 0 then []
      else (r, min_amount q (o_remaining r)) # greedy_fills (q - min_amount q (o_remaining r)) rs)"

fun leftover :: "quantity \<Rightarrow> order list \<Rightarrow> order list" where
  "leftover q [] = []"
| "leftover q (r # rs) =
     (if sint q \<le> 0 then r # rs
      else if sint q < sint (o_remaining r) then r\<lparr>o_remaining := o_remaining r - q\<rparr> # rs
      else leftover (q - o_remaining r) rs)"

fun unfilled :: "quantity \<Rightarrow> order list \<Rightarrow> quantity" where
  "unfilled q [] = q"
| "unfilled q (r # rs) = (if sint q \<le> 0 then q else unfilled (q - min_amount q (o_remaining r)) rs)"

definition open_quantity :: "order list \<Rightarrow> int" where
  "open_quantity rs = (\<Sum>r \<leftarrow> rs. sint (o_remaining r))"

definition filled_total :: "(order \<times> quantity) list \<Rightarrow> int" where
  "filled_total fs = (\<Sum>(r, f) \<leftarrow> fs. sint f)"

definition all_open :: "order list \<Rightarrow> bool" where
  "all_open rs \<longleftrightarrow> (\<forall>r \<in> set rs. 0 < sint (o_remaining r))"

lemma all_open_simps [simp]:
  "all_open []" "all_open (r # rs) \<longleftrightarrow> 0 < sint (o_remaining r) \<and> all_open rs"
  "all_open (xs @ ys) \<longleftrightarrow> all_open xs \<and> all_open ys"
  by (auto simp: all_open_def)

lemma open_quantity_simps [simp]:
  "open_quantity [] = 0" "open_quantity (r # rs) = sint (o_remaining r) + open_quantity rs"
  "open_quantity (xs @ ys) = open_quantity xs + open_quantity ys"
  by (simp_all add: open_quantity_def)

lemma filled_total_simps [simp]: "filled_total [] = 0" "filled_total ((r, f) # fs) = sint f + filled_total fs"
  by (simp_all add: filled_total_def)

lemma open_quantity_nonneg: "all_open rs \<Longrightarrow> 0 \<le> open_quantity rs"
  by (induction rs) auto

lemma greedy_stop [simp]:
  "sint q \<le> 0 \<Longrightarrow> greedy_fills q rs = []" "sint q \<le> 0 \<Longrightarrow> leftover q rs = rs" "sint q \<le> 0 \<Longrightarrow> unfilled q rs = q"
  by (cases rs; simp)+

text \<open>One step never leaves the 64-bit range.\<close>

lemma sint_minus_min_amount:
  assumes "0 < sint q" "0 < sint r"
  shows "sint (q - min_amount q r) = sint q - min (sint q) (sint r)"
proof -
  have "sint (min_amount q r) = min (sint q) (sint r)" by (simp add: min_amount_sint)
  with assms sint_i64_bounds [of q] show ?thesis by (subst sint_minus_i64) auto
qed

lemma sint_minus_within:
  fixes q r :: i64
  assumes "0 < sint q" "sint q \<le> sint r"
  shows "sint (r - q) = sint r - sint q"
  using assms sint_i64_bounds [of r] by (subst sint_minus_i64) auto

lemma unfilled_sint:
  assumes "all_open rs" "0 \<le> sint q"
  shows "sint (unfilled q rs) = max 0 (sint q - open_quantity rs)"
  using assms
proof (induction rs arbitrary: q)
  case (Cons r rs)
  have nn: "0 \<le> open_quantity rs" using Cons.prems by (intro open_quantity_nonneg) simp
  show ?case
  proof (cases "sint q \<le> 0")
    case False
    then show ?thesis
      using Cons.IH [of "q - min_amount q (o_remaining r)"] Cons.prems nn
        sint_minus_min_amount [of q "o_remaining r"] by auto
  qed (use Cons.prems nn in auto)
qed auto

lemma filled_total_greedy:
  assumes "all_open rs" "0 \<le> sint q"
  shows "filled_total (greedy_fills q rs) = min (sint q) (open_quantity rs)"
  using assms
proof (induction rs arbitrary: q)
  case (Cons r rs)
  have nn: "0 \<le> open_quantity rs" using Cons.prems by (intro open_quantity_nonneg) simp
  show ?case
  proof (cases "sint q \<le> 0")
    case False
    then show ?thesis
      using Cons.IH [of "q - min_amount q (o_remaining r)"] Cons.prems nn
        sint_minus_min_amount [of q "o_remaining r"] by (auto simp: min_amount_sint)
  qed (use Cons.prems nn in auto)
qed auto

lemma open_quantity_leftover:
  assumes "all_open rs" "0 \<le> sint q"
  shows "open_quantity (leftover q rs) = open_quantity rs - min (sint q) (open_quantity rs)"
    and "all_open (leftover q rs)"
  using assms
proof (induction rs arbitrary: q)
  case (Cons r rs)
  { case 1
    then have nn: "0 \<le> open_quantity rs" by (intro open_quantity_nonneg) simp
    have "0 \<le> sint (q - o_remaining r)" "sint (q - o_remaining r) = sint q - sint (o_remaining r)"
      if "sint (o_remaining r) \<le> sint q"
      using that 1 sint_minus_within [of "o_remaining r" q] by simp_all
    then show ?case using 1 Cons.IH(1) [of "q - o_remaining r"] nn sint_minus_within [of q "o_remaining r"] by auto }
  { case 2
    then show ?case
      using Cons.IH(2) [of "q - o_remaining r"] sint_minus_within [of q "o_remaining r"]
        sint_minus_within [of "o_remaining r" q] by auto }
qed auto

lemma leftover_empty:
  "all_open rs \<Longrightarrow> 0 \<le> sint q \<Longrightarrow> 0 < sint (unfilled q rs) \<Longrightarrow> leftover q rs = []"
proof (induction rs arbitrary: q)
  case (Cons r rs)
  have pos: "0 < sint q" using Cons.prems by (cases "sint q \<le> 0") auto
  show ?case
  proof (cases "sint q < sint (o_remaining r)")
    case True
    then have "min_amount q (o_remaining r) = q" by (simp add: min_amount_def)
    then show ?thesis using Cons.prems pos by simp
  next
    case False
    then have m: "min_amount q (o_remaining r) = o_remaining r"
      using sint_eq_iff_i64 [of q "o_remaining r"] by (auto simp: min_amount_def)
    then show ?thesis
      using Cons.IH [of "q - o_remaining r"] Cons.prems pos False sint_minus_within [of "o_remaining r" q] by simp
  qed
qed simp

text \<open>What remains of the list keeps the orders' identities and prices: it is a suffix whose first
  order may have shrunk.\<close>

lemma leftover_suffix:
  "\<exists>xs r ys. rs = xs @ ys \<and> (leftover q rs = ys \<or> (ys \<noteq> [] \<and> leftover q rs = (hd ys)\<lparr>o_remaining := r\<rparr> # tl ys))"
proof (induction rs arbitrary: q)
  case (Cons a rs)
  show ?case
  proof (cases "sint q \<le> 0 \<or> sint q < sint (o_remaining a)")
    case True
    then have "leftover q (a # rs) = a # rs \<or> (\<exists>r. leftover q (a # rs) = a\<lparr>o_remaining := r\<rparr> # rs)" by auto
    then show ?thesis by (intro exI [of _ "[]"]) auto
  next
    case False
    from Cons.IH [of "q - o_remaining a"] obtain xs r ys where
      "rs = xs @ ys" "leftover (q - o_remaining a) rs = ys \<or>
        (ys \<noteq> [] \<and> leftover (q - o_remaining a) rs = (hd ys)\<lparr>o_remaining := r\<rparr> # tl ys)" by blast
    then show ?thesis using False by (intro exI [of _ "a # xs"] exI [of _ r] exI [of _ ys]) auto
  qed
qed simp

subsection \<open>The interface of a price-time book\<close>

locale priority_book =
  fixes invar :: "'b \<Rightarrow> bool"
    and config :: "'b \<Rightarrow> 'c"
    and queue :: "'b \<Rightarrow> side \<Rightarrow> order list"
    and front :: "'b \<Rightarrow> side \<Rightarrow> order option"
    and reduce :: "'b \<Rightarrow> order_id \<Rightarrow> quantity \<Rightarrow> 'b"
  assumes front_queue: "invar b \<Longrightarrow> front b s = (case queue b s of [] \<Rightarrow> None | r # _ \<Rightarrow> Some r)"
    and queue_open: "invar b \<Longrightarrow> all_open (queue b s)"
    and reduce_invar: "invar b \<Longrightarrow> queue b s = r # rs \<Longrightarrow> 0 < sint f \<Longrightarrow> sint f \<le> sint (o_remaining r) \<Longrightarrow>
      invar (reduce b (o_id r) f) \<and> config (reduce b (o_id r) f) = config b"
    and reduce_queue: "invar b \<Longrightarrow> queue b s = r # rs \<Longrightarrow> 0 < sint f \<Longrightarrow> sint f \<le> sint (o_remaining r) \<Longrightarrow>
      queue (reduce b (o_id r) f) s =
        (if f = o_remaining r then rs else r\<lparr>o_remaining := o_remaining r - f\<rparr> # rs)"
    and reduce_other: "invar b \<Longrightarrow> queue b s = r # rs \<Longrightarrow> 0 < sint f \<Longrightarrow> sint f \<le> sint (o_remaining r) \<Longrightarrow>
      t \<noteq> s \<Longrightarrow> queue (reduce b (o_id r) f) t = queue b t"
begin

text \<open>The runs of a loop that fills the front order of a side while quantity is left and the
  front price crosses.\<close>

inductive drains :: "side \<Rightarrow> (price \<Rightarrow> bool) \<Rightarrow> 'b \<Rightarrow> quantity \<Rightarrow> (order \<times> quantity) list \<Rightarrow> 'b \<Rightarrow> quantity \<Rightarrow> bool"
  for s C where
  stop: "sint q \<le> 0 \<or> front b s = None \<or> (\<exists>r. front b s = Some r \<and> \<not> C (o_price r)) \<Longrightarrow> drains s C b q [] b q"
| fill: "0 < sint q \<Longrightarrow> front b s = Some r \<Longrightarrow> C (o_price r) \<Longrightarrow> f = min_amount q (o_remaining r) \<Longrightarrow>
     drains s C (reduce b (o_id r) f) (q - f) fs b' q' \<Longrightarrow> drains s C b q ((r, f) # fs) b' q'"

text \<open>The loop ends, and its fills are the greedy allocation to the crossing orders.\<close>

lemma drains_greedy:
  fixes C :: "price \<Rightarrow> bool"
  assumes "invar b"
  defines "X \<equiv> \<lambda>r. C (o_price r)"
  shows "\<exists>b'. drains s C b q (greedy_fills q (takeWhile X (queue b s))) b' (unfilled q (takeWhile X (queue b s))) \<and>
    invar b' \<and> config b' = config b \<and>
    queue b' s = leftover q (takeWhile X (queue b s)) @ dropWhile X (queue b s) \<and>
    (\<forall>t. t \<noteq> s \<longrightarrow> queue b' t = queue b t)"
  using assms(1)
proof (induction "queue b s" arbitrary: b q)
  case Nil
  then have "drains s C b q [] b q" using front_queue [of b s] by (intro stop) (simp add: Nil.hyps [symmetric])
  then show ?case using Nil by (intro exI [of _ b]) (simp add: Nil.hyps [symmetric])
next
  case (Cons r rs)
  have front: "front b s = Some r" using front_queue [OF Cons.prems, of s] Cons.hyps(2) [symmetric] by simp
  have pos: "0 < sint (o_remaining r)" using queue_open [OF Cons.prems, of s] Cons.hyps(2) [symmetric] by simp
  show ?case
  proof (cases "sint q \<le> 0 \<or> \<not> X r")
    case True
    then have "drains s C b q [] b q" using front by (intro stop) (auto simp: X_def)
    then show ?thesis using True Cons.prems by (intro exI [of _ b]) (auto simp: Cons.hyps(2) [symmetric])
  next
    case False
    let ?f = "min_amount q (o_remaining r)"
    let ?b = "reduce b (o_id r) ?f"
    have f: "0 < sint ?f" "sint ?f \<le> sint (o_remaining r)" using False pos by (auto simp: min_amount_sint)
    note red = reduce_invar [OF Cons.prems Cons.hyps(2) [symmetric] f]
      reduce_queue [OF Cons.prems Cons.hyps(2) [symmetric] f] reduce_other [OF Cons.prems Cons.hyps(2) [symmetric] f]
    have step: "drains s C b q ((r, ?f) # fs) b' q'" if "drains s C ?b (q - ?f) fs b' q'" for fs b' q'
      using False that by (intro fill [OF _ front _ refl]) (auto simp: X_def)
    show ?thesis
    proof (cases "?f = o_remaining r")
      case True
      have "queue ?b s = rs" using red(2) True by simp
      from Cons.hyps(1) [OF this [symmetric], of "q - ?f"] red(1) this obtain b' where b':
        "drains s C ?b (q - ?f) (greedy_fills (q - ?f) (takeWhile X rs)) b' (unfilled (q - ?f) (takeWhile X rs))"
        "invar b'" "config b' = config b" "queue b' s = leftover (q - ?f) (takeWhile X rs) @ dropWhile X rs"
        "\<forall>t. t \<noteq> s \<longrightarrow> queue b' t = queue ?b t" by auto
      have "\<not> sint q < sint (o_remaining r)" using True by (auto simp: min_amount_def)
      then show ?thesis
        using step [OF b'(1)] b' red(3) False True
        by (intro exI [of _ b']) (simp add: Cons.hyps(2) [symmetric])
    next
      case part: False
      then have lt: "sint q < sint (o_remaining r)" and fq: "?f = q" by (auto simp: min_amount_def split: if_splits)
        (metis linorder_neqE sint_eq_iff_i64)
      have "drains s C ?b (q - ?f) [] ?b (q - ?f)" by (rule stop) (simp add: fq)
      from step [OF this] show ?thesis
        using red lt fq part False
        by (intro exI [of _ ?b]) (simp add: Cons.hyps(2) [symmetric])
    qed
  qed
qed

end

subsection \<open>The order book is a price-time book\<close>

definition book_config :: "'m order_book \<Rightarrow> nat \<times> nat \<times> price \<times> symbol_id" where
  "book_config b = (ob_num_levels b, ob_max_orders b, ob_base_price b, ob_symbol b)"

lemma same_config_iff: "same_config b b' \<longleftrightarrow> book_config b' = book_config b"
  by (auto simp: same_config_def book_config_def)

definition book_front :: "'m order_book \<Rightarrow> side \<Rightarrow> order option" where
  "book_front b s = (case side_best_index b s of None \<Rightarrow> None
     | Some i \<Rightarrow> map_option (\<lambda>p. n_order (nodes b ! p)) (front_at b s (price_at b i)))"

lemma book_front_priority:
  assumes inv: "book_inv H b"
  shows "book_front b s = (case priority_orders b s of [] \<Rightarrow> None | r # _ \<Rightarrow> Some r)"
proof (cases "side_best_index b s")
  case None
  then show ?thesis using side_best_index_None [OF inv, of s] by (simp add: book_front_def)
next
  case (Some i)
  obtain p ord rest where "front_at b s (price_at b i) = Some p" "n_order (nodes b ! p) = ord"
    "priority_orders b s = ord # rest" by (rule best_front [OF inv Some])
  with Some show ?thesis by (simp add: book_front_def)
qed

interpretation jane_book: priority_book "\<lambda>b. hash_map_spec H \<and> book_inv H b" book_config priority_orders
    book_front "\<lambda>b oid f. snd (reduce_quantity H b oid f)"
  for H :: "'m index_ops"
proof (unfold_locales, goal_cases)
  case (1 b s)
  then show ?case using book_front_priority by blast
next
  case (2 b s)
  then show ?case using priority_orders_ok(3) by (auto simp: all_open_def)
next
  case (3 b s r rs f)
  then show ?case using reduce_front_priority(1,2) [of H b s r rs f] by (simp add: same_config_iff)
next
  case (4 b s r rs f)
  then show ?case using reduce_front_priority(3) [of H b s r rs f] by simp
next
  case (5 b s r rs f t)
  then show ?case using reduce_front_priority(4) [of H b s r rs f t] by simp
qed

end
