(* ===== verification/Matching_Engine.thy ===== *)
theory Matching_Engine
  imports Fifo_Matching
begin

text \<open>
  \<open>matching/matching_engine.hpp\<close>: \<open>MatchingEngine\<close> decides whether an incoming order crosses
  the book and executes it against the resting liquidity.  The matching loop is a partial
  function into an option type: \<open>None\<close> stands for a loop that does not end and for the null
  dereference of an empty best level; under the invariant of the engine it is shown to be
  \<open>Some\<close>.
\<close>

subsection \<open>Data\<close>

record fill =
  f_match_id :: u64
  f_resting_order_id :: order_id
  f_resting_client_id :: client_id
  f_aggressor_order_id :: order_id
  f_aggressor_client_id :: client_id
  f_symbol :: symbol_id
  f_price :: price
  f_quantity :: quantity
  f_aggressor_side :: side
  f_resting_fully_filled :: bool

record new_order_result =
  nr_reject_reason :: reject_reason
  nr_fill_count :: nat
  nr_rested :: bool
  nr_remaining_after :: quantity

record cancel_result =
  cr_accepted :: bool

record replace_result =
  rr_accepted :: bool
  rr_reject_reason :: reject_reason
  rr_fill_count :: nat
  rr_rested :: bool
  rr_remaining_after :: quantity

record 'm engine =
  me_book :: "'m order_book"
  me_next_match_id :: u64

definition engine_init :: "'m index_ops \<Rightarrow> nat \<Rightarrow> nat \<Rightarrow> symbol_id \<Rightarrow> price \<Rightarrow> 'm engine" where
  "engine_init H num_levels max_orders symbol base_price =
     \<lparr>me_book = order_book_init H num_levels max_orders symbol base_price, me_next_match_id = 1\<rparr>"

subsection \<open>Operations\<close>

text \<open>The comparison both \<open>available_liquidity\<close> and \<open>match_against_book\<close> make of a limit with a
  price of the opposite side.\<close>

definition price_crosses :: "side \<Rightarrow> price \<Rightarrow> price \<Rightarrow> bool" where
  "price_crosses aggressor_side limit_price p =
     (if aggressor_side = Buy then sint limit_price \<ge> sint p else sint limit_price \<le> sint p)"

definition available_liquidity :: "'m order_book \<Rightarrow> side \<Rightarrow> bool \<Rightarrow> price \<Rightarrow> quantity \<Rightarrow> quantity" where
  "available_liquidity b aggressor_side is_market limit_price cap =
     for_each_level b (opposite aggressor_side)
       (\<lambda>level_price lvl total.
          if \<not> is_market \<and> \<not> price_crosses aggressor_side limit_price level_price then (False, total)
          else let total' = total + pl_total_quantity lvl in (sint total' < sint cap, total'))
       0"

partial_function (option) match_against_book ::
    "'m index_ops \<Rightarrow> 'm engine \<Rightarrow> order \<Rightarrow> fill list \<Rightarrow> ('m engine \<times> order \<times> fill list) option" where
  "match_against_book H e aggressor out_fills =
     (if sint (o_remaining aggressor) > 0 then
        case (if opposite (o_side aggressor) = Buy then best_bid (me_book e) else best_ask (me_book e)) of
          None \<Rightarrow> Some (e, aggressor, out_fills)
        | Some best \<Rightarrow>
            if o_type aggressor = Limit \<and> \<not> price_crosses (o_side aggressor) (o_price aggressor) best
            then Some (e, aggressor, out_fills)
            else (case front_at (me_book e) (opposite (o_side aggressor)) best of
                None \<Rightarrow> None
              | Some node \<Rightarrow>
                  let resting = n_order (nodes (me_book e) ! node);
                      fill_qty = min_amount (o_remaining aggressor) (o_remaining resting);
                      f = \<lparr>f_match_id = me_next_match_id e, f_resting_order_id = o_id resting,
                           f_resting_client_id = o_client resting, f_aggressor_order_id = o_id aggressor,
                           f_aggressor_client_id = o_client aggressor, f_symbol = o_symbol aggressor,
                           f_price = best, f_quantity = fill_qty, f_aggressor_side = o_side aggressor,
                           f_resting_fully_filled = (sint fill_qty = sint (o_remaining resting))\<rparr>
                  in match_against_book H
                       (e\<lparr>me_book := snd (reduce_quantity H (me_book e) (o_id resting) fill_qty),
                          me_next_match_id := me_next_match_id e + 1\<rparr>)
                       (aggressor\<lparr>o_remaining := o_remaining aggressor - fill_qty\<rparr>)
                       (out_fills @ [f]))
      else Some (e, aggressor, out_fills))"

definition submit ::
    "'m index_ops \<Rightarrow> 'm engine \<Rightarrow> order \<Rightarrow> fill list \<Rightarrow> (new_order_result \<times> 'm engine \<times> fill list) option" where
  "submit H e ord0 out_fills =
     (let rejected = (\<lambda>r. Some (\<lparr>nr_reject_reason = r, nr_fill_count = 0, nr_rested = False,
                                nr_remaining_after = o_quantity ord0\<rparr>, e, out_fills))
      in if o_symbol ord0 \<noteq> ob_symbol (me_book e) then rejected UnknownSymbol
         else if sint (o_quantity ord0) \<le> 0 then rejected RejInvalidQuantity
         else
           let ord = ord0\<lparr>o_remaining := o_quantity ord0\<rparr>
           in if o_tif ord = FOK \<and>
                 sint (available_liquidity (me_book e) (o_side ord) (o_type ord = Market)
                         (o_price ord) (o_quantity ord)) < sint (o_quantity ord)
              then rejected FokNotFillable
              else (case match_against_book H e ord out_fills of
                  None \<Rightarrow> None
                | Some (e1, ord1, out1) \<Rightarrow>
                    let fill_count = length out1 - length out_fills
                    in if sint (o_remaining ord1) > 0 \<and> o_type ord1 = Limit \<and> o_tif ord1 = Day
                       then (case book_add H (me_book e1) ord1 of
                           (Inr _, b2) \<Rightarrow>
                             Some (\<lparr>nr_reject_reason = NoReject, nr_fill_count = fill_count,
                                    nr_rested = True, nr_remaining_after = o_remaining ord1\<rparr>,
                                   e1\<lparr>me_book := b2\<rparr>, out1)
                         | (Inl _, b2) \<Rightarrow>
                             Some (\<lparr>nr_reject_reason = BookCapacityExceeded, nr_fill_count = fill_count,
                                    nr_rested = False, nr_remaining_after = o_remaining ord1\<rparr>,
                                   e1\<lparr>me_book := b2\<rparr>, out1))
                       else Some (\<lparr>nr_reject_reason = NoReject, nr_fill_count = fill_count,
                                   nr_rested = False, nr_remaining_after = o_remaining ord1\<rparr>, e1, out1)))"

definition engine_cancel :: "'m index_ops \<Rightarrow> 'm engine \<Rightarrow> order_id \<Rightarrow> cancel_result \<times> 'm engine" where
  "engine_cancel H e oid =
     (case book_cancel H (me_book e) oid of
        (r, b) \<Rightarrow> (\<lparr>cr_accepted = (case r of Inr _ \<Rightarrow> True | Inl _ \<Rightarrow> False)\<rparr>, e\<lparr>me_book := b\<rparr>))"

definition engine_replace ::
    "'m index_ops \<Rightarrow> 'm engine \<Rightarrow> order_id \<Rightarrow> price \<Rightarrow> quantity \<Rightarrow> seq_no \<Rightarrow> nanos \<Rightarrow> fill list \<Rightarrow>
       (replace_result \<times> 'm engine \<times> fill list) option" where
  "engine_replace H e oid new_price new_quantity new_sequence new_timestamp out_fills =
     (let rejected = (\<lambda>r. Some (\<lparr>rr_accepted = False, rr_reject_reason = r, rr_fill_count = 0,
                                rr_rested = False, rr_remaining_after = 0\<rparr>, e, out_fills))
      in case book_find H (me_book e) oid of
           None \<Rightarrow> rejected UnknownOrder
         | Some existing \<Rightarrow>
             if sint new_quantity \<le> 0 then rejected RejInvalidQuantity
             else if index_of (me_book e) new_price = None then rejected InvalidPrice
             else
               let updated = (n_order (nodes (me_book e) ! existing))
                     \<lparr>o_price := new_price, o_quantity := new_quantity, o_remaining := new_quantity,
                      o_sequence := new_sequence, o_timestamp := new_timestamp\<rparr>;
                   e1 = e\<lparr>me_book := snd (book_cancel H (me_book e) oid)\<rparr>
               in (case submit H e1 updated out_fills of
                     None \<Rightarrow> None
                   | Some (submitted, e2, out2) \<Rightarrow>
                       Some (\<lparr>rr_accepted = (nr_reject_reason submitted = NoReject),
                              rr_reject_reason = nr_reject_reason submitted,
                              rr_fill_count = nr_fill_count submitted, rr_rested = nr_rested submitted,
                              rr_remaining_after = nr_remaining_after submitted\<rparr>, e2, out2)))"

end
