(* ===== verification/Matching_Spec.thy ===== *)
theory Matching_Spec
  imports Matching_Engine
begin

text \<open>
  Correctness of the matching engine.  The matching loop is shown to terminate and to compute
  the greedy allocation of \<open>Fifo_Matching\<close> over the crossing orders in price-time priority;
  from this follow what \<open>submit\<close> and \<open>replace\<close> return on every branch and that they keep the
  invariant of the engine: a well-formed book that is never crossed.
\<close>

subsection \<open>The matching loop\<close>

fun fills_of :: "order \<Rightarrow> u64 \<Rightarrow> (order \<times> quantity) list \<Rightarrow> fill list" where
  "fills_of agg m [] = []"
| "fills_of agg m ((r, q) # fs) =
     \<lparr>f_match_id = m, f_resting_order_id = o_id r, f_resting_client_id = o_client r,
      f_aggressor_order_id = o_id agg, f_aggressor_client_id = o_client agg, f_symbol = o_symbol agg,
      f_price = o_price r, f_quantity = q, f_aggressor_side = o_side agg,
      f_resting_fully_filled = (q = o_remaining r)\<rparr> # fills_of agg (m + 1) fs"

lemma length_fills_of [simp]: "length (fills_of agg m fs) = length fs"
  by (induction fs arbitrary: m) auto

lemma fills_of_remaining [simp]: "fills_of (agg\<lparr>o_remaining := q\<rparr>) m fs = fills_of agg m fs"
  by (induction fs arbitrary: m) auto

text \<open>Whether an incoming order may trade at a price of the opposite side.\<close>

definition acceptable :: "order \<Rightarrow> price \<Rightarrow> bool" where
  "acceptable agg p \<longleftrightarrow> o_type agg = Market \<or> price_crosses (o_side agg) (o_price agg) p"

lemma acceptable_remaining [simp]: "acceptable (agg\<lparr>o_remaining := q\<rparr>) = acceptable agg"
  by (simp add: acceptable_def fun_eq_iff)

lemma best_of_opposite:
  assumes inv: "book_inv H b"
  shows "(if s = Buy then best_bid b else best_ask b) = map_option o_price (book_front b s)"
proof (cases "side_best_index b s")
  case None
  then show ?thesis by (simp add: best_price_side book_front_def)
next
  case (Some i)
  obtain p ord rest where "front_at b s (price_at b i) = Some p" "n_order (nodes b ! p) = ord"
    "priority_orders b s = ord # rest" "ord \<in> set (book_orders b s i)"
    by (rule best_front [OF inv Some])
  with Some book_orders_ok(5) [OF inv] show ?thesis by (simp add: best_price_side book_front_def)
qed

lemma front_at_front:
  assumes inv: "book_inv H b" and front: "book_front b s = Some r"
  obtains p where "front_at b s (o_price r) = Some p" "n_order (nodes b ! p) = r"
proof -
  from front obtain i where i: "side_best_index b s = Some i"
    by (auto simp: book_front_def split: option.splits)
  obtain p ord rest where p: "front_at b s (price_at b i) = Some p" "n_order (nodes b ! p) = ord"
    "ord \<in> set (book_orders b s i)" by (rule best_front [OF inv i])
  then have "ord = r" using front i by (simp add: book_front_def)
  with that [of p] p book_orders_ok(5) [OF inv p(3)] show thesis by simp
qed

lemma not_acceptable_iff:
  "o_type agg = Limit \<and> \<not> price_crosses (o_side agg) (o_price agg) p \<longleftrightarrow> \<not> acceptable agg p"
  by (cases "o_type agg") (simp_all add: acceptable_def)

text \<open>One iteration of the loop, on a well-formed book.\<close>

lemma match_step:
  assumes inv: "book_inv H (me_book e)"
  shows "match_against_book H e agg out =
    (if sint (o_remaining agg) \<le> 0 then Some (e, agg, out)
     else case book_front (me_book e) (opposite (o_side agg)) of
       None \<Rightarrow> Some (e, agg, out)
     | Some r \<Rightarrow> if \<not> acceptable agg (o_price r) then Some (e, agg, out)
         else let f = min_amount (o_remaining agg) (o_remaining r) in
           match_against_book H
             (e\<lparr>me_book := snd (reduce_quantity H (me_book e) (o_id r) f), me_next_match_id := me_next_match_id e + 1\<rparr>)
             (agg\<lparr>o_remaining := o_remaining agg - f\<rparr>)
             (out @ fills_of agg (me_next_match_id e) [(r, f)]))"
proof (cases "book_front (me_book e) (opposite (o_side agg))")
  case None
  show ?thesis
    by (subst match_against_book.simps) (simp only: best_of_opposite [OF inv] None, simp)
next
  case (Some r)
  obtain p where p: "front_at (me_book e) (opposite (o_side agg)) (o_price r) = Some p"
    "n_order (nodes (me_book e) ! p) = r" by (rule front_at_front [OF inv Some])
  show ?thesis
    by (subst match_against_book.simps)
      (simp only: best_of_opposite [OF inv] Some option.map option.case not_acceptable_iff p,
       simp add: sint_eq_iff_i64)
qed

lemma match_of_drains:
  assumes "jane_book.drains H s C b q fs b' q'"
    and "hash_map_spec H" "book_inv H b" "me_book e = b" "o_remaining agg = q"
      "s = opposite (o_side agg)" "C = acceptable agg"
  shows "match_against_book H e agg out = Some
    (e\<lparr>me_book := b', me_next_match_id := me_next_match_id e + of_nat (length fs)\<rparr>,
     agg\<lparr>o_remaining := q'\<rparr>, out @ fills_of agg (me_next_match_id e) fs)"
  using assms
proof (induction arbitrary: e agg out rule: jane_book.drains.induct)
  case (stop q b)
  then have "match_against_book H e agg out = Some (e, agg, out)"
    using match_step [of H e agg out] by (auto split: option.splits)
  then show ?case using stop.prems by simp
next
  case (fill q b r f fs b' q')
  obtain rs where rs: "priority_orders b s = r # rs"
    using book_front_priority [OF fill.prems(2), of s] fill.hyps(2) by (auto split: list.splits)
  have pos: "0 < sint (o_remaining r)" using priority_orders_ok(3) [OF fill.prems(2), of r s] rs by simp
  have f: "0 < sint f" "sint f \<le> sint (o_remaining r)" using fill.hyps pos by (auto simp: min_amount_sint)
  let ?e = "e\<lparr>me_book := snd (reduce_quantity H b (o_id r) f), me_next_match_id := me_next_match_id e + 1\<rparr>"
  let ?agg = "agg\<lparr>o_remaining := q - f\<rparr>"
  have "match_against_book H e agg out = match_against_book H ?e ?agg (out @ fills_of agg (me_next_match_id e) [(r, f)])"
    using fill.hyps fill.prems match_step [of H e agg out] by (simp add: Let_def)
  also have "\<dots> = Some (?e\<lparr>me_book := b', me_next_match_id := me_next_match_id ?e + of_nat (length fs)\<rparr>,
     ?agg\<lparr>o_remaining := q'\<rparr>,
     (out @ fills_of agg (me_next_match_id e) [(r, f)]) @ fills_of ?agg (me_next_match_id ?e) fs)"
    using fill.prems reduce_front_priority(1) [OF fill.prems(1,2) rs f] by (intro fill.IH) simp_all
  finally show ?case by (simp add: add.assoc)
qed

text \<open>The loop ends and allocates the order greedily to the crossing orders.\<close>

definition crossing_orders :: "'m engine \<Rightarrow> order \<Rightarrow> order list" where
  "crossing_orders e agg =
     takeWhile (\<lambda>r. acceptable agg (o_price r)) (priority_orders (me_book e) (opposite (o_side agg)))"

lemma match_against_book_greedy:
  fixes e agg
  assumes H: "hash_map_spec H" and inv: "book_inv H (me_book e)"
  defines "s \<equiv> opposite (o_side agg)" and "rs \<equiv> crossing_orders e agg" and "q \<equiv> o_remaining agg"
  obtains b' where "match_against_book H e agg out = Some
      (e\<lparr>me_book := b', me_next_match_id := me_next_match_id e + of_nat (length (greedy_fills q rs))\<rparr>,
       agg\<lparr>o_remaining := unfilled q rs\<rparr>, out @ fills_of agg (me_next_match_id e) (greedy_fills q rs))"
    "book_inv H b'" "same_config (me_book e) b'"
    "priority_orders b' s = leftover q rs @
       dropWhile (\<lambda>r. acceptable agg (o_price r)) (priority_orders (me_book e) s)"
    "priority_orders b' (o_side agg) = priority_orders (me_book e) (o_side agg)"
proof -
  obtain b' where b': "jane_book.drains H s (acceptable agg) (me_book e) q (greedy_fills q rs) b' (unfilled q rs)"
    "book_inv H b'" "book_config b' = book_config (me_book e)"
    "priority_orders b' s = leftover q rs @
       dropWhile (\<lambda>r. acceptable agg (o_price r)) (priority_orders (me_book e) s)"
    "\<forall>t. t \<noteq> s \<longrightarrow> priority_orders b' t = priority_orders (me_book e) t"
    using jane_book.drains_greedy [of H "me_book e" s "acceptable agg" q] H inv
    unfolding rs_def crossing_orders_def s_def by blast
  show thesis
  proof (rule that)
    show "match_against_book H e agg out = Some
      (e\<lparr>me_book := b', me_next_match_id := me_next_match_id e + of_nat (length (greedy_fills q rs))\<rparr>,
       agg\<lparr>o_remaining := unfilled q rs\<rparr>, out @ fills_of agg (me_next_match_id e) (greedy_fills q rs))"
      by (rule match_of_drains [OF b'(1) H inv]) (simp_all add: q_def s_def)
    show "same_config (me_book e) b'" using b'(3) by (simp add: same_config_iff)
    show "priority_orders b' (o_side agg) = priority_orders (me_book e) (o_side agg)"
      using b'(5) opposite_neq [of "o_side agg"] by (auto simp: s_def)
  qed (fact b'(2), fact b'(4))
qed

subsection \<open>The invariant of the engine\<close>

definition uncrossed :: "'m order_book \<Rightarrow> bool" where
  "uncrossed b \<longleftrightarrow> (\<forall>x \<in> set (priority_orders b Buy). \<forall>y \<in> set (priority_orders b Sell).
     sint (o_price x) < sint (o_price y))"

definition resting_ok :: "symbol_id \<Rightarrow> order list \<Rightarrow> bool" where
  "resting_ok symbol xs \<longleftrightarrow> (\<forall>x \<in> set xs. o_symbol x = symbol \<and> o_tif x = Day \<and>
     sint (o_remaining x) \<le> sint (o_quantity x))"

definition engine_inv :: "'m index_ops \<Rightarrow> 'm engine \<Rightarrow> bool" where
  "engine_inv H e \<longleftrightarrow> hash_map_spec H \<and> book_inv H (me_book e) \<and> uncrossed (me_book e) \<and>
     (\<forall>s. resting_ok (ob_symbol (me_book e)) (priority_orders (me_book e) s))"

lemma engine_invD:
  assumes "engine_inv H e"
  shows "hash_map_spec H" "book_inv H (me_book e)" "uncrossed (me_book e)"
    "resting_ok (ob_symbol (me_book e)) (priority_orders (me_book e) s)"
  using assms by (simp_all add: engine_inv_def)

text \<open>Prices get worse along a side, so the crossing orders are a prefix.\<close>

lemma acceptable_antimono:
  "acceptable agg (o_price y) \<Longrightarrow> \<not> better_price (opposite (o_side agg)) (o_price y) (o_price x) \<Longrightarrow>
     acceptable agg (o_price x)"
  by (cases "o_side agg") (auto simp: acceptable_def price_crosses_def better_price_def)

lemma dropWhile_not_acceptable:
  assumes "in_priority (opposite (o_side agg)) xs" "y \<in> set (dropWhile (\<lambda>r. acceptable agg (o_price r)) xs)"
  shows "\<not> acceptable agg (o_price y)"
  using assms
proof (induction xs)
  case (Cons x xs)
  show ?case
  proof (cases "acceptable agg (o_price x)")
    case False
    then have "\<not> acceptable agg (o_price z)" if "z \<in> set xs" for z
      using that Cons.prems(1) acceptable_antimono [of agg z x] by (auto simp: in_priority_def)
    moreover have "y = x \<or> y \<in> set xs" using Cons.prems(2) False by simp
    ultimately show ?thesis using False by blast
  next
    case True
    then show ?thesis using Cons.prems by (intro Cons.IH) (simp_all add: in_priority_def)
  qed
qed simp

lemma crossing_orders_filter:
  assumes "book_inv H (me_book e)"
  shows "crossing_orders e agg =
    filter (\<lambda>r. acceptable agg (o_price r)) (priority_orders (me_book e) (opposite (o_side agg)))"
proof -
  let ?X = "\<lambda>r. acceptable agg (o_price r)" and ?Q = "priority_orders (me_book e) (opposite (o_side agg))"
  have "filter ?X (dropWhile ?X ?Q) = []"
    using dropWhile_not_acceptable [OF priority_orders_sorted [OF assms], of _ agg] unfolding filter_empty_conv by blast
  moreover have "filter ?X (takeWhile ?X ?Q) = takeWhile ?X ?Q" unfolding filter_id_conv using set_takeWhileD [of _ ?X ?Q] by blast
  moreover have "filter ?X ?Q = filter ?X (takeWhile ?X ?Q) @ filter ?X (dropWhile ?X ?Q)"
    unfolding filter_append [symmetric] takeWhile_dropWhile_id ..
  ultimately show ?thesis by (simp add: crossing_orders_def)
qed

lemma crossing_orders_open:
  assumes "book_inv H (me_book e)"
  shows "all_open (crossing_orders e agg)"
  using priority_orders_ok(3) [OF assms] by (auto simp: all_open_def crossing_orders_def dest!: set_takeWhileD)

lemma leftover_from:
  assumes "x \<in> set (leftover q rs)" "all_open rs" "0 \<le> sint q"
  shows "\<exists>y \<in> set rs. o_price x = o_price y \<and> o_symbol x = o_symbol y \<and> o_tif x = o_tif y \<and>
    o_id x = o_id y \<and> o_quantity x = o_quantity y \<and> sint (o_remaining x) \<le> sint (o_remaining y)"
  using assms
proof (induction rs arbitrary: q)
  case (Cons r rs)
  show ?case
  proof (cases "sint q \<le> 0 \<or> sint q < sint (o_remaining r)")
    case True
    then have "x = r \<or> x \<in> set rs \<or> (0 < sint q \<and> sint q < sint (o_remaining r) \<and> x = r\<lparr>o_remaining := o_remaining r - q\<rparr>)"
      using Cons.prems(1) by (auto split: if_splits)
    then show ?thesis using sint_minus_within [of q "o_remaining r"] by auto
  next
    case False
    then have "x \<in> set (leftover (q - o_remaining r) rs)" "0 \<le> sint (q - o_remaining r)"
      using Cons.prems sint_minus_within [of "o_remaining r" q] by auto
    from Cons.IH [OF this(1) _ this(2)] Cons.prems(2) show ?thesis by auto
  qed
qed simp

lemma length_leftover: "length (leftover q rs) \<le> length rs"
  by (induction rs arbitrary: q) (auto simp: le_Suc_eq)

lemma engine_inv_sub:
  assumes inv: "engine_inv H e" and "book_inv H b'" and cfg: "same_config (me_book e) b'"
    and sub: "\<And>t x. x \<in> set (priority_orders b' t) \<Longrightarrow> \<exists>y \<in> set (priority_orders (me_book e) t).
      o_price x = o_price y \<and> o_symbol x = o_symbol y \<and> o_tif x = o_tif y \<and>
      o_id x = o_id y \<and> o_quantity x = o_quantity y \<and> sint (o_remaining x) \<le> sint (o_remaining y)"
  shows "engine_inv H (e\<lparr>me_book := b', me_next_match_id := m\<rparr>)"
proof -
  have "uncrossed b'"
    unfolding uncrossed_def
  proof (intro ballI)
    fix x y assume "x \<in> set (priority_orders b' Buy)" "y \<in> set (priority_orders b' Sell)"
    with sub obtain x' y' where "x' \<in> set (priority_orders (me_book e) Buy)" "o_price x = o_price x'"
      "y' \<in> set (priority_orders (me_book e) Sell)" "o_price y = o_price y'" by metis
    then show "sint (o_price x) < sint (o_price y)" using engine_invD(3) [OF inv] by (simp add: uncrossed_def)
  qed
  moreover have "resting_ok (ob_symbol b') (priority_orders b' t)" for t
    unfolding resting_ok_def
  proof (intro ballI)
    fix x assume "x \<in> set (priority_orders b' t)"
    from sub [OF this] show "o_symbol x = ob_symbol b' \<and> o_tif x = Day \<and> sint (o_remaining x) \<le> sint (o_quantity x)"
      using engine_invD(4) [OF inv, of t] cfg by (fastforce simp: resting_ok_def same_config_def)
  qed
  ultimately show ?thesis using assms(2) engine_invD(1) [OF inv] by (simp add: engine_inv_def)
qed

lemma match_result_from:
  assumes inv: "book_inv H (me_book e)" and q: "0 \<le> sint q"
    and opp: "priority_orders b' (opposite (o_side agg)) = leftover q (crossing_orders e agg) @
       dropWhile (\<lambda>r. acceptable agg (o_price r)) (priority_orders (me_book e) (opposite (o_side agg)))"
    and own: "priority_orders b' (o_side agg) = priority_orders (me_book e) (o_side agg)"
    and x: "x \<in> set (priority_orders b' t)"
  shows "\<exists>y \<in> set (priority_orders (me_book e) t).
      o_price x = o_price y \<and> o_symbol x = o_symbol y \<and> o_tif x = o_tif y \<and>
      o_id x = o_id y \<and> o_quantity x = o_quantity y \<and> sint (o_remaining x) \<le> sint (o_remaining y)"
proof (cases "t = o_side agg")
  case True
  then show ?thesis using x own by auto
next
  case False
  then have t: "t = opposite (o_side agg)" by (cases t; cases "o_side agg") simp_all
  with x opp consider "x \<in> set (leftover q (crossing_orders e agg))"
    | "x \<in> set (dropWhile (\<lambda>r. acceptable agg (o_price r)) (priority_orders (me_book e) t))" by auto
  then show ?thesis
  proof cases
    case 1
    from leftover_from [OF 1 crossing_orders_open [OF inv] q] show ?thesis
      using t set_takeWhileD by (fastforce simp: crossing_orders_def)
  next
    case 2
    then show ?thesis using set_dropWhileD by fastforce
  qed
qed

lemma engine_inv_add:
  assumes inv: "engine_inv H e" and ok: "add_outcome (me_book e) ord = Inr oid"
    and fresh: "o_symbol ord = ob_symbol (me_book e)" "o_tif ord = Day" "sint (o_remaining ord) \<le> sint (o_quantity ord)"
    and apart: "\<And>y. y \<in> set (priority_orders (me_book e) (opposite (o_side ord))) \<Longrightarrow>
      \<not> price_crosses (o_side ord) (o_price ord) (o_price y)"
  shows "engine_inv H (e\<lparr>me_book := snd (book_add H (me_book e) ord)\<rparr>)"
proof -
  note H = engine_invD(1) [OF inv] and bk = engine_invD(2) [OF inv]
  let ?b = "snd (book_add H (me_book e) ord)"
  have prio: "set (priority_orders ?b s) =
      (if s = o_side ord then insert ord (set (priority_orders (me_book e) s)) else set (priority_orders (me_book e) s))" for s
    by (simp add: book_add_priority [OF H bk ok])
  have sym: "ob_symbol ?b = ob_symbol (me_book e)" using book_add_spec(5) [OF H bk] by (simp add: same_config_def)
  have "uncrossed ?b"
    using engine_invD(3) [OF inv] apart unfolding uncrossed_def prio
    by (cases "o_side ord") (auto simp: price_crosses_def not_le)
  moreover have "resting_ok (ob_symbol ?b) (priority_orders ?b t)" for t
    using engine_invD(4) [OF inv, of t] fresh unfolding resting_ok_def prio sym by auto
  ultimately show ?thesis using book_add_spec(2) [OF H bk] H by (simp add: engine_inv_def)
qed

subsection \<open>Submitting an order\<close>

text \<open>The order is admitted to matching: it is for this book, has a positive quantity, and is not a
  fill-or-kill order the book cannot fill.\<close>

definition admitted :: "'m engine \<Rightarrow> order \<Rightarrow> bool" where
  "admitted e ord \<longleftrightarrow> o_symbol ord = ob_symbol (me_book e) \<and> 0 < sint (o_quantity ord) \<and>
     (o_tif ord = FOK \<longrightarrow> sint (o_quantity ord) \<le> sint (available_liquidity (me_book e) (o_side ord)
        (o_type ord = Market) (o_price ord) (o_quantity ord)))"

definition submit_fills :: "'m engine \<Rightarrow> order \<Rightarrow> fill list" where
  "submit_fills e ord = fills_of ord (me_next_match_id e) (greedy_fills (o_quantity ord) (crossing_orders e ord))"

definition submit_remaining :: "'m engine \<Rightarrow> order \<Rightarrow> quantity" where
  "submit_remaining e ord = unfilled (o_quantity ord) (crossing_orders e ord)"

definition entry_reject :: "'m engine \<Rightarrow> order \<Rightarrow> reject_reason" where
  "entry_reject e ord = (if o_symbol ord \<noteq> ob_symbol (me_book e) then UnknownSymbol
     else if sint (o_quantity ord) \<le> 0 then RejInvalidQuantity else FokNotFillable)"

lemma submit_not_admitted:
  assumes "\<not> admitted e ord"
  shows "submit H e ord out = Some (\<lparr>nr_reject_reason = entry_reject e ord, nr_fill_count = 0,
      nr_rested = False, nr_remaining_after = o_quantity ord\<rparr>, e, out)"
proof -
  consider "o_symbol ord \<noteq> ob_symbol (me_book e)" | "o_symbol ord = ob_symbol (me_book e)" "sint (o_quantity ord) \<le> 0"
    | "o_symbol ord = ob_symbol (me_book e)" "0 < sint (o_quantity ord)" "o_tif ord = FOK"
      "sint (available_liquidity (me_book e) (o_side ord) (o_type ord = Market) (o_price ord) (o_quantity ord))
        < sint (o_quantity ord)"
    using assms unfolding admitted_def by linarith
  then show ?thesis by cases (simp_all add: submit_def entry_reject_def Let_def)
qed

text \<open>What follows the matching loop: the remainder rests or is dropped.\<close>

definition settle :: "'m index_ops \<Rightarrow> 'm engine \<Rightarrow> order \<Rightarrow> fill list \<Rightarrow> fill list \<Rightarrow>
    new_order_result \<times> 'm engine \<times> fill list" where
  "settle H e1 ord out fs =
     (let rests = (0 < sint (o_remaining ord) \<and> o_type ord = Limit \<and> o_tif ord = Day);
          added = book_add H (me_book e1) ord
      in (\<lparr>nr_reject_reason = (if rests \<and> isl (fst added) then BookCapacityExceeded else NoReject),
           nr_fill_count = length fs, nr_rested = (rests \<and> \<not> isl (fst added)),
           nr_remaining_after = o_remaining ord\<rparr>,
          if rests then e1\<lparr>me_book := snd added\<rparr> else e1, out @ fs))"

lemma crossing_orders_remaining [simp]: "crossing_orders e (ord\<lparr>o_remaining := q\<rparr>) = crossing_orders e ord"
  by (simp add: crossing_orders_def)

lemma submit_matched:
  assumes inv: "engine_inv H e" and adm: "admitted e ord"
  obtains e1 where "engine_inv H e1" "same_config (me_book e) (me_book e1)"
    "me_next_match_id e1 = me_next_match_id e + of_nat (length (submit_fills e ord))"
    "priority_orders (me_book e1) (opposite (o_side ord)) =
       leftover (o_quantity ord) (crossing_orders e ord) @
       dropWhile (\<lambda>r. acceptable ord (o_price r)) (priority_orders (me_book e) (opposite (o_side ord)))"
    "priority_orders (me_book e1) (o_side ord) = priority_orders (me_book e) (o_side ord)"
    "submit H e ord out = Some (settle H e1 (ord\<lparr>o_remaining := submit_remaining e ord\<rparr>) out (submit_fills e ord))"
proof -
  note H = engine_invD(1) [OF inv] and bk = engine_invD(2) [OF inv]
  let ?ord = "ord\<lparr>o_remaining := o_quantity ord\<rparr>"
  obtain b' where m: "match_against_book H e ?ord out = Some
      (e\<lparr>me_book := b', me_next_match_id := me_next_match_id e + of_nat (length (submit_fills e ord))\<rparr>,
       ord\<lparr>o_remaining := submit_remaining e ord\<rparr>, out @ submit_fills e ord)"
    "book_inv H b'" "same_config (me_book e) b'"
    "priority_orders b' (opposite (o_side ord)) = leftover (o_quantity ord) (crossing_orders e ord) @
       dropWhile (\<lambda>r. acceptable ord (o_price r)) (priority_orders (me_book e) (opposite (o_side ord)))"
    "priority_orders b' (o_side ord) = priority_orders (me_book e) (o_side ord)"
    using match_against_book_greedy [OF H bk, of ?ord out] by (auto simp: submit_fills_def submit_remaining_def)
  let ?e1 = "e\<lparr>me_book := b', me_next_match_id := me_next_match_id e + of_nat (length (submit_fills e ord))\<rparr>"
  have "0 \<le> sint (o_quantity ord)" using adm by (simp add: admitted_def)
  from match_result_from [OF bk this m(4,5)] have "engine_inv H ?e1"
    by (rule engine_inv_sub [OF inv m(2,3)])
  moreover have "submit H e ord out = Some (settle H ?e1 (ord\<lparr>o_remaining := submit_remaining e ord\<rparr>) out (submit_fills e ord))"
    using adm m(1)
    by (auto simp: submit_def admitted_def settle_def Let_def not_less not_le split: prod.split sum.split)
  ultimately show thesis using that [of ?e1] m(3,4,5) by simp
qed

text \<open>Only a limit order that no longer crosses rests, so the book stays uncrossed.\<close>

lemma residual_apart:
  assumes inv: "engine_inv H e" and adm: "admitted e ord" and rest: "0 < sint (submit_remaining e ord)"
    and limit: "o_type ord = Limit"
    and opp: "priority_orders b1 (opposite (o_side ord)) = leftover (o_quantity ord) (crossing_orders e ord) @
       dropWhile (\<lambda>r. acceptable ord (o_price r)) (priority_orders (me_book e) (opposite (o_side ord)))"
    and y: "y \<in> set (priority_orders b1 (opposite (o_side ord)))"
  shows "\<not> price_crosses (o_side ord) (o_price ord) (o_price y)"
proof -
  note bk = engine_invD(2) [OF inv]
  have "leftover (o_quantity ord) (crossing_orders e ord) = []"
    using leftover_empty [OF crossing_orders_open [OF bk, of ord]] adm rest
    by (simp add: admitted_def submit_remaining_def)
  with y opp have "y \<in> set (dropWhile (\<lambda>r. acceptable ord (o_price r)) (priority_orders (me_book e) (opposite (o_side ord))))"
    by simp
  from dropWhile_not_acceptable [OF priority_orders_sorted [OF bk] this] limit show ?thesis
    by (simp add: acceptable_def)
qed

lemma submit_remaining_bounds:
  assumes inv: "book_inv H (me_book e)" and q: "0 < sint (o_quantity ord)"
  shows "sint (submit_remaining e ord) = max 0 (sint (o_quantity ord) - open_quantity (crossing_orders e ord))"
    "0 \<le> sint (submit_remaining e ord)" "sint (submit_remaining e ord) \<le> sint (o_quantity ord)"
proof -
  note ok = crossing_orders_open [OF inv, of ord]
  show "sint (submit_remaining e ord) = max 0 (sint (o_quantity ord) - open_quantity (crossing_orders e ord))"
    using unfilled_sint [OF ok, of "o_quantity ord"] q by (simp add: submit_remaining_def)
  then show "0 \<le> sint (submit_remaining e ord)" "sint (submit_remaining e ord) \<le> sint (o_quantity ord)"
    using open_quantity_nonneg [OF ok] q by simp_all
qed

lemma match_result_counts:
  assumes inv: "book_inv H (me_book e)" and inv1: "book_inv H b1" and q: "0 \<le> sint q"
    and opp: "priority_orders b1 (opposite (o_side ord)) = leftover q (crossing_orders e ord) @
       dropWhile (\<lambda>r. acceptable ord (o_price r)) (priority_orders (me_book e) (opposite (o_side ord)))"
    and own: "priority_orders b1 (o_side ord) = priority_orders (me_book e) (o_side ord)"
  shows "resting_ids (book_orders b1) \<subseteq> resting_ids (book_orders (me_book e))"
    "ob_order_count b1 \<le> ob_order_count (me_book e)"
proof -
  show "resting_ids (book_orders b1) \<subseteq> resting_ids (book_orders (me_book e))"
    unfolding resting_ids_priority [OF inv] resting_ids_priority [OF inv1]
    using match_result_from [OF inv q opp own] by (auto simp: image_iff)
  let ?Q = "priority_orders (me_book e) (opposite (o_side ord))" and ?X = "\<lambda>r. acceptable ord (o_price r)"
  have "length (takeWhile ?X ?Q) + length (dropWhile ?X ?Q) = length ?Q"
    by (metis length_append takeWhile_dropWhile_id)
  then have "length (priority_orders b1 (opposite (o_side ord))) \<le> length ?Q"
    using length_leftover [of q "crossing_orders e ord"] opp by (simp add: crossing_orders_def)
  then show "ob_order_count b1 \<le> ob_order_count (me_book e)"
    using own by (cases "o_side ord") (simp_all add: order_count_priority [OF inv] order_count_priority [OF inv1])
qed

text \<open>\<open>submit\<close> always returns, and keeps the invariant.\<close>

lemma submit_total:
  assumes inv: "engine_inv H e"
  shows "\<exists>r e'. submit H e ord out = Some (r, e', out @ (if admitted e ord then submit_fills e ord else [])) \<and>
    engine_inv H e' \<and> same_config (me_book e) (me_book e') \<and>
    nr_fill_count r = length (if admitted e ord then submit_fills e ord else []) \<and>
    nr_remaining_after r = (if admitted e ord then submit_remaining e ord else o_quantity ord)"
proof (cases "admitted e ord")
  case False
  then show ?thesis using submit_not_admitted [OF False, of H out] inv by simp
next
  case True
  obtain e1 where e1: "engine_inv H e1" "same_config (me_book e) (me_book e1)"
    "priority_orders (me_book e1) (opposite (o_side ord)) = leftover (o_quantity ord) (crossing_orders e ord) @
       dropWhile (\<lambda>r. acceptable ord (o_price r)) (priority_orders (me_book e) (opposite (o_side ord)))"
    "submit H e ord out = Some (settle H e1 (ord\<lparr>o_remaining := submit_remaining e ord\<rparr>) out (submit_fills e ord))"
    by (rule submit_matched [OF inv True, of out])
  let ?res = "ord\<lparr>o_remaining := submit_remaining e ord\<rparr>"
  show ?thesis
  proof (cases "0 < sint (submit_remaining e ord) \<and> o_type ord = Limit \<and> o_tif ord = Day")
    case False
    then have "settle H e1 ?res out (submit_fills e ord) = (\<lparr>nr_reject_reason = NoReject,
        nr_fill_count = length (submit_fills e ord), nr_rested = False,
        nr_remaining_after = submit_remaining e ord\<rparr>, e1, out @ submit_fills e ord)"
      by (auto simp: settle_def Let_def)
    then show ?thesis using e1 True by auto
  next
    case rest: True
    note a = book_add_spec [OF engine_invD(1,2) [OF e1(1)], of ?res]
    have cfg: "same_config (me_book e) (snd (book_add H (me_book e1) ?res))"
      by (rule same_config_trans [OF e1(2) a(5)])
    have "engine_inv H (e1\<lparr>me_book := snd (book_add H (me_book e1) ?res)\<rparr>)"
    proof (cases "add_outcome (me_book e1) ?res")
      case (Inl err)
      then show ?thesis using a(3) [OF Inl] e1(1) by simp
    next
      case (Inr oid)
      show ?thesis
      proof (rule engine_inv_add [OF e1(1) Inr])
        show "o_symbol ?res = ob_symbol (me_book e1)" using True e1(2) by (simp add: admitted_def same_config_def)
        show "o_tif ?res = Day" using rest by simp
        show "sint (o_remaining ?res) \<le> sint (o_quantity ?res)"
          using submit_remaining_bounds(3) [OF engine_invD(2) [OF inv]] True by (simp add: admitted_def)
        show "\<not> price_crosses (o_side ?res) (o_price ?res) (o_price y)"
          if "y \<in> set (priority_orders (me_book e1) (opposite (o_side ?res)))" for y
          using residual_apart [OF inv True _ _ e1(3)] that rest by simp
      qed
    qed
    with cfg rest True e1(4) show ?thesis by (simp add: settle_def Let_def)
  qed
qed

end
