(* ===== verification/Matching_Props.thy ===== *)
theory Matching_Props
  imports Matching_Spec
begin

text \<open>
  Cancel and replace on the matching engine, the fill-or-kill pre-check, and the properties of
  the engine.
\<close>

subsection \<open>Cancel and replace\<close>

lemma engine_cancel_inv:
  assumes inv: "engine_inv H e"
  shows "engine_inv H (e\<lparr>me_book := snd (book_cancel H (me_book e) oid)\<rparr>)"
proof -
  note H = engine_invD(1) [OF inv] and bk = engine_invD(2) [OF inv]
  have "engine_inv H (e\<lparr>me_book := snd (book_cancel H (me_book e) oid), me_next_match_id := me_next_match_id e\<rparr>)"
    by (rule engine_inv_sub [OF inv book_cancel_spec(2,4) [OF H bk]])
      (auto simp: book_cancel_priority [OF H bk])
  then show ?thesis by simp
qed

lemma found_resting:
  assumes inv: "engine_inv H e" and oid: "oid \<in> resting_ids (book_orders (me_book e))"
  obtains p s where "book_find H (me_book e) oid = Some p" "o_id (n_order (nodes (me_book e) ! p)) = oid"
    "n_order (nodes (me_book e) ! p) \<in> set (priority_orders (me_book e) s)"
proof -
  note bk = engine_invD(2) [OF inv]
  obtain p where p: "book_find H (me_book e) oid = Some p" using book_find_None [OF bk, of oid] oid by blast
  obtain s i where "n_order (nodes (me_book e) ! p) \<in> set (book_orders (me_book e) s i)"
    "o_id (n_order (nodes (me_book e) ! p)) = oid" by (rule book_find_spec [OF bk p])
  then show thesis using that [OF p] by (auto simp: set_priority_orders [OF bk])
qed

text \<open>A valid replace of a resting order is a cancel followed by a submit that cannot be rejected.\<close>

lemma submit_accepts:
  assumes inv: "engine_inv H e" and adm: "admitted e ord" and limit: "o_type ord = Limit"
    and new: "o_id ord \<notin> resting_ids (book_orders (me_book e))"
    and room: "ob_order_count (me_book e) < ob_max_orders (me_book e)"
    and price: "index_of (me_book e) (o_price ord) \<noteq> None"
  obtains r e' where "submit H e ord out = Some (r, e', out @ submit_fills e ord)" "engine_inv H e'"
    "nr_reject_reason r = NoReject" "nr_fill_count r = length (submit_fills e ord)"
    "nr_rested r = (0 < sint (submit_remaining e ord) \<and> o_tif ord = Day)"
    "nr_remaining_after r = submit_remaining e ord"
proof -
  note bk = engine_invD(2) [OF inv]
  obtain e1 where e1: "engine_inv H e1" "same_config (me_book e) (me_book e1)"
    "priority_orders (me_book e1) (opposite (o_side ord)) = leftover (o_quantity ord) (crossing_orders e ord) @
       dropWhile (\<lambda>r. acceptable ord (o_price r)) (priority_orders (me_book e) (opposite (o_side ord)))"
    "priority_orders (me_book e1) (o_side ord) = priority_orders (me_book e) (o_side ord)"
    "submit H e ord out = Some (settle H e1 (ord\<lparr>o_remaining := submit_remaining e ord\<rparr>) out (submit_fills e ord))"
    by (rule submit_matched [OF inv adm, of out])
  let ?res = "ord\<lparr>o_remaining := submit_remaining e ord\<rparr>"
  have q: "0 \<le> sint (o_quantity ord)" using adm by (simp add: admitted_def)
  note c = match_result_counts [OF bk engine_invD(2) [OF e1(1)] q e1(3,4)]
  have "add_outcome (me_book e1) ?res = Inr (o_id ord)" if "0 < sint (submit_remaining e ord)"
    using that limit new room price c e1(2) same_config_index_of [OF e1(2)]
    by (auto simp: add_outcome_def same_config_def)
  then have ok: "\<not> isl (fst (book_add H (me_book e1) ?res))" if "0 < sint (submit_remaining e ord)"
    using that book_add_spec(1) [OF engine_invD(1,2) [OF e1(1)], of ?res] by simp
  obtain r e' where r: "submit H e ord out = Some (r, e', out @ submit_fills e ord)" "engine_inv H e'"
    using submit_total [OF inv, of ord out] adm by auto
  show thesis
    by (rule that [OF r]) (use r(1) e1(5) ok limit in \<open>auto simp: settle_def Let_def\<close>)
qed

lemma engine_replace_spec:
  fixes seq :: seq_no and ts :: nanos
  assumes inv: "engine_inv H e" and oid: "oid \<in> resting_ids (book_orders (me_book e))"
    and qty: "0 < sint qty" and price: "index_of (me_book e) price \<noteq> None"
  defines "e1 \<equiv> e\<lparr>me_book := snd (book_cancel H (me_book e) oid)\<rparr>"
  obtains ord s r e' where "ord \<in> set (priority_orders (me_book e) s)" "o_id ord = oid"
    "engine_replace H e oid price qty seq ts out =
       Some (r, e', out @ submit_fills e1 (replaced_order ord price qty seq ts))"
    "engine_inv H e'" "rr_accepted r" "rr_reject_reason r = NoReject"
    "rr_rested r = (0 < sint (submit_remaining e1 (replaced_order ord price qty seq ts)))"
    "rr_remaining_after r = submit_remaining e1 (replaced_order ord price qty seq ts)"
    "rr_fill_count r = length (submit_fills e1 (replaced_order ord price qty seq ts))"
proof -
  note H = engine_invD(1) [OF inv] and bk = engine_invD(2) [OF inv]
  obtain p s where p: "book_find H (me_book e) oid = Some p" "o_id (n_order (nodes (me_book e) ! p)) = oid"
    "n_order (nodes (me_book e) ! p) \<in> set (priority_orders (me_book e) s)" by (rule found_resting [OF inv oid])
  let ?ord = "n_order (nodes (me_book e) ! p)"
  let ?upd = "replaced_order ?ord price qty seq ts"
  note c = book_cancel_spec [OF H bk, of oid]
  have inv1: "engine_inv H e1" unfolding e1_def by (rule engine_cancel_inv [OF inv])
  have day: "o_symbol ?ord = ob_symbol (me_book e)" "o_tif ?ord = Day"
    using engine_invD(4) [OF inv, of s] p(3) by (auto simp: resting_ok_def)
  have adm: "admitted e1 ?upd"
    using day qty c(4) by (simp add: admitted_def replaced_order_def e1_def same_config_def)
  have tif: "o_tif ?upd = Day" using day by (simp add: replaced_order_def)
  obtain r e' where r: "submit H e1 ?upd out = Some (r, e', out @ submit_fills e1 ?upd)" "engine_inv H e'"
    "nr_reject_reason r = NoReject" "nr_fill_count r = length (submit_fills e1 ?upd)"
    "nr_rested r = (0 < sint (submit_remaining e1 ?upd) \<and> o_tif ?upd = Day)"
    "nr_remaining_after r = submit_remaining e1 ?upd"
  proof (rule submit_accepts [OF inv1 adm, of out])
    show "o_type ?upd = Limit" using priority_orders_ok(2) [OF bk p(3)] by (simp add: replaced_order_def)
    show "o_id ?upd \<notin> resting_ids (book_orders (me_book e1))"
      using c(3) p(2) by (simp add: replaced_order_def e1_def spec_remove_ids)
    show "ob_order_count (me_book e1) < ob_max_orders (me_book e1)"
      using book_cancel_room [OF H bk oid] c(4) by (simp add: e1_def same_config_def)
    show "index_of (me_book e1) (o_price ?upd) \<noteq> None"
      using price same_config_index_of [OF c(4)] by (simp add: e1_def replaced_order_def)
  qed blast
  have "engine_replace H e oid price qty seq ts out = Some (\<lparr>rr_accepted = True, rr_reject_reason = NoReject,
      rr_fill_count = nr_fill_count r, rr_rested = nr_rested r, rr_remaining_after = nr_remaining_after r\<rparr>,
      e', out @ submit_fills e1 ?upd)"
    using p(1) qty price r(1,3) unfolding engine_replace_def replaced_order_def e1_def by (simp add: Let_def)
  from that [OF p(3,2) this r(2)] r(4,5,6) tif show thesis by simp
qed

subsection \<open>Both sides of the book after a submit\<close>

lemma submit_books:
  assumes inv: "engine_inv H e" and adm: "admitted e ord"
  obtains r e' where "submit H e ord out = Some (r, e', out @ submit_fills e ord)" "engine_inv H e'"
    "priority_orders (me_book e') (opposite (o_side ord)) = leftover (o_quantity ord) (crossing_orders e ord) @
       dropWhile (\<lambda>r. acceptable ord (o_price r)) (priority_orders (me_book e) (opposite (o_side ord)))"
    "priority_orders (me_book e') (o_side ord) = (if nr_rested r
       then insert_priority (o_side ord) (ord\<lparr>o_remaining := submit_remaining e ord\<rparr>) (priority_orders (me_book e) (o_side ord))
       else priority_orders (me_book e) (o_side ord))"
    "nr_rested r \<longrightarrow> nr_reject_reason r = NoReject"
    "nr_reject_reason r \<in> {NoReject, BookCapacityExceeded}"
    "\<not> nr_rested r \<and> nr_reject_reason r = NoReject \<longleftrightarrow>
       \<not> (0 < sint (submit_remaining e ord) \<and> o_type ord = Limit \<and> o_tif ord = Day)"
    "nr_remaining_after r = submit_remaining e ord"
proof -
  obtain e1 where e1: "engine_inv H e1"
    "priority_orders (me_book e1) (opposite (o_side ord)) = leftover (o_quantity ord) (crossing_orders e ord) @
       dropWhile (\<lambda>r. acceptable ord (o_price r)) (priority_orders (me_book e) (opposite (o_side ord)))"
    "priority_orders (me_book e1) (o_side ord) = priority_orders (me_book e) (o_side ord)"
    "submit H e ord out = Some (settle H e1 (ord\<lparr>o_remaining := submit_remaining e ord\<rparr>) out (submit_fills e ord))"
    by (rule submit_matched [OF inv adm, of out])
  obtain r e' where r: "submit H e ord out = Some (r, e', out @ submit_fills e ord)" "engine_inv H e'"
    using submit_total [OF inv, of ord out] adm by auto
  let ?res = "ord\<lparr>o_remaining := submit_remaining e ord\<rparr>"
  let ?rests = "0 < sint (submit_remaining e ord) \<and> o_type ord = Limit \<and> o_tif ord = Day"
  let ?added = "book_add H (me_book e1) ?res"
  have re: "nr_rested r = (?rests \<and> \<not> isl (fst ?added))"
    "nr_reject_reason r = (if ?rests \<and> isl (fst ?added) then BookCapacityExceeded else NoReject)"
    "nr_remaining_after r = submit_remaining e ord"
    "me_book e' = (if ?rests then snd ?added else me_book e1)"
    using r(1) e1(4) by (auto simp: settle_def Let_def)
  note a = book_add_spec(1,3) [OF engine_invD(1,2) [OF e1(1)], of ?res]
  have prio: "priority_orders (me_book e') s = (if nr_rested r \<and> s = o_side ord
      then insert_priority s ?res (priority_orders (me_book e1) s) else priority_orders (me_book e1) s)" for s
  proof (cases "?rests")
    case True
    then have m: "me_book e' = snd ?added" "nr_rested r \<longleftrightarrow> \<not> isl (fst ?added)"
      using re(1,4) by (simp_all only: simp_thms if_True)
    show ?thesis
    proof (cases "add_outcome (me_book e1) ?res")
      case (Inl err)
      then show ?thesis using m a by simp
    next
      case (Inr oid)
      then show ?thesis using m a(1) book_add_priority [OF engine_invD(1,2) [OF e1(1)] Inr, of s] by simp
    qed
  next
    case False
    then have "me_book e' = me_book e1" "\<not> nr_rested r" using re(1,4) by (simp_all only: simp_thms if_False)
    then show ?thesis by simp
  qed
  show thesis
    by (rule that [OF r]) (use prio e1(2,3) re opposite_neq in auto)
qed

text \<open>An order that crosses nothing, fits the book and may rest is queued in its place.\<close>

lemma submit_rests:
  assumes inv: "engine_inv H e" and adm: "admitted e ord" and ord: "o_type ord = Limit" "o_tif ord = Day"
    and cross: "crossing_orders e ord = []" and new: "o_id ord \<notin> resting_ids (book_orders (me_book e))"
    and room: "ob_order_count (me_book e) < ob_max_orders (me_book e)" and price: "index_of (me_book e) (o_price ord) \<noteq> None"
  obtains r e' where "submit H e ord out = Some (r, e', out)" "nr_rested r" "engine_inv H e'" "same_config (me_book e) (me_book e')"
    "priority_orders (me_book e') (o_side ord) =
      insert_priority (o_side ord) (ord\<lparr>o_remaining := o_quantity ord\<rparr>) (priority_orders (me_book e) (o_side ord))"
    "priority_orders (me_book e') (opposite (o_side ord)) = priority_orders (me_book e) (opposite (o_side ord))"
proof -
  have fills: "submit_fills e ord = []" "submit_remaining e ord = o_quantity ord"
    by (simp_all add: submit_fills_def submit_remaining_def cross)
  obtain r e' where r: "submit H e ord out = Some (r, e', out @ submit_fills e ord)"
    "nr_rested r = (0 < sint (submit_remaining e ord) \<and> o_tif ord = Day)"
    by (rule submit_accepts [OF inv adm ord(1) new room price])
  then have rested: "nr_rested r" using adm ord(2) by (simp add: fills admitted_def)
  have cfg: "same_config (me_book e) (me_book e')" using submit_total [OF inv, of ord out] r(1) by auto
  have drop: "dropWhile (\<lambda>r. acceptable ord (o_price r)) (priority_orders (me_book e) (opposite (o_side ord))) =
      priority_orders (me_book e) (opposite (o_side ord))"
    using cross takeWhile_dropWhile_id [of "\<lambda>r. acceptable ord (o_price r)" "priority_orders (me_book e) (opposite (o_side ord))"]
    by (simp add: crossing_orders_def)
  obtain r2 e2 where b: "submit H e ord out = Some (r2, e2, out @ submit_fills e ord)" "engine_inv H e2"
    "priority_orders (me_book e2) (opposite (o_side ord)) = leftover (o_quantity ord) (crossing_orders e ord) @
       dropWhile (\<lambda>r. acceptable ord (o_price r)) (priority_orders (me_book e) (opposite (o_side ord)))"
    "priority_orders (me_book e2) (o_side ord) = (if nr_rested r2
       then insert_priority (o_side ord) (ord\<lparr>o_remaining := submit_remaining e ord\<rparr>) (priority_orders (me_book e) (o_side ord))
       else priority_orders (me_book e) (o_side ord))"
    by (rule submit_books [OF inv adm])
  have "r2 = r" "e2 = e'" using r(1) b(1) by auto
  with r(1) rested cfg b(2-4) show ?thesis by (intro that [of r e']) (simp_all add: fills cross drop)
qed

subsection \<open>The fill-or-kill pre-check\<close>

text \<open>The cached quantity of a level is the open quantity of its orders, as long as that fits into
  64 bits.\<close>

lemma sint_sum_remaining:
  assumes "all_open rs" "open_quantity rs < 2 ^ 63"
  shows "sint (sum_list (map o_remaining rs)) = open_quantity rs"
  using assms
proof (induction rs)
  case (Cons r rs)
  have "0 \<le> open_quantity rs" using Cons.prems by (intro open_quantity_nonneg) simp
  then have "sint (o_remaining r + sum_list (map o_remaining rs)) = sint (o_remaining r) + open_quantity rs"
    using Cons by (subst sint_plus_i64) simp_all
  then show ?case by simp
qed simp

lemma level_open_quantity:
  assumes inv: "book_inv H b" and i: "i < ob_num_levels b" and fits: "open_quantity (book_orders b s i) < 2 ^ 63"
  shows "sint (pl_total_quantity (level_for b s i)) = open_quantity (book_orders b s i)"
proof -
  have "all_open (book_orders b s i)" using book_orders_ok(4) [OF inv] by (auto simp: all_open_def)
  from sint_sum_remaining [OF this fits] book_repD(10) [OF book_inv_rep [OF inv] i, of s] show ?thesis
    by (simp add: level_rep_def book_orders_def comp_def)
qed

text \<open>The walk stops early only once the requested quantity is covered.\<close>

lemma liquidity_walk:
  fixes X :: "price \<Rightarrow> bool"
  assumes inv: "book_inv H b" and lvls: "set L \<subseteq> {..<ob_num_levels b}"
    and fits: "sint t + open_quantity (concat (map (book_orders b s) L)) < 2 ^ 63"
    and t: "0 \<le> sint t" "sint t < sint cap"
  defines "visit \<equiv> \<lambda>i total. if \<not> X (price_at b i) then (False, total)
     else let total' = total + pl_total_quantity (level_for b s i) in (sint total' < sint cap, total')"
  shows "min (sint cap) (sint (visit_all visit L t)) =
    min (sint cap) (sint t + open_quantity (concat (map (book_orders b s) (takeWhile (\<lambda>i. X (price_at b i)) L))))"
  using lvls fits t
proof (induction L arbitrary: t)
  case (Cons i L)
  let ?rest = "concat (map (book_orders b s) L)" and ?front = "concat (map (book_orders b s) (takeWhile (\<lambda>i. X (price_at b i)) L))"
  have open': "all_open (book_orders b s j)" for j using book_orders_ok(4) [OF inv] by (auto simp: all_open_def)
  then have "all_open (concat (map (book_orders b s) M))" for M by (auto simp: all_open_def)
  then have nn: "0 \<le> open_quantity ?rest" "0 \<le> open_quantity ?front" "0 \<le> open_quantity (book_orders b s i)"
    by (intro open_quantity_nonneg; simp add: open')+
  have tot: "sint (pl_total_quantity (level_for b s i)) = open_quantity (book_orders b s i)"
    using Cons.prems nn by (intro level_open_quantity [OF inv]) auto
  have t': "sint (t + pl_total_quantity (level_for b s i)) = sint t + open_quantity (book_orders b s i)"
    using Cons.prems nn by (subst sint_plus_i64) (simp_all add: tot)
  show ?case
  proof (cases "X (price_at b i)")
    case True
    show ?thesis
    proof (cases "sint t + open_quantity (book_orders b s i) < sint cap")
      case lt: True
      then have "min (sint cap) (sint (visit_all visit L (t + pl_total_quantity (level_for b s i)))) =
        min (sint cap) (sint t + open_quantity (book_orders b s i) + open_quantity ?front)"
        using Cons.prems nn t' Cons.IH [of "t + pl_total_quantity (level_for b s i)"] by simp
      then show ?thesis using True lt t' by (simp add: visit_def add.assoc)
    qed (use True t' nn in \<open>simp add: visit_def\<close>)
  qed (simp add: visit_def)
qed simp

lemma takeWhile_levels:
  assumes "\<And>i x. i \<in> set L \<Longrightarrow> x \<in> set (f i) \<Longrightarrow> Y x \<longleftrightarrow> X i" "\<And>i. i \<in> set L \<Longrightarrow> f i \<noteq> []"
  shows "concat (map f (takeWhile X L)) = takeWhile Y (concat (map f L))"
  using assms
proof (induction L)
  case (Cons i L)
  show ?case
  proof (cases "X i")
    case True
    then have "\<forall>x \<in> set (f i). Y x" using Cons.prems(1) [of i] by auto
    then show ?thesis using Cons True by (simp add: takeWhile_append2)
  next
    case False
    obtain x xs where "f i = x # xs" using Cons.prems(2) [of i] by (cases "f i") simp_all
    with False show ?thesis using Cons.prems(1) [of i x] by simp
  qed
qed simp

lemma available_liquidity_spec:
  assumes inv: "book_inv H (me_book e)" and cap: "0 < sint cap"
    and fits: "open_quantity (priority_orders (me_book e) (opposite (o_side ord))) < 2 ^ 63"
  shows "sint cap \<le> sint (available_liquidity (me_book e) (o_side ord) (o_type ord = Market) (o_price ord) cap)
    \<longleftrightarrow> sint cap \<le> open_quantity (crossing_orders e ord)"
proof -
  let ?b = "me_book e" and ?s = "opposite (o_side ord)"
  let ?L = "occupied_levels ?b ?s"
  have lvls: "set ?L \<subseteq> {..<ob_num_levels ?b}" by (auto simp: occupied_levels_def)
  have "available_liquidity ?b (o_side ord) (o_type ord = Market) (o_price ord) cap =
    visit_all (\<lambda>i total. if \<not> acceptable ord (price_at ?b i) then (False, total)
      else let total' = total + pl_total_quantity (level_for ?b ?s i) in (sint total' < sint cap, total')) ?L 0"
    unfolding available_liquidity_def for_each_level_spec [OF inv] acceptable_def by (simp add: not_le)
  with liquidity_walk [OF inv lvls, of 0 ?s cap "acceptable ord"] cap fits
  have "min (sint cap) (sint (available_liquidity ?b (o_side ord) (o_type ord = Market) (o_price ord) cap)) =
    min (sint cap) (open_quantity (concat (map (book_orders ?b ?s) (takeWhile (\<lambda>i. acceptable ord (price_at ?b i)) ?L))))"
    by (simp add: priority_orders_occupied)
  also have "concat (map (book_orders ?b ?s) (takeWhile (\<lambda>i. acceptable ord (price_at ?b i)) ?L)) = crossing_orders e ord"
    unfolding crossing_orders_def priority_orders_occupied
    by (rule takeWhile_levels) (use book_orders_ok(5) [OF inv] in \<open>simp_all add: occupied_levels_def\<close>)
  finally show ?thesis by linarith
qed

subsection \<open>Price protection\<close>

lemma submit_fills_within_limit:
  assumes "engine_inv H e" "f \<in> set (submit_fills e ord)"
  shows "(\<exists>x \<in> set (priority_orders (me_book e) (opposite (o_side ord))).
      f_resting_order_id f = o_id x \<and> f_resting_client_id f = o_client x \<and> f_price f = o_price x \<and>
      0 < sint (f_quantity f) \<and> sint (f_quantity f) \<le> sint (o_remaining x)) \<and>
    (o_type ord = Limit \<longrightarrow> (if o_side ord = Buy then sint (f_price f) \<le> sint (o_price ord)
       else sint (o_price ord) \<le> sint (f_price f)))"
proof -
  note bk = engine_invD(2) [OF assms(1)]
  have greedy: "f \<in> set (fills_of ord m (greedy_fills q rs)) \<Longrightarrow> all_open rs \<Longrightarrow> \<exists>x \<in> set rs.
      f_resting_order_id f = o_id x \<and> f_resting_client_id f = o_client x \<and> f_price f = o_price x \<and>
      0 < sint (f_quantity f) \<and> sint (f_quantity f) \<le> sint (o_remaining x)" for m q rs
  proof (induction rs arbitrary: m q)
    case (Cons x rs)
    then show ?case by (cases "sint q \<le> 0") (auto simp: min_amount_sint)
  qed simp
  from greedy [OF assms(2) [unfolded submit_fills_def] crossing_orders_open [OF bk]] obtain x where
    x: "x \<in> set (crossing_orders e ord)" "f_resting_order_id f = o_id x" "f_resting_client_id f = o_client x"
    "f_price f = o_price x" "0 < sint (f_quantity f)" "sint (f_quantity f) \<le> sint (o_remaining x)" by blast
  then have "x \<in> set (priority_orders (me_book e) (opposite (o_side ord)))" "acceptable ord (o_price x)"
    by (auto simp: crossing_orders_filter [OF bk])
  with x show ?thesis by (auto simp: acceptable_def price_crosses_def)
qed

end
