(* ===== verification/Correctness.thy ===== *)
theory Correctness
  imports Matching_Props
begin

text \<open>
  \<open>correctness/invariants.hpp\<close>: \<open>check_book_invariants\<close>, the structural audit of a live book.
  The text of a violation is a constructor carrying the values the message prints.  The walk
  along a level's linked list is a partial function: \<open>None\<close> is a walk that does not end.
\<close>

datatype violation =
    CrossedBook price price
  | NonPositiveRemaining quantity price
  | WrongSide price
  | BrokenBackLink price
  | TailInconsistent price
  | TotalQuantityMismatch quantity quantity price
  | OrderCountMismatch u32 u32 price

partial_function (option) audit_fifo ::
    "node_heap \<Rightarrow> side \<Rightarrow> price \<Rightarrow> ptr \<Rightarrow> ptr \<Rightarrow> quantity \<Rightarrow> u32 \<Rightarrow> violation list \<Rightarrow>
       (ptr \<times> quantity \<times> u32 \<times> violation list) option" where
  "audit_fifo h s price node prev summed counted violations =
     (case node of
        None \<Rightarrow> Some (prev, summed, counted, violations)
      | Some n \<Rightarrow>
          let ord = n_order (h ! n);
              v1 = (if sint (o_remaining ord) \<le> 0
                    then violations @ [NonPositiveRemaining (o_remaining ord) price] else violations);
              v2 = (if o_side ord \<noteq> s then v1 @ [WrongSide price] else v1);
              v3 = (if n_prev (h ! n) \<noteq> prev then v2 @ [BrokenBackLink price] else v2)
          in audit_fifo h s price (n_next (h ! n)) (Some n) (summed + o_remaining ord) (counted + 1) v3)"

definition audit_level :: "node_heap \<Rightarrow> side \<Rightarrow> price \<Rightarrow> price_level \<Rightarrow> violation list \<Rightarrow> violation list option" where
  "audit_level h s price lvl violations =
     (case audit_fifo h s price (pl_head lvl) None 0 0 violations of
        None \<Rightarrow> None
      | Some (prev, summed, counted, v) \<Rightarrow>
          let v1 = (if pl_tail lvl \<noteq> prev then v @ [TailInconsistent price] else v);
              v2 = (if summed \<noteq> pl_total_quantity lvl
                    then v1 @ [TotalQuantityMismatch (pl_total_quantity lvl) summed price] else v1)
          in Some (if counted \<noteq> pl_order_count lvl
                   then v2 @ [OrderCountMismatch (pl_order_count lvl) counted price] else v2))"

definition audit_side :: "'m order_book \<Rightarrow> side \<Rightarrow> violation list option \<Rightarrow> violation list option" where
  "audit_side b s =
     for_each_level b s (\<lambda>price lvl st. case st of
         None \<Rightarrow> (False, None)
       | Some v \<Rightarrow> (case audit_level (nodes b) s price lvl v of None \<Rightarrow> (False, None) | Some v' \<Rightarrow> (True, Some v')))"

definition check_book_invariants :: "'m order_book \<Rightarrow> violation list option" where
  "check_book_invariants b =
     (let crossed = (case (best_bid b, best_ask b) of
            (Some bid, Some ask) \<Rightarrow> if sint bid \<ge> sint ask then [CrossedBook bid ask] else []
          | _ \<Rightarrow> [])
      in audit_side b Sell (audit_side b Buy (Some crossed)))"

subsection \<open>What the audit reports\<close>

lemma audit_fifo_dseg:
  assumes "dseg h prev node ps tail None"
    and "\<And>p. p \<in> set ps \<Longrightarrow> 0 < sint (node_remaining h p) \<and> o_side (n_order (h ! p)) = s"
  shows "audit_fifo h s price node prev summed counted v =
    Some (if ps = [] then prev else tail, summed + sum_list (map (node_remaining h) ps),
          counted + of_nat (length ps), v)"
  using assms
proof (induction ps arbitrary: prev node summed counted)
  case Nil
  then show ?case by (subst audit_fifo.simps) simp
next
  case (Cons p ps)
  then have p: "node = Some p" "n_prev (h ! p) = prev" "dseg h (Some p) (n_next (h ! p)) ps tail None" by auto
  have tail: "tail = Some p" if "ps = []" using p(3) that by simp
  have "audit_fifo h s price node prev summed counted v =
    audit_fifo h s price (n_next (h ! p)) (Some p) (summed + node_remaining h p) (counted + 1) v"
    using p Cons.prems(2) [of p] by (subst audit_fifo.simps) simp
  then show ?case using Cons.IH [OF p(3)] Cons.prems(2) tail by (simp add: add_ac)
qed

lemma audit_level_ok:
  assumes inv: "book_inv H b" and i: "i < ob_num_levels b"
  shows "audit_level (nodes b) s price (level_for b s i) v = Some v"
proof -
  note rep = book_inv_rep [OF inv]
  let ?ps = "book_queue b s i"
  have lvl: "level_rep (nodes b) (level_for b s i) ?ps" by (rule book_repD(10) [OF rep i])
  have ok: "0 < sint (node_remaining (nodes b) p) \<and> o_side (n_order (nodes b ! p)) = s" if "p \<in> set ?ps" for p
    using book_repD(7) [OF rep that] by (simp add: node_ok_def)
  have "audit_fifo (nodes b) s price (pl_head (level_for b s i)) None 0 0 v =
    Some (pl_tail (level_for b s i), pl_total_quantity (level_for b s i), pl_order_count (level_for b s i), v)"
    using audit_fifo_dseg [of "nodes b" None _ ?ps _ s price 0 0 v] lvl ok by (auto simp: level_rep_def)
  then show ?thesis by (simp add: audit_level_def)
qed

lemma audit_side_ok:
  assumes inv: "book_inv H b"
  shows "audit_side b s (Some v) = Some v"
proof -
  have "set L \<subseteq> {..<ob_num_levels b} \<Longrightarrow> visit_all (\<lambda>i st. case st of None \<Rightarrow> (False, None)
      | Some v \<Rightarrow> (case audit_level (nodes b) s (price_at b i) (level_for b s i) v of
          None \<Rightarrow> (False, None) | Some v' \<Rightarrow> (True, Some v'))) L (Some v) = Some v" for L
    by (induction L) (simp_all add: audit_level_ok [OF inv])
  from this [of "occupied_levels b s"] show ?thesis
    unfolding audit_side_def for_each_level_spec [OF inv] by (auto simp: occupied_levels_def)
qed

text \<open>The best prices decide whether the book is crossed.\<close>

lemma best_bid_front: "book_inv H b \<Longrightarrow> best_bid b = map_option o_price (book_front b Buy)"
  using best_of_opposite [of H b Buy] by simp

lemma best_ask_front: "book_inv H b \<Longrightarrow> best_ask b = map_option o_price (book_front b Sell)"
  using best_of_opposite [of H b Sell] by simp

lemma uncrossed_best:
  assumes inv: "book_inv H b"
  shows "uncrossed b \<longleftrightarrow> (case (best_bid b, best_ask b) of (Some bid, Some ask) \<Rightarrow> sint bid < sint ask | _ \<Rightarrow> True)"
proof (cases "priority_orders b Buy = [] \<or> priority_orders b Sell = []")
  case True
  then show ?thesis
    unfolding best_bid_front [OF inv] best_ask_front [OF inv] book_front_priority [OF inv]
    by (auto simp: uncrossed_def split: option.split)
next
  case False
  then obtain x xs y ys where q: "priority_orders b Buy = x # xs" "priority_orders b Sell = y # ys"
    by (meson list.exhaust)
  have "in_priority Buy (x # xs)" "in_priority Sell (y # ys)"
    using priority_orders_sorted [OF inv, of Buy] priority_orders_sorted [OF inv, of Sell] q by simp_all
  then have "\<forall>x' \<in> set (x # xs). sint (o_price x') \<le> sint (o_price x)"
    "\<forall>y' \<in> set (y # ys). sint (o_price y) \<le> sint (o_price y')"
    by (auto simp: in_priority_def better_price_def not_less)
  then have "uncrossed b \<longleftrightarrow> sint (o_price x) < sint (o_price y)"
    unfolding uncrossed_def q by fastforce
  then show ?thesis
    unfolding best_bid_front [OF inv] best_ask_front [OF inv] book_front_priority [OF inv] by (simp add: q)
qed

lemma check_book_invariants_eq:
  assumes inv: "book_inv H b"
  shows "check_book_invariants b = Some (case (best_bid b, best_ask b) of
      (Some bid, Some ask) \<Rightarrow> if sint bid \<ge> sint ask then [CrossedBook bid ask] else [] | _ \<Rightarrow> [])"
  by (simp add: check_book_invariants_def audit_side_ok [OF inv])

end
