(* ===== verification/Matching_Properties.thy ===== *)
theory Matching_Properties
  imports Correctness Book_Properties
begin

text \<open>
  The properties of the matching engine and of the structural audit, with instances on an
  engine over the concrete book of \<open>Book_Properties\<close>.
\<close>

subsection \<open>A concrete engine\<close>

definition demo_engine :: "demo_map engine" where
  "demo_engine = \<lparr>me_book = demo_two, me_next_match_id = 1\<rparr>"

lemma engine_init_inv:
  assumes "hash_map_spec H" "0 < max_orders" "max_orders \<le> kNone" "num_levels \<le> 2 ^ 63"
    "sint base + int num_levels \<le> 2 ^ 63"
  shows "engine_inv H (engine_init H num_levels max_orders symbol base)"
  using book_init_inv [OF assms, of symbol] assms(1)
  by (simp add: engine_inv_def engine_init_def uncrossed_def resting_ok_def)

lemma demo_engine_inv: "engine_inv fun_map demo_engine"
proof -
  have "resting_ok 1 (priority_orders demo_two s)" for s
    by (cases s) (simp_all add: demo_two_inv resting_ok_def demo_orders)
  then show ?thesis
    using demo_two_inv demo_two_config fun_map_spec
    by (simp add: engine_inv_def demo_engine_def uncrossed_def demo_orders)
qed

definition demo_buy :: "time_in_force \<Rightarrow> price \<Rightarrow> quantity \<Rightarrow> order" where
  "demo_buy tif price qty = (demo_order 13 9 Buy price qty)\<lparr>o_tif := tif\<rparr>"

lemma demo_admitted: "0 < sint qty \<Longrightarrow> tif \<noteq> FOK \<Longrightarrow> admitted demo_engine (demo_buy tif price qty)"
  by (simp add: admitted_def demo_engine_def demo_two_config demo_buy_def demo_order_def)

lemma demo_crossing:
  "sint price < 103 \<Longrightarrow> crossing_orders demo_engine (demo_buy tif price qty) = []"
  "103 \<le> sint price \<Longrightarrow> crossing_orders demo_engine (demo_buy tif price qty) = [demo_ask]"
  by (simp_all add: crossing_orders_def demo_engine_def demo_buy_def demo_two_inv acceptable_def price_crosses_def
      demo_order_def demo_ask_def)

subsection \<open>Properties\<close>

text \<open>C3: \<open>submit\<close> always returns and keeps the invariant of the engine: the book is well-formed and
  not crossed, and every resting order is a day order for this symbol.  An order that is not
  admitted (foreign symbol, non-positive quantity, unfillable fill-or-kill) changes nothing.\<close>

theorem submit_returns_and_preserves:
  assumes "engine_inv H e"
  shows "\<exists>r e' fills. submit H e ord out = Some (r, e', out @ fills) \<and> engine_inv H e' \<and>
    nr_fill_count r = length fills \<and> sint (o_quantity ord) = filled_total (map (\<lambda>f. (ord, f_quantity f)) fills) + sint (nr_remaining_after r) \<and>
    (\<not> admitted e ord \<longrightarrow> fills = [] \<and> e' = e \<and> nr_reject_reason r = entry_reject e ord)"
proof (cases "admitted e ord")
  case False
  then show ?thesis using submit_not_admitted [OF False, of H out] assms by simp
next
  case True
  have q: "0 < sint (o_quantity ord)" using True by (simp add: admitted_def)
  have ok: "all_open (crossing_orders e ord)" by (rule crossing_orders_open [OF engine_invD(2) [OF assms]])
  have fills: "filled_total (map (\<lambda>f. (ord, f_quantity f)) (fills_of ord m fs)) = filled_total fs" for m fs
    by (induction fs arbitrary: m) auto
  have "filled_total (map (\<lambda>f. (ord, f_quantity f)) (submit_fills e ord)) =
      min (sint (o_quantity ord)) (open_quantity (crossing_orders e ord))"
    using filled_total_greedy [OF ok, of "o_quantity ord"] q by (simp add: submit_fills_def fills)
  with submit_remaining_bounds(1) [OF engine_invD(2) [OF assms] q] submit_total [OF assms, of ord out] True
  show ?thesis by auto
qed

theorem submit_returns_and_preserves_witness:
  "engine_inv fun_map demo_engine \<and>
   (\<exists>r e' fills. submit fun_map demo_engine (demo_buy IOC 103 4) [] = Some (r, e', fills) \<and> engine_inv fun_map e' \<and>
      4 = filled_total (map (\<lambda>f. (demo_buy IOC 103 4, f_quantity f)) fills) + sint (nr_remaining_after r))"
proof -
  have "sint (o_quantity (demo_buy IOC 103 4)) = 4" by (simp add: demo_buy_def demo_order_def)
  with submit_returns_and_preserves [OF demo_engine_inv, of "demo_buy IOC 103 4" "[]"] demo_engine_inv
  show ?thesis by fastforce
qed

text \<open>C2: price-time priority.  The fills of an admitted order are the greedy allocation of its
  quantity to the resting orders it may trade with, best price first and oldest first within a
  price, each filled completely before the next; the match numbers are consecutive.\<close>

theorem submit_price_time_priority:
  assumes "engine_inv H e" "admitted e ord"
  shows "\<exists>r e'. submit H e ord out = Some (r, e', out @ fills_of ord (me_next_match_id e)
    (greedy_fills (o_quantity ord) (filter (\<lambda>x. acceptable ord (o_price x))
       (priority_orders (me_book e) (opposite (o_side ord))))))"
  using submit_total [OF assms(1), of ord out] assms(2) crossing_orders_filter [OF engine_invD(2) [OF assms(1)], of ord]
  by (auto simp: submit_fills_def)

theorem submit_price_time_priority_witness:
  "engine_inv fun_map demo_engine \<and> admitted demo_engine (demo_buy IOC 103 4) \<and>
   (\<exists>r e' f. submit fun_map demo_engine (demo_buy IOC 103 4) [] = Some (r, e', [f]) \<and>
      f_resting_order_id f = 12 \<and> f_quantity f = 3 \<and> f_price f = 103)"
proof -
  have "filter (\<lambda>x. acceptable (demo_buy IOC 103 4) (o_price x))
      (priority_orders (me_book demo_engine) (opposite (o_side (demo_buy IOC 103 4)))) = [demo_ask]"
    by (simp add: demo_engine_def demo_buy_def demo_two_inv acceptable_def price_crosses_def demo_orders)
  with submit_price_time_priority [OF demo_engine_inv demo_admitted [of 4 IOC 103], of "[]"] demo_engine_inv
    demo_admitted [of 4 IOC 103]
  show ?thesis by (auto simp: min_amount_def demo_buy_def demo_orders)
qed

text \<open>C6: the effect on the two sides of the book.  From the opposite side the orders that can trade
  are consumed from the front, the last one perhaps in part, and the side loses exactly what was
  filled.  A remainder of a day limit order is queued by price and time, unless the book refuses it,
  which is reported as a reject; any other remainder is dropped.  When nothing rests the own side is
  as it was.\<close>

theorem submit_book_effect:
  assumes "engine_inv H e" "admitted e ord"
  shows "\<exists>r e' fills. submit H e ord out = Some (r, e', out @ fills) \<and>
    open_quantity (priority_orders (me_book e) (opposite (o_side ord))) =
      open_quantity (priority_orders (me_book e') (opposite (o_side ord))) + (\<Sum>f \<leftarrow> fills. sint (f_quantity f)) \<and>
    priority_orders (me_book e') (opposite (o_side ord)) = leftover (o_quantity ord) (crossing_orders e ord) @
      dropWhile (\<lambda>x. acceptable ord (o_price x)) (priority_orders (me_book e) (opposite (o_side ord))) \<and>
    priority_orders (me_book e') (o_side ord) = (if nr_rested r
      then insert_priority (o_side ord) (ord\<lparr>o_remaining := nr_remaining_after r\<rparr>) (priority_orders (me_book e) (o_side ord))
      else priority_orders (me_book e) (o_side ord)) \<and>
    (nr_rested r \<or> nr_reject_reason r \<noteq> NoReject \<longleftrightarrow>
      0 < sint (nr_remaining_after r) \<and> o_type ord = Limit \<and> o_tif ord = Day)"
proof -
  let ?Q = "priority_orders (me_book e) (opposite (o_side ord))" and ?X = "\<lambda>r. acceptable ord (o_price r)"
  have q: "0 < sint (o_quantity ord)" using assms(2) by (simp add: admitted_def)
  note ok = crossing_orders_open [OF engine_invD(2) [OF assms(1)], of ord]
  have sum: "(\<Sum>f \<leftarrow> fills_of ord m fs. sint (f_quantity f)) = filled_total fs" for m fs
    by (induction fs arbitrary: m) auto
  have split: "open_quantity ?Q = open_quantity (crossing_orders e ord) + open_quantity (dropWhile ?X ?Q)"
    unfolding crossing_orders_def by (simp flip: open_quantity_simps(3))
  obtain r e' where r: "submit H e ord out = Some (r, e', out @ submit_fills e ord)"
    "priority_orders (me_book e') (opposite (o_side ord)) = leftover (o_quantity ord) (crossing_orders e ord) @ dropWhile ?X ?Q"
    "priority_orders (me_book e') (o_side ord) = (if nr_rested r
       then insert_priority (o_side ord) (ord\<lparr>o_remaining := submit_remaining e ord\<rparr>) (priority_orders (me_book e) (o_side ord))
       else priority_orders (me_book e) (o_side ord))"
    "nr_rested r \<longrightarrow> nr_reject_reason r = NoReject"
    "\<not> nr_rested r \<and> nr_reject_reason r = NoReject \<longleftrightarrow>
       \<not> (0 < sint (submit_remaining e ord) \<and> o_type ord = Limit \<and> o_tif ord = Day)"
    "nr_remaining_after r = submit_remaining e ord"
    by (rule submit_books [OF assms, of out])
  have "open_quantity ?Q = open_quantity (priority_orders (me_book e') (opposite (o_side ord))) +
      (\<Sum>f \<leftarrow> submit_fills e ord. sint (f_quantity f))"
    using open_quantity_leftover(1) [OF ok] filled_total_greedy [OF ok] q split r(2)
    by (simp add: submit_fills_def sum)
  with r show ?thesis by (intro exI [of _ r] exI [of _ e'] exI [of _ "submit_fills e ord"]) auto
qed

theorem submit_book_effect_witness:
  "engine_inv fun_map demo_engine \<and> admitted demo_engine (demo_buy IOC 103 2) \<and>
   (\<exists>r e' fills. submit fun_map demo_engine (demo_buy IOC 103 2) [] = Some (r, e', fills) \<and>
     3 = open_quantity (priority_orders (me_book e') Sell) + (\<Sum>f \<leftarrow> fills. sint (f_quantity f)) \<and>
     priority_orders (me_book e') Buy = [demo_bid])"
proof -
  have o: "o_side (demo_buy IOC 103 2) = Buy" "o_tif (demo_buy IOC 103 2) = IOC" by (simp_all add: demo_buy_def demo_order_def)
  have b: "priority_orders (me_book demo_engine) Buy = [demo_bid]" "open_quantity (priority_orders (me_book demo_engine) Sell) = 3"
    by (simp_all add: demo_engine_def demo_two_inv demo_ask_def demo_order_def)
  have adm: "admitted demo_engine (demo_buy IOC 103 2)" by (rule demo_admitted) simp_all
  from submit_book_effect [OF demo_engine_inv adm, of "[]"] obtain r e' fills where
    "submit fun_map demo_engine (demo_buy IOC 103 2) [] = Some (r, e', fills)"
    "3 = open_quantity (priority_orders (me_book e') Sell) + (\<Sum>f \<leftarrow> fills. sint (f_quantity f))"
    "priority_orders (me_book e') Buy = [demo_bid]"
    unfolding o opposite_simps b by fastforce
  with demo_engine_inv adm show ?thesis by blast
qed

text \<open>C9: fill-or-kill is all or nothing.  If the open quantity of the opposite side fits into 64
  bits, a fill-or-kill order is filled completely when the resting orders it may trade with cover
  it, and is otherwise rejected with the engine unchanged; in neither case does it rest.\<close>

theorem fok_all_or_nothing:
  assumes "engine_inv H e" "o_tif ord = FOK" "o_symbol ord = ob_symbol (me_book e)" "0 < sint (o_quantity ord)"
    "open_quantity (priority_orders (me_book e) (opposite (o_side ord))) < 2 ^ 63"
  shows "if sint (o_quantity ord) \<le> open_quantity (crossing_orders e ord)
    then \<exists>r e' fills. submit H e ord out = Some (r, e', out @ fills) \<and> nr_reject_reason r = NoReject \<and>
      nr_remaining_after r = 0 \<and> \<not> nr_rested r \<and> (\<Sum>f \<leftarrow> fills. sint (f_quantity f)) = sint (o_quantity ord)
    else submit H e ord out = Some (\<lparr>nr_reject_reason = FokNotFillable, nr_fill_count = 0, nr_rested = False,
      nr_remaining_after = o_quantity ord\<rparr>, e, out)"
proof (cases "sint (o_quantity ord) \<le> open_quantity (crossing_orders e ord)")
  case False
  note bk = engine_invD(2) [OF assms(1)]
  have "\<not> admitted e ord" using False assms available_liquidity_spec [OF bk assms(4,5)] by (simp add: admitted_def)
  from submit_not_admitted [OF this, of H out] False assms show ?thesis by (simp add: entry_reject_def)
next
  case True
  note bk = engine_invD(2) [OF assms(1)]
  note ok = crossing_orders_open [OF bk, of ord]
  have adm: "admitted e ord" using True assms available_liquidity_spec [OF bk assms(4,5)] by (simp add: admitted_def)
  have rem: "submit_remaining e ord = 0"
    using submit_remaining_bounds(1) [OF bk assms(4)] True sint_eq_iff_i64 [of "submit_remaining e ord" 0] by simp
  have sum: "(\<Sum>f \<leftarrow> fills_of ord m fs. sint (f_quantity f)) = filled_total fs" for m fs
    by (induction fs arbitrary: m) auto
  have "(\<Sum>f \<leftarrow> submit_fills e ord. sint (f_quantity f)) = sint (o_quantity ord)"
    using filled_total_greedy [OF ok, of "o_quantity ord"] assms(4) True by (simp add: submit_fills_def sum)
  moreover obtain r e' where "submit H e ord out = Some (r, e', out @ submit_fills e ord)"
    "nr_rested r \<longrightarrow> nr_reject_reason r = NoReject"
    "\<not> nr_rested r \<and> nr_reject_reason r = NoReject \<longleftrightarrow>
       \<not> (0 < sint (submit_remaining e ord) \<and> o_type ord = Limit \<and> o_tif ord = Day)"
    "nr_remaining_after r = submit_remaining e ord" by (rule submit_books [OF assms(1) adm, of out])
  ultimately show ?thesis using True rem assms(2) by auto
qed

theorem fok_all_or_nothing_witness:
  "engine_inv fun_map demo_engine \<and>
   (\<exists>r e' fills. submit fun_map demo_engine (demo_buy FOK 103 3) [] = Some (r, e', fills) \<and> nr_remaining_after r = 0) \<and>
   submit fun_map demo_engine (demo_buy FOK 103 4) [] = Some (\<lparr>nr_reject_reason = FokNotFillable, nr_fill_count = 0,
     nr_rested = False, nr_remaining_after = 4\<rparr>, demo_engine, [])"
proof -
  have o: "o_tif (demo_buy FOK 103 q) = FOK" "o_symbol (demo_buy FOK 103 q) = ob_symbol (me_book demo_engine)"
    "o_quantity (demo_buy FOK 103 q) = q" "o_side (demo_buy FOK 103 q) = Buy" for q
    by (simp_all add: demo_buy_def demo_order_def demo_engine_def demo_two_config)
  have b: "open_quantity (priority_orders (me_book demo_engine) Sell) = 3" "sint (o_remaining demo_ask) = 3"
    by (simp_all add: demo_engine_def demo_two_inv demo_ask_def demo_order_def)
  show ?thesis
    using fok_all_or_nothing [OF demo_engine_inv o(1,2), of 3 "[]"] fok_all_or_nothing [OF demo_engine_inv o(1,2), of 4 "[]"]
      demo_engine_inv by (auto simp: o(3,4) b demo_crossing)
qed

text \<open>Price protection.  Every fill is at the price of a resting order on the opposite side, for a
  positive quantity within that order's open quantity; a limit order never pays more than its
  limit when buying nor receives less when selling.\<close>

theorem fills_respect_limit:
  assumes "engine_inv H e" "admitted e ord" "submit H e ord out = Some (r, e', out @ fills)" "f \<in> set fills"
  shows "(\<exists>x \<in> set (priority_orders (me_book e) (opposite (o_side ord))).
      f_resting_order_id f = o_id x \<and> f_resting_client_id f = o_client x \<and> f_price f = o_price x \<and>
      0 < sint (f_quantity f) \<and> sint (f_quantity f) \<le> sint (o_remaining x)) \<and>
    (o_type ord = Limit \<longrightarrow> (if o_side ord = Buy then sint (f_price f) \<le> sint (o_price ord)
       else sint (o_price ord) \<le> sint (f_price f)))"
proof -
  have "fills = submit_fills e ord" using submit_total [OF assms(1), of ord out] assms(2,3) by auto
  then show ?thesis using submit_fills_within_limit [OF assms(1), of f ord] assms(4) by simp
qed

theorem fills_respect_limit_witness:
  "engine_inv fun_map demo_engine \<and> admitted demo_engine (demo_buy IOC 103 2) \<and>
   (\<exists>r e' f. submit fun_map demo_engine (demo_buy IOC 103 2) [] = Some (r, e', [] @ [f]) \<and> sint (f_price f) \<le> 103)"
proof -
  have adm: "admitted demo_engine (demo_buy IOC 103 2)" by (rule demo_admitted) simp_all
  have o: "o_quantity (demo_buy IOC 103 2) = 2" "o_price (demo_buy IOC 103 2) = 103" "o_side (demo_buy IOC 103 2) = Buy"
    "o_type (demo_buy IOC 103 2) = Limit" by (simp_all add: demo_buy_def demo_order_def)
  obtain f where f: "submit_fills demo_engine (demo_buy IOC 103 2) = [f]"
    by (simp add: submit_fills_def demo_crossing o)
  obtain r e' where r: "submit fun_map demo_engine (demo_buy IOC 103 2) [] = Some (r, e', [] @ [f])"
    using submit_total [OF demo_engine_inv, of "demo_buy IOC 103 2" "[]"] adm f by auto
  from fills_respect_limit [OF demo_engine_inv adm r, of f] r demo_engine_inv adm o show ?thesis by auto
qed

text \<open>A replace of a resting order to a price on the ladder and a positive quantity is always
  accepted, even when the book is full: the new terms are matched like a new order against the book
  without the old order, and what is left rests.\<close>

theorem replace_accepted:
  assumes "engine_inv H e" "oid \<in> resting_ids (book_orders (me_book e))" "0 < sint qty" "index_of (me_book e) price \<noteq> None"
  shows "\<exists>x s r e'. x \<in> set (priority_orders (me_book e) s) \<and> o_id x = oid \<and> engine_inv H e' \<and>
    engine_replace H e oid price qty seq ts out = Some (r, e', out @
      submit_fills (e\<lparr>me_book := snd (book_cancel H (me_book e) oid)\<rparr>) (replaced_order x price qty seq ts)) \<and>
    rr_accepted r \<and> (rr_rested r \<longleftrightarrow> 0 < sint (rr_remaining_after r))"
proof -
  obtain x s r e' where "x \<in> set (priority_orders (me_book e) s)" "o_id x = oid"
    "engine_replace H e oid price qty seq ts out = Some (r, e', out @
      submit_fills (e\<lparr>me_book := snd (book_cancel H (me_book e) oid)\<rparr>) (replaced_order x price qty seq ts))"
    "engine_inv H e'" "rr_accepted r"
    "rr_rested r = (0 < sint (submit_remaining (e\<lparr>me_book := snd (book_cancel H (me_book e) oid)\<rparr>) (replaced_order x price qty seq ts)))"
    "rr_remaining_after r = submit_remaining (e\<lparr>me_book := snd (book_cancel H (me_book e) oid)\<rparr>) (replaced_order x price qty seq ts)"
    by (rule engine_replace_spec [OF assms, of seq ts out])
  then show ?thesis by (intro exI [of _ x] exI [of _ s] exI [of _ r] exI [of _ e']) simp
qed

theorem replace_accepted_witness:
  "engine_inv fun_map demo_engine \<and> ob_order_count (me_book demo_engine) = ob_max_orders (me_book demo_engine) \<and>
   (\<exists>r e' fills. engine_replace fun_map demo_engine 11 102 9 20 1 [] = Some (r, e', fills) \<and> rr_accepted r)"
proof -
  have "11 \<in> resting_ids (book_orders (me_book demo_engine))"
    by (simp add: demo_engine_def resting_ids_priority [OF demo_two_inv(1)] demo_two_inv demo_orders)
  moreover have "index_of (me_book demo_engine) 102 \<noteq> None"
    by (simp add: demo_engine_def demo_index [OF demo_two_inv(2)])
  ultimately show ?thesis
    using replace_accepted [OF demo_engine_inv, of 11 9 102 20 1 "[]"] demo_engine_inv demo_two_config
    by (auto simp: demo_engine_def)
qed

text \<open>A day limit order off the price ladder that trades with nothing is rejected with
  \<open>BookCapacityExceeded\<close>, whether or not the book has room (the instance is an empty book).\<close>

theorem off_ladder_reported_as_capacity:
  assumes "engine_inv H e" "o_symbol ord = ob_symbol (me_book e)" "0 < sint (o_quantity ord)"
    "o_type ord = Limit" "o_tif ord = Day" "index_of (me_book e) (o_price ord) = None" "crossing_orders e ord = []"
  shows "\<exists>r e'. submit H e ord out = Some (r, e', out) \<and> nr_reject_reason r = BookCapacityExceeded \<and> \<not> nr_rested r"
proof -
  have adm: "admitted e ord" using assms by (simp add: admitted_def)
  have fs: "submit_fills e ord = []" "submit_remaining e ord = o_quantity ord"
    by (simp_all add: submit_fills_def submit_remaining_def assms(7))
  obtain e1 where e1: "engine_inv H e1" "same_config (me_book e) (me_book e1)"
    "submit H e ord out = Some (settle H e1 (ord\<lparr>o_remaining := submit_remaining e ord\<rparr>) out (submit_fills e ord))"
    by (rule submit_matched [OF assms(1) adm, of out])
  have "index_of (me_book e1) (o_price ord) = None" using same_config_index_of [OF e1(2)] assms(6) by simp
  then have "fst (book_add H (me_book e1) (ord\<lparr>o_remaining := o_quantity ord\<rparr>)) = Inl PriceOutOfRange"
    using assms(3,4) by (simp add: book_add_def)
  with e1(3) fs assms(3-5) show ?thesis by (simp add: settle_def Let_def)
qed

theorem off_ladder_reported_as_capacity_witness:
  "engine_inv fun_map (engine_init fun_map 4 2 1 100 :: demo_map engine) \<and>
   ob_order_count (me_book (engine_init fun_map 4 2 1 100 :: demo_map engine)) = 0 \<and>
   (\<exists>r e'. submit fun_map (engine_init fun_map 4 2 1 100 :: demo_map engine) (demo_buy Day 99 5) [] = Some (r, e', []) \<and>
     nr_reject_reason r = BookCapacityExceeded)"
proof -
  let ?e = "engine_init fun_map 4 2 1 100 :: demo_map engine"
  have inv: "engine_inv fun_map ?e" by (rule engine_init_inv [OF fun_map_spec]) (simp_all add: kNone_def)
  have b: "me_book ?e = demo_empty" by (simp add: engine_init_def demo_empty_def)
  have "crossing_orders ?e (demo_buy Day 99 5) = []" by (simp add: crossing_orders_def b demo_empty_inv)
  moreover have "index_of (me_book ?e) 99 = None" unfolding b by (rule demo_index(4)) simp
  ultimately show ?thesis
    using off_ladder_reported_as_capacity [OF inv, of "demo_buy Day 99 5" "[]"] inv order_count_priority [OF demo_empty_inv(1)]
    by (auto simp: b demo_empty_config demo_buy_def demo_order_def demo_empty_inv)
qed

text \<open>The audit \<open>check_book_invariants\<close> terminates on every well-formed book and reports exactly a
  crossed book; on the book of an engine it therefore reports nothing.\<close>

theorem audit_reports_crossing_only:
  assumes "book_inv H b"
  shows "(check_book_invariants b = Some [] \<longleftrightarrow> uncrossed b) \<and>
    (\<exists>vs. check_book_invariants b = Some vs \<and> (vs = [] \<or> (\<exists>bid ask. vs = [CrossedBook bid ask] \<and> sint ask \<le> sint bid)))"
  using check_book_invariants_eq [OF assms] uncrossed_best [OF assms] by (auto split: option.splits)

theorem audit_reports_crossing_only_witness:
  "book_inv fun_map demo_two \<and> check_book_invariants demo_two = Some []"
  using audit_reports_crossing_only [OF demo_two_inv(1)] demo_two_inv by (simp add: uncrossed_def demo_orders)

end
