(* ===== verification/Risk_Engine.thy ===== *)
theory Risk_Engine
  imports Core
begin

text \<open>
  \<open>risk/risk_engine.hpp\<close>: the pre-trade gate.  \<open>RiskEngine\<close> keeps one exposure per
  (client, symbol) account in the third-party hash map, a parameter as in the order book.
  The template parameter \<open>MaxAccounts\<close> only sizes the container and does not appear.
\<close>

unbundle bit_operations_syntax

record limits =
  lim_max_order_size :: quantity
  lim_max_position :: quantity
  lim_max_loss_per_client :: pnl

record client_exposure =
  ce_position :: quantity
  ce_cash_flow :: pnl
  ce_last_mark_price :: price

definition default_exposure :: client_exposure where
  "default_exposure = \<lparr>ce_position = 0, ce_cash_flow = 0, ce_last_mark_price = 0\<rparr>"

definition mark_to_market_pnl :: "client_exposure \<Rightarrow> pnl" where
  "mark_to_market_pnl x = ce_cash_flow x + ce_position x * ce_last_mark_price x"

record 'x risk_engine =
  re_limits :: limits
  re_kill_switch_engaged :: bool
  re_exposure :: 'x

type_synonym 'x exposure_ops = "(u64, client_exposure, 'x) hash_map_ops"

definition risk_engine_init :: "'x exposure_ops \<Rightarrow> limits \<Rightarrow> 'x risk_engine" where
  "risk_engine_init X lims = \<lparr>re_limits = lims, re_kill_switch_engaged = False, re_exposure = hm_empty X\<rparr>"

definition account_key :: "client_id \<Rightarrow> symbol_id \<Rightarrow> u64" where
  "account_key client symbol = push_bit 32 (ucast client) OR ucast symbol"

definition check_new_order :: "'x exposure_ops \<Rightarrow> 'x risk_engine \<Rightarrow> order \<Rightarrow> reject_reason" where
  "check_new_order X r ord =
     (if re_kill_switch_engaged r then RiskKillSwitch
      else if sint (o_quantity ord) > sint (lim_max_order_size (re_limits r)) then RiskMaxOrderSize
      else
        let it = hm_find X (re_exposure r) (account_key (o_client ord) (o_symbol ord));
            current_position = (case it of Some x \<Rightarrow> ce_position x | None \<Rightarrow> 0);
            delta = (if o_side ord = Buy then o_quantity ord else - o_quantity ord);
            prospective = current_position + delta
        in if sint prospective > sint (lim_max_position (re_limits r)) \<or>
              sint prospective < sint (- lim_max_position (re_limits r)) then RiskMaxPosition
           else (case it of
               Some x \<Rightarrow> if sint (mark_to_market_pnl x) < sint (lim_max_loss_per_client (re_limits r))
                         then RiskMaxLoss else NoReject
             | None \<Rightarrow> NoReject))"

definition record_fill ::
    "'x exposure_ops \<Rightarrow> 'x risk_engine \<Rightarrow> client_id \<Rightarrow> symbol_id \<Rightarrow> side \<Rightarrow> price \<Rightarrow> quantity \<Rightarrow> 'x risk_engine" where
  "record_fill X r client symbol s price quantity =
     (let key = account_key client symbol;
          x = (case hm_find X (re_exposure r) key of Some x \<Rightarrow> x | None \<Rightarrow> default_exposure);
          signed_qty = (if s = Buy then quantity else - quantity);
          proceeds = price * quantity
      in r\<lparr>re_exposure := hm_assign X (re_exposure r) key
            (x\<lparr>ce_position := ce_position x + signed_qty,
               ce_cash_flow := ce_cash_flow x + (if s = Sell then proceeds else - proceeds),
               ce_last_mark_price := price\<rparr>)\<rparr>)"

definition risk_position :: "'x exposure_ops \<Rightarrow> 'x risk_engine \<Rightarrow> client_id \<Rightarrow> symbol_id \<Rightarrow> quantity" where
  "risk_position X r client symbol =
     (case hm_find X (re_exposure r) (account_key client symbol) of Some x \<Rightarrow> ce_position x | None \<Rightarrow> 0)"

definition risk_pnl :: "'x exposure_ops \<Rightarrow> 'x risk_engine \<Rightarrow> client_id \<Rightarrow> symbol_id \<Rightarrow> pnl" where
  "risk_pnl X r client symbol =
     (case hm_find X (re_exposure r) (account_key client symbol) of Some x \<Rightarrow> mark_to_market_pnl x | None \<Rightarrow> 0)"

definition engage_kill_switch :: "'x risk_engine \<Rightarrow> 'x risk_engine" where
  "engage_kill_switch r = r\<lparr>re_kill_switch_engaged := True\<rparr>"

definition disengage_kill_switch :: "'x risk_engine \<Rightarrow> 'x risk_engine" where
  "disengage_kill_switch r = r\<lparr>re_kill_switch_engaged := False\<rparr>"

subsection \<open>Accounts\<close>

text \<open>The key keeps the client in the upper and the symbol in the lower half.\<close>

lemma account_key_halves:
  "ucast (account_key client symbol) = symbol" "ucast (drop_bit 32 (account_key client symbol)) = client"
proof -
  show "ucast (account_key client symbol) = symbol"
    by (rule bit_word_eqI) (simp add: account_key_def bit_simps)
  show "ucast (drop_bit 32 (account_key client symbol)) = client"
    by (rule bit_word_eqI) (auto simp: account_key_def bit_simps dest: bit_imp_le_length)
qed

lemma account_key_inject [simp]:
  "account_key c1 s1 = account_key c2 s2 \<longleftrightarrow> c1 = c2 \<and> s1 = s2"
  by (metis account_key_halves)

text \<open>The exposure of an account; an account that never traded has the default one.\<close>

definition exposure_of :: "'x exposure_ops \<Rightarrow> 'x risk_engine \<Rightarrow> client_id \<times> symbol_id \<Rightarrow> client_exposure" where
  "exposure_of X r a = (case hm_find X (re_exposure r) (account_key (fst a) (snd a)) of
     Some x \<Rightarrow> x | None \<Rightarrow> default_exposure)"

lemma risk_position_exposure: "risk_position X r c s = ce_position (exposure_of X r (c, s))"
  by (simp add: risk_position_def exposure_of_def default_exposure_def split: option.split)

lemma risk_pnl_exposure: "risk_pnl X r c s = mark_to_market_pnl (exposure_of X r (c, s))"
  by (simp add: risk_pnl_def exposure_of_def default_exposure_def mark_to_market_pnl_def split: option.split)

definition filled_exposure :: "side \<Rightarrow> price \<Rightarrow> quantity \<Rightarrow> client_exposure \<Rightarrow> client_exposure" where
  "filled_exposure s price quantity x =
     \<lparr>ce_position = ce_position x + (if s = Buy then quantity else - quantity),
      ce_cash_flow = ce_cash_flow x + (if s = Sell then price * quantity else - (price * quantity)),
      ce_last_mark_price = price\<rparr>"

lemma exposure_record_fill:
  assumes "hash_map_spec X"
  shows "exposure_of X (record_fill X r c s side price quantity) a =
    (if a = (c, s) then filled_exposure side price quantity (exposure_of X r a) else exposure_of X r a)"
  by (cases a) (auto simp: exposure_of_def record_fill_def Let_def filled_exposure_def
      hash_map_specD [OF assms] split: option.split)

text \<open>Both sides of a trade.\<close>

definition record_trade ::
    "'x exposure_ops \<Rightarrow> 'x risk_engine \<Rightarrow> client_id \<Rightarrow> client_id \<Rightarrow> symbol_id \<Rightarrow> price \<Rightarrow> quantity \<Rightarrow> 'x risk_engine" where
  "record_trade X r seller buyer symbol price quantity =
     record_fill X (record_fill X r seller symbol Sell price quantity) buyer symbol Buy price quantity"

lemma sum_exposure_update:
  fixes f :: "client_exposure \<Rightarrow> 64 word"
  assumes "finite A" "a \<in> A"
  shows "(\<Sum>b \<in> A. f (if b = a then y else x b)) = (\<Sum>b \<in> A. f (x b)) + (f y - f (x a))"
proof -
  have "(\<Sum>b \<in> A. f (if b = a then y else x b)) = f y + (\<Sum>b \<in> A - {a}. f (x b))"
    using assms by (subst sum.remove [of A a]) (auto intro!: sum.cong)
  moreover have "(\<Sum>b \<in> A. f (x b)) = f (x a) + (\<Sum>b \<in> A - {a}. f (x b))"
    using assms by (rule sum.remove)
  ultimately show ?thesis by simp
qed

text \<open>Over any set of accounts that holds both parties, a trade moves cash and shares but creates none.\<close>

lemma record_fill_totals:
  assumes X: "hash_map_spec X" and A: "finite A" "(c, s) \<in> A"
  shows "(\<Sum>a \<in> A. ce_cash_flow (exposure_of X (record_fill X r c s side price quantity) a)) =
      (\<Sum>a \<in> A. ce_cash_flow (exposure_of X r a)) + (if side = Sell then price * quantity else - (price * quantity))"
    and "(\<Sum>a \<in> A. ce_position (exposure_of X (record_fill X r c s side price quantity) a)) =
      (\<Sum>a \<in> A. ce_position (exposure_of X r a)) + (if side = Buy then quantity else - quantity)"
  using sum_exposure_update [OF A, of ce_cash_flow "filled_exposure side price quantity (exposure_of X r (c, s))" "exposure_of X r"]
    sum_exposure_update [OF A, of ce_position "filled_exposure side price quantity (exposure_of X r (c, s))" "exposure_of X r"]
  unfolding exposure_record_fill [OF X]
  by (simp_all add: filled_exposure_def cong: if_cong)

end
