(* ===== verification/Risk_Properties.thy ===== *)
theory Risk_Properties
  imports Risk_Engine
begin

text \<open>
  The properties of the risk engine.
\<close>

lemma sint_uminus_i64:
  fixes a :: i64
  assumes "sint a \<noteq> - (2 ^ 63)"
  shows "sint (- a) = - sint a"
  using sint_i64_eqI [OF word_of_sint_minus [of 0 a]] sint_i64_bounds [of a] assms by simp

definition signed_quantity :: "side \<Rightarrow> quantity \<Rightarrow> quantity" where
  "signed_quantity s q = (if s = Buy then q else - q)"

lemma sint_signed_quantity:
  "0 \<le> sint q \<Longrightarrow> sint (signed_quantity s q) = (if s = Buy then sint q else - sint q)"
  by (simp add: signed_quantity_def sint_uminus_i64)

lemma sint_position_step:
  fixes pos q :: i64
  assumes "\<bar>sint pos\<bar> < 2 ^ 62" "0 \<le> sint q" "sint q < 2 ^ 62"
  shows "sint (pos + signed_quantity s q) = sint pos + (if s = Buy then sint q else - sint q)"
  using assms by (subst sint_plus_i64) (auto simp: sint_signed_quantity)

lemma check_new_order_limits:
  assumes "check_new_order X r ord = NoReject"
  shows "\<not> re_kill_switch_engaged r" "sint (o_quantity ord) \<le> sint (lim_max_order_size (re_limits r))"
    "sint (risk_position X r (o_client ord) (o_symbol ord) + signed_quantity (o_side ord) (o_quantity ord))
       \<le> sint (lim_max_position (re_limits r))"
    "sint (- lim_max_position (re_limits r))
       \<le> sint (risk_position X r (o_client ord) (o_symbol ord) + signed_quantity (o_side ord) (o_quantity ord))"
  using assms by (auto simp: check_new_order_def Let_def risk_position_def signed_quantity_def not_less
      split: if_splits option.splits)

lemma risk_position_record_fill:
  assumes "hash_map_spec X"
  shows "risk_position X (record_fill X r c s side price q) c' s' =
    risk_position X r c' s' + (if c' = c \<and> s' = s then signed_quantity side q else 0)"
  by (simp add: risk_position_exposure exposure_record_fill [OF assms] filled_exposure_def signed_quantity_def)

subsection \<open>Properties\<close>

text \<open>\<open>record_fill\<close> changes the exposure of the one account it names and of no other: the position
  moves by the signed quantity, and the profit and loss becomes the earlier cash flow plus the earlier
  position, marked at the fill price.\<close>

theorem record_fill_one_account:
  assumes "hash_map_spec X"
  shows "risk_position X (record_fill X r c s side price q) c' s' =
      risk_position X r c' s' + (if c' = c \<and> s' = s then signed_quantity side q else 0) \<and>
    risk_pnl X (record_fill X r c s side price q) c' s' = (if c' = c \<and> s' = s
      then ce_cash_flow (exposure_of X r (c, s)) + risk_position X r c s * price else risk_pnl X r c' s')"
  by (cases side) (simp_all add: risk_position_record_fill [OF assms] risk_pnl_exposure risk_position_exposure
      exposure_record_fill [OF assms] filled_exposure_def mark_to_market_pnl_def signed_quantity_def algebra_simps)

definition demo_limits :: limits where
  "demo_limits = \<lparr>lim_max_order_size = 50, lim_max_position = 100, lim_max_loss_per_client = - 1000\<rparr>"

type_synonym demo_exposure = "u64 \<rightharpoonup> client_exposure"

definition demo_risk :: "demo_exposure risk_engine" where
  "demo_risk = risk_engine_init fun_map demo_limits"

lemma demo_risk_position: "risk_position fun_map demo_risk c s = 0" "re_limits demo_risk = demo_limits"
  "exposure_of fun_map demo_risk a = default_exposure"
  by (simp_all add: demo_risk_def risk_engine_init_def risk_position_def exposure_of_def fun_map_def)

theorem record_fill_one_account_witness:
  "hash_map_spec (fun_map :: demo_exposure exposure_ops) \<and>
   risk_position fun_map (record_fill fun_map demo_risk 7 1 Sell 100 5) 7 1 = - 5 \<and>
   risk_position fun_map (record_fill fun_map demo_risk 7 1 Sell 100 5) 8 1 = 0"
  using record_fill_one_account [OF fun_map_spec, of demo_risk 7 1 Sell 100 5 7 1]
    record_fill_one_account [OF fun_map_spec, of demo_risk 7 1 Sell 100 5 8 1]
  by (simp add: demo_risk_position signed_quantity_def fun_map_spec)

text \<open>C39: an order the gate lets through, filled in whole or in part, leaves the account's net position
  within the limit, provided it was within before and the limits are below 2^62, so that the
  gate's 64-bit arithmetic is exact.\<close>

theorem gate_keeps_position_limit:
  fixes r :: "'x risk_engine"
  assumes "hash_map_spec X" "check_new_order X r ord = NoReject" "0 \<le> sint (o_quantity ord)"
    "\<bar>sint (risk_position X r (o_client ord) (o_symbol ord))\<bar> \<le> sint (lim_max_position (re_limits r))"
    "sint (lim_max_position (re_limits r)) < 2 ^ 62" "sint (lim_max_order_size (re_limits r)) < 2 ^ 62"
    "0 \<le> sint q" "sint q \<le> sint (o_quantity ord)"
  shows "\<bar>sint (risk_position X (record_fill X r (o_client ord) (o_symbol ord) (o_side ord) price q)
      (o_client ord) (o_symbol ord))\<bar> \<le> sint (lim_max_position (re_limits r))"
proof -
  let ?pos = "risk_position X r (o_client ord) (o_symbol ord)" and ?lim = "lim_max_position (re_limits r)"
  note chk = check_new_order_limits [OF assms(2)]
  have pos: "\<bar>sint ?pos\<bar> < 2 ^ 62" using assms(4,5) by linarith
  have full: "sint (?pos + signed_quantity (o_side ord) (o_quantity ord)) =
      sint ?pos + (if o_side ord = Buy then sint (o_quantity ord) else - sint (o_quantity ord))"
    using chk(2) assms by (intro sint_position_step [OF pos]) linarith+
  have part: "sint (?pos + signed_quantity (o_side ord) q) = sint ?pos + (if o_side ord = Buy then sint q else - sint q)"
    using chk(2) assms by (intro sint_position_step [OF pos]) linarith+
  have "0 \<le> sint ?lim" using assms(4) by linarith
  then have "sint (- ?lim) = - sint ?lim" by (intro sint_uminus_i64) simp
  then show ?thesis
    using chk(3,4) assms(4,7,8) unfolding risk_position_record_fill [OF assms(1)] full
    by (simp add: part split: if_splits)
qed

definition demo_risk_order :: order where
  "demo_risk_order = default_order\<lparr>o_client := 7, o_symbol := 1, o_side := Sell, o_quantity := 50\<rparr>"

theorem gate_keeps_position_limit_witness:
  "check_new_order fun_map demo_risk demo_risk_order = NoReject \<and>
   \<bar>sint (risk_position fun_map (record_fill fun_map demo_risk 7 1 Sell 100 40) 7 1)\<bar> \<le> 100"
proof -
  have chk: "check_new_order fun_map demo_risk demo_risk_order = NoReject"
    by (simp add: check_new_order_def demo_risk_def risk_engine_init_def demo_limits_def demo_risk_order_def
        default_order_def fun_map_def Let_def)
  have o: "o_client demo_risk_order = 7" "o_symbol demo_risk_order = 1" "o_side demo_risk_order = Sell"
    "o_quantity demo_risk_order = 50" by (simp_all add: demo_risk_order_def)
  show ?thesis
    using gate_keeps_position_limit [OF fun_map_spec chk, of 40 100] chk
    by (simp add: o demo_risk_position demo_limits_def)
qed

text \<open>A trade recorded for both parties moves cash and shares between them and creates neither: over
  any set of accounts that holds both, the totals are unchanged.\<close>

theorem trade_conserves_totals:
  assumes "hash_map_spec X" "finite A" "(seller, symbol) \<in> A" "(buyer, symbol) \<in> A"
  shows "(\<Sum>a \<in> A. ce_cash_flow (exposure_of X (record_trade X r seller buyer symbol price q) a)) =
      (\<Sum>a \<in> A. ce_cash_flow (exposure_of X r a)) \<and>
    (\<Sum>a \<in> A. ce_position (exposure_of X (record_trade X r seller buyer symbol price q) a)) =
      (\<Sum>a \<in> A. ce_position (exposure_of X r a))"
  using record_fill_totals [OF assms(1,2,4)] record_fill_totals [OF assms(1,2,3)] by (simp add: record_trade_def)

theorem trade_conserves_totals_witness:
  "(\<Sum>a \<in> {(7, 1), (8, 1)}. ce_cash_flow (exposure_of fun_map (record_trade fun_map demo_risk 7 8 1 100 5) a)) = 0"
  using trade_conserves_totals [OF fun_map_spec, of "{(7, 1), (8, 1)}" 7 1 8 demo_risk 100 5]
  by (simp add: demo_risk_position default_exposure_def)

subsection \<open>The profit and loss of all accounts\<close>

text \<open>A sequence of trades, each with its seller, buyer, symbol, price and quantity.\<close>

type_synonym trade_entry = "client_id \<times> client_id \<times> symbol_id \<times> price \<times> quantity"

fun record_trades :: "'x exposure_ops \<Rightarrow> 'x risk_engine \<Rightarrow> trade_entry list \<Rightarrow> 'x risk_engine" where
  "record_trades X r [] = r"
| "record_trades X r ((seller, buyer, symbol, price, q) # ts) = record_trades X (record_trade X r seller buyer symbol price q) ts"

text \<open>What one trade adds to a position, the price of a trade, and the price of the last trade an account took part in.\<close>

fun traded_by :: "client_id \<Rightarrow> symbol_id \<Rightarrow> trade_entry \<Rightarrow> quantity" where
  "traded_by c s (seller, buyer, symbol, price, q) =
     (if symbol = s then (if buyer = c then q else 0) - (if seller = c then q else 0) else 0)"

fun trade_price :: "trade_entry \<Rightarrow> price" where
  "trade_price (seller, buyer, symbol, price, q) = price"

fun own_last_price :: "client_id \<Rightarrow> symbol_id \<Rightarrow> price \<Rightarrow> trade_entry list \<Rightarrow> price" where
  "own_last_price c s m [] = m"
| "own_last_price c s m ((seller, buyer, symbol, price, q) # ts) =
     own_last_price c s (if symbol = s \<and> (seller = c \<or> buyer = c) then price else m) ts"

definition net_bought :: "client_id \<Rightarrow> symbol_id \<Rightarrow> trade_entry list \<Rightarrow> quantity" where
  "net_bought c s ts = (\<Sum>t \<leftarrow> ts. traded_by c s t)"

lemma exposure_record_trade:
  assumes "hash_map_spec X"
  shows "exposure_of X (record_trade X r seller buyer symbol price q) (c, s) =
    (let x = exposure_of X r (c, s); d = traded_by c s (seller, buyer, symbol, price, q)
     in \<lparr>ce_position = ce_position x + d, ce_cash_flow = ce_cash_flow x - price * d,
         ce_last_mark_price = (if symbol = s \<and> (seller = c \<or> buyer = c) then price else ce_last_mark_price x)\<rparr>)"
  by (auto simp: record_trade_def exposure_record_fill [OF assms] filled_exposure_def Let_def)

lemma exposure_record_trades:
  assumes "hash_map_spec X"
  shows "exposure_of X (record_trades X r ts) (c, s) =
    (let x = exposure_of X r (c, s)
     in \<lparr>ce_position = ce_position x + net_bought c s ts,
         ce_cash_flow = ce_cash_flow x - (\<Sum>t \<leftarrow> ts. trade_price t * traded_by c s t),
         ce_last_mark_price = own_last_price c s (ce_last_mark_price x) ts\<rparr>)"
proof (induction ts arbitrary: r)
  case (Cons t ts)
  then show ?case
    by (cases t) (simp add: exposure_record_trade [OF assms] Let_def net_bought_def algebra_simps del: traded_by.simps)
qed (simp add: net_bought_def Let_def)

text \<open>Over all clients what is bought is sold.\<close>

lemma traded_sum: "(\<Sum>c \<in> UNIV. traded_by c s t) = 0"
proof (cases t)
  case (fields seller buyer symbol price q)
  then show ?thesis by (cases "symbol = s") (simp_all add: sum_subtractf)
qed

lemma traded_cash_sum: "(\<Sum>c \<in> UNIV. \<Sum>t \<leftarrow> ts. trade_price t * traded_by c s t) = 0"
  by (induction ts) (simp_all add: sum.distrib traded_sum flip: sum_distrib_left)

lemma net_bought_sum: "(\<Sum>c \<in> UNIV. net_bought c s ts) = 0"
  by (induction ts) (simp_all add: net_bought_def sum.distrib traded_sum)

lemma exposure_init:
  "hash_map_spec X \<Longrightarrow> exposure_of X (risk_engine_init X lim) a = default_exposure"
  by (simp add: exposure_of_def risk_engine_init_def hash_map_specD)

lemma pnl_after_trades:
  assumes "hash_map_spec X"
  shows "risk_pnl X (record_trades X (risk_engine_init X lim) ts) c s =
    net_bought c s ts * own_last_price c s 0 ts - (\<Sum>t \<leftarrow> ts. trade_price t * traded_by c s t)"
  by (simp add: risk_pnl_exposure exposure_record_trades [OF assms] exposure_init [OF assms] default_exposure_def
      mark_to_market_pnl_def)

lemma pnl_sum_after_trades:
  assumes "hash_map_spec X"
  shows "(\<Sum>c \<in> UNIV. risk_pnl X (record_trades X (risk_engine_init X lim) ts) c s) =
    (\<Sum>c \<in> UNIV. net_bought c s ts * (own_last_price c s 0 ts - m))"
proof -
  have "(\<Sum>c \<in> UNIV. net_bought c s ts * m) = 0" by (simp add: net_bought_sum flip: sum_distrib_right)
  then show ?thesis
    by (simp add: pnl_after_trades [OF assms] sum_subtractf traded_cash_sum right_diff_distrib)
qed

text \<open>C40: the marked profit and loss over all the clients of a symbol, after any sequence of trades recorded in a
  fresh risk engine, in 64-bit arithmetic.  A client's profit and loss is, over the trades, the quantity bought times
  the difference between the price of the client's own last trade and the price of the trade.  Whatever reference price \<open>m\<close> is
  taken, the sum over all clients is the sum of each position times the distance of its holder's own last price
  from \<open>m\<close>.  So it is zero when all holders of a position traded last at one price, and not in general: when
  \<open>a\<close> sells \<open>q\<close> to \<open>c\<close> at \<open>p\<close> and then \<open>b\<close> sells any quantity to \<open>c\<close> at \<open>p'\<close>, it is \<open>q * (p' - p)\<close>, although
  the cash flows of all clients add up to zero.\<close>

theorem pnl_sum_at_own_marks:
  fixes m :: price and lim :: limits and ts :: "trade_entry list"
  assumes "hash_map_spec X"
  defines "r \<equiv> record_trades X (risk_engine_init X lim) ts"
  shows "risk_pnl X r d s = (\<Sum>t \<leftarrow> ts. traded_by d s t * (own_last_price d s 0 ts - trade_price t)) \<and>
    (\<Sum>c \<in> UNIV. ce_cash_flow (exposure_of X r (c, s))) = 0 \<and>
    (\<Sum>c \<in> UNIV. risk_pnl X r c s) = (\<Sum>c \<in> UNIV. risk_position X r c s * (own_last_price c s 0 ts - m)) \<and>
    ((\<forall>c. risk_position X r c s \<noteq> 0 \<longrightarrow> own_last_price c s 0 ts = m) \<longrightarrow> (\<Sum>c \<in> UNIV. risk_pnl X r c s) = 0) \<and>
    (distinct [a, b, c] \<and> ts = [(a, c, s, p, q), (b, c, s, p', q')] \<longrightarrow> (\<Sum>c \<in> UNIV. risk_pnl X r c s) = q * (p' - p))"
proof -
  have pos: "risk_position X r c s = net_bought c s ts" for c
    by (simp add: r_def risk_position_exposure exposure_record_trades [OF assms(1)] exposure_init [OF assms(1)] default_exposure_def)
  note pnl_sum = pnl_sum_after_trades [OF assms(1), of lim ts s, folded r_def]
  have "net_bought d s ts * l - (\<Sum>t \<leftarrow> ts. trade_price t * traded_by d s t) = (\<Sum>t \<leftarrow> ts. traded_by d s t * (l - trade_price t))" for l
    by (induction ts) (simp_all add: net_bought_def algebra_simps)
  then have own: "risk_pnl X r d s = (\<Sum>t \<leftarrow> ts. traded_by d s t * (own_last_price d s 0 ts - trade_price t))"
    by (simp only: r_def pnl_after_trades [OF assms(1)])
  have "(\<Sum>c \<in> UNIV. ce_cash_flow (exposure_of X r (c, s))) = 0"
    by (simp add: r_def exposure_record_trades [OF assms(1)] exposure_init [OF assms(1)] default_exposure_def
        Let_def sum_negf traded_cash_sum)
  moreover have "(\<Sum>c \<in> UNIV. risk_pnl X r c s) = 0" if "\<forall>c. risk_position X r c s \<noteq> 0 \<longrightarrow> own_last_price c s 0 ts = m"
  proof -
    have "net_bought c s ts * (own_last_price c s 0 ts - m) = 0" for c
      using that [rule_format, of c] by (cases "net_bought c s ts = 0") (simp_all add: pos)
    then show ?thesis unfolding pnl_sum [of m] by simp
  qed
  moreover have "(\<Sum>c \<in> UNIV. risk_pnl X r c s) = q * (p' - p)"
    if "distinct [a, b, c]" and ts: "ts = [(a, c, s, p, q), (b, c, s, p', q')]"
  proof -
    have "net_bought d s ts * (own_last_price d s 0 ts - p') = (if d = a then q * (p' - p) else 0)" for d
      using that by (auto simp: net_bought_def algebra_simps)
    then show ?thesis unfolding pnl_sum [of p'] by simp
  qed
  ultimately show ?thesis using own pnl_sum [of m] by (simp only: pos) simp
qed

theorem pnl_sum_at_own_marks_witness:
  "let ts = [(7, 9, 1, 100, 1), (8, 9, 1, 110, 1)]; r = record_trades fun_map demo_risk ts
   in hash_map_spec (fun_map :: demo_exposure exposure_ops) \<and> risk_pnl fun_map r 9 1 = 10 \<and>
     (\<Sum>c \<in> UNIV. risk_pnl fun_map r c 1) = 10"
proof -
  let ?ts = "[(7, 9, 1, 100, 1), (8, 9, 1, 110, 1)] :: trade_entry list"
  note all = pnl_sum_at_own_marks [OF fun_map_spec, of demo_limits ?ts 9 1 0 7 8 9 100 1 110 1, folded demo_risk_def]
  have own: "risk_pnl fun_map (record_trades fun_map demo_risk ?ts) 9 1 = (\<Sum>t \<leftarrow> ?ts. traded_by 9 1 t * (own_last_price 9 1 0 ?ts - trade_price t))"
    using all by (rule conjunct1)
  have "distinct [7, 8, 9 :: client_id] \<and> ?ts = ?ts \<longrightarrow> (\<Sum>c \<in> UNIV. risk_pnl fun_map (record_trades fun_map demo_risk ?ts) c 1) = 1 * (110 - 100)"
    using all by (elim conjE)
  then have "(\<Sum>c \<in> UNIV. risk_pnl fun_map (record_trades fun_map demo_risk ?ts) c 1) = 10" by (simp del: record_trades.simps)
  moreover have "(\<Sum>t \<leftarrow> ?ts. traded_by 9 1 t * (own_last_price 9 1 0 ?ts - trade_price t)) = 10" by simp
  ultimately show ?thesis unfolding Let_def using fun_map_spec own by (simp only: simp_thms)
qed

end
