(* ===== verification/Messages.thy ===== *)
theory Messages
  imports Core
begin

text \<open>
  \<open>protocol/messages.hpp\<close>: the wire messages and their memory layout.  A message is copied to
  the wire with \<open>memcpy\<close>, so its layout is that of the struct: the fields in declaration order,
  no padding (the source asserts the sizes), little-endian integers.  The \<open>reserved\<close> bytes are
  written as zero and never read.  Each layout is a record of the size, the wire tag and the
  two copy directions; the interface \<open>wire_format\<close> states that they fit together.

  An enumeration byte read from the wire need not be an enumerator; such a payload has no
  counterpart in the message type and is read as \<open>None\<close>.
\<close>

unbundle bit_operations_syntax

subsection \<open>Little-endian integers\<close>

primrec le_bytes :: "nat \<Rightarrow> 'a::len word \<Rightarrow> u8 list" where
  "le_bytes 0 w = []"
| "le_bytes (Suc n) w = ucast w # le_bytes n (drop_bit 8 w)"

primrec le_word :: "u8 list \<Rightarrow> 'a::len word" where
  "le_word [] = 0"
| "le_word (b # bs) = ucast b OR push_bit 8 (le_word bs)"

lemma length_le_bytes [simp]: "length (le_bytes n w) = n"
  by (induction n arbitrary: w) simp_all

lemma le_word_bytes_take: "(le_word (le_bytes n w) :: 'a::len word) = take_bit (8 * n) (w :: 'a word)"
proof (induction n arbitrary: w)
  case (Suc n)
  have "(ucast (ucast w :: u8) :: 'a word) OR push_bit 8 (take_bit (8 * n) (drop_bit 8 w)) = take_bit (8 * Suc n) w"
    by (rule bit_word_eqI) (auto simp: bit_simps)
  then show ?case by (simp add: Suc)
qed simp

lemma le_word_bytes:
  fixes w :: "'a::len word"
  assumes "LENGTH('a) \<le> 8 * n"
  shows "le_word (le_bytes n w) = w"
  unfolding le_word_bytes_take using assms by (auto intro!: bit_word_eqI simp: bit_simps dest: bit_imp_le_length)

lemma le_word_u64 [simp]: "le_word (le_bytes 8 (w :: u64)) = w"
  by (rule le_word_bytes) simp

lemma le_word_u32 [simp]: "le_word (le_bytes 4 (w :: u32)) = w"
  by (rule le_word_bytes) simp

lemma le_word_u16 [simp]: "le_word (le_bytes 2 (w :: u16)) = w"
  by (rule le_word_bytes) simp

text \<open>The bytes of a field at an offset.\<close>

definition field :: "nat \<Rightarrow> nat \<Rightarrow> u8 list \<Rightarrow> u8 list" where
  "field offset n bs = take n (drop offset bs)"

subsection \<open>Enumerations\<close>

datatype message_type = MtNewOrder | MtCancelOrder | MtReplaceOrder | MtExecutionReport | MtTrade
  | MtBookDelta | MtBookSnapshot

fun message_type_code :: "message_type \<Rightarrow> u8" where
  "message_type_code MtNewOrder = 1"
| "message_type_code MtCancelOrder = 2"
| "message_type_code MtReplaceOrder = 3"
| "message_type_code MtExecutionReport = 4"
| "message_type_code MtTrade = 5"
| "message_type_code MtBookDelta = 6"
| "message_type_code MtBookSnapshot = 7"

datatype exec_type = ExecNew | ExecPartialFill | ExecFill | ExecCancelled | ExecReplaced | ExecRejected

datatype delta_action = DeltaUpdate | DeltaDelete

text \<open>Enumerators are numbered in the order of declaration, from zero.\<close>

definition enum_code :: "'e list \<Rightarrow> 'e \<Rightarrow> u8" where
  "enum_code es x = of_nat (length (takeWhile (\<lambda>e. e \<noteq> x) es))"

definition enum_of_code :: "'e list \<Rightarrow> u8 \<Rightarrow> 'e option" where
  "enum_of_code es c = (if unat c < length es then Some (es ! unat c) else None)"

lemma takeWhile_neq_nth:
  "x \<in> set es \<Longrightarrow> length (takeWhile (\<lambda>e. e \<noteq> x) es) < length es \<and> es ! length (takeWhile (\<lambda>e. e \<noteq> x) es) = x"
  by (induction es) auto

lemma enum_round_trip:
  assumes "x \<in> set es" "length es \<le> 256"
  shows "enum_of_code es (enum_code es x) = Some x"
proof -
  let ?n = "length (takeWhile (\<lambda>e. e \<noteq> x) es)"
  have lt: "?n < length es" "es ! ?n = x" using takeWhile_neq_nth [OF assms(1)] by simp_all
  moreover have "unat (of_nat ?n :: u8) = ?n"
    using lt assms(2) by (simp add: unat_of_nat)
  ultimately show ?thesis using lt by (simp add: enum_of_code_def enum_code_def)
qed

definition sides :: "side list" where
  "sides = [Buy, Sell]"

definition order_types :: "order_type list" where
  "order_types = [Limit, Market]"

definition times_in_force :: "time_in_force list" where
  "times_in_force = [Day, IOC, FOK]"

definition exec_types :: "exec_type list" where
  "exec_types = [ExecNew, ExecPartialFill, ExecFill, ExecCancelled, ExecReplaced, ExecRejected]"

definition delta_actions :: "delta_action list" where
  "delta_actions = [DeltaUpdate, DeltaDelete]"

definition reject_reasons :: "reject_reason list" where
  "reject_reasons = [NoReject, InvalidPrice, RejInvalidQuantity, UnknownSymbol, UnknownOrder, RejDuplicateOrderId,
     FokNotFillable, BookCapacityExceeded, RiskMaxOrderSize, RiskMaxPosition, RiskMaxLoss, RiskKillSwitch]"

lemma enum_codes [simp]:
  "enum_of_code sides (enum_code sides s) = Some s"
  "enum_of_code order_types (enum_code order_types ot) = Some ot"
  "enum_of_code times_in_force (enum_code times_in_force tif) = Some tif"
  "enum_of_code exec_types (enum_code exec_types et) = Some et"
  "enum_of_code delta_actions (enum_code delta_actions da) = Some da"
  "enum_of_code reject_reasons (enum_code reject_reasons rr) = Some rr"
proof -
  show "enum_of_code sides (enum_code sides s) = Some s"
    by (rule enum_round_trip, cases s) (simp_all add: sides_def)
  show "enum_of_code order_types (enum_code order_types ot) = Some ot"
    by (rule enum_round_trip, cases ot) (simp_all add: order_types_def)
  show "enum_of_code times_in_force (enum_code times_in_force tif) = Some tif"
    by (rule enum_round_trip, cases tif) (simp_all add: times_in_force_def)
  show "enum_of_code exec_types (enum_code exec_types et) = Some et"
    by (rule enum_round_trip, cases et) (simp_all add: exec_types_def)
  show "enum_of_code delta_actions (enum_code delta_actions da) = Some da"
    by (rule enum_round_trip, cases da) (simp_all add: delta_actions_def)
  show "enum_of_code reject_reasons (enum_code reject_reasons rr) = Some rr"
    by (rule enum_round_trip, cases rr) (simp_all add: reject_reasons_def)
qed

subsection \<open>Messages and their layouts\<close>

record message_header =
  mh_length :: u16
  mh_type :: u8

record new_order_message =
  nom_order_id :: u64
  nom_price :: i64
  nom_quantity :: i64
  nom_client_id :: u32
  nom_symbol_id :: u32
  nom_side :: side
  nom_order_type :: order_type
  nom_time_in_force :: time_in_force

record cancel_order_message =
  com_order_id :: u64
  com_client_id :: u32
  com_symbol_id :: u32

record replace_order_message =
  rom_order_id :: u64
  rom_new_price :: i64
  rom_new_quantity :: i64
  rom_client_id :: u32
  rom_symbol_id :: u32

record execution_report_message =
  erm_order_id :: u64
  erm_match_id :: u64
  erm_price :: i64
  erm_last_quantity :: i64
  erm_leaves_quantity :: i64
  erm_client_id :: u32
  erm_symbol_id :: u32
  erm_exec_type :: exec_type
  erm_reject_reason :: reject_reason

record trade_message =
  tm_sequence :: u64
  tm_match_id :: u64
  tm_price :: i64
  tm_quantity :: i64
  tm_symbol_id :: u32
  tm_aggressor_side :: side

record book_delta_message =
  bdm_sequence :: u64
  bdm_price :: i64
  bdm_aggregate_quantity :: i64
  bdm_symbol_id :: u32
  bdm_order_count :: u32
  bdm_side :: side
  bdm_action :: delta_action

record book_snapshot_header =
  bsh_sequence :: u64
  bsh_symbol_id :: u32
  bsh_bid_level_count :: u16
  bsh_ask_level_count :: u16

record price_level_record =
  plr_price :: i64
  plr_aggregate_quantity :: i64
  plr_order_count :: u32

record 'p layout =
  l_size :: nat
  l_type :: message_type
  l_put :: "'p \<Rightarrow> u8 list"
  l_get :: "u8 list \<Rightarrow> 'p option"

definition put_header :: "message_header \<Rightarrow> u8 list" where
  "put_header h = le_bytes 2 (mh_length h) @ [mh_type h, 0]"

definition get_header :: "u8 list \<Rightarrow> message_header" where
  "get_header bs = \<lparr>mh_length = le_word (field 0 2 bs), mh_type = bs ! 2\<rparr>"

definition new_order_layout :: "new_order_message layout" where
  "new_order_layout = \<lparr>l_size = 40, l_type = MtNewOrder,
     l_put = (\<lambda>m. le_bytes 8 (nom_order_id m) @ le_bytes 8 (nom_price m) @ le_bytes 8 (nom_quantity m) @
       le_bytes 4 (nom_client_id m) @ le_bytes 4 (nom_symbol_id m) @
       [enum_code sides (nom_side m), enum_code order_types (nom_order_type m),
        enum_code times_in_force (nom_time_in_force m), 0, 0, 0, 0, 0]),
     l_get = (\<lambda>bs. case (enum_of_code sides (bs ! 32), enum_of_code order_types (bs ! 33),
           enum_of_code times_in_force (bs ! 34)) of
         (Some s, Some t, Some f) \<Rightarrow> Some \<lparr>nom_order_id = le_word (field 0 8 bs),
           nom_price = le_word (field 8 8 bs), nom_quantity = le_word (field 16 8 bs),
           nom_client_id = le_word (field 24 4 bs), nom_symbol_id = le_word (field 28 4 bs),
           nom_side = s, nom_order_type = t, nom_time_in_force = f\<rparr>
       | _ \<Rightarrow> None)\<rparr>"

definition cancel_order_layout :: "cancel_order_message layout" where
  "cancel_order_layout = \<lparr>l_size = 16, l_type = MtCancelOrder,
     l_put = (\<lambda>m. le_bytes 8 (com_order_id m) @ le_bytes 4 (com_client_id m) @ le_bytes 4 (com_symbol_id m)),
     l_get = (\<lambda>bs. Some \<lparr>com_order_id = le_word (field 0 8 bs), com_client_id = le_word (field 8 4 bs),
       com_symbol_id = le_word (field 12 4 bs)\<rparr>)\<rparr>"

definition replace_order_layout :: "replace_order_message layout" where
  "replace_order_layout = \<lparr>l_size = 32, l_type = MtReplaceOrder,
     l_put = (\<lambda>m. le_bytes 8 (rom_order_id m) @ le_bytes 8 (rom_new_price m) @ le_bytes 8 (rom_new_quantity m) @
       le_bytes 4 (rom_client_id m) @ le_bytes 4 (rom_symbol_id m)),
     l_get = (\<lambda>bs. Some \<lparr>rom_order_id = le_word (field 0 8 bs), rom_new_price = le_word (field 8 8 bs),
       rom_new_quantity = le_word (field 16 8 bs), rom_client_id = le_word (field 24 4 bs),
       rom_symbol_id = le_word (field 28 4 bs)\<rparr>)\<rparr>"

definition execution_report_layout :: "execution_report_message layout" where
  "execution_report_layout = \<lparr>l_size = 56, l_type = MtExecutionReport,
     l_put = (\<lambda>m. le_bytes 8 (erm_order_id m) @ le_bytes 8 (erm_match_id m) @ le_bytes 8 (erm_price m) @
       le_bytes 8 (erm_last_quantity m) @ le_bytes 8 (erm_leaves_quantity m) @
       le_bytes 4 (erm_client_id m) @ le_bytes 4 (erm_symbol_id m) @
       [enum_code exec_types (erm_exec_type m), enum_code reject_reasons (erm_reject_reason m), 0, 0, 0, 0, 0, 0]),
     l_get = (\<lambda>bs. case (enum_of_code exec_types (bs ! 48), enum_of_code reject_reasons (bs ! 49)) of
         (Some x, Some r) \<Rightarrow> Some \<lparr>erm_order_id = le_word (field 0 8 bs),
           erm_match_id = le_word (field 8 8 bs), erm_price = le_word (field 16 8 bs),
           erm_last_quantity = le_word (field 24 8 bs), erm_leaves_quantity = le_word (field 32 8 bs),
           erm_client_id = le_word (field 40 4 bs), erm_symbol_id = le_word (field 44 4 bs),
           erm_exec_type = x, erm_reject_reason = r\<rparr>
       | _ \<Rightarrow> None)\<rparr>"

definition trade_layout :: "trade_message layout" where
  "trade_layout = \<lparr>l_size = 40, l_type = MtTrade,
     l_put = (\<lambda>m. le_bytes 8 (tm_sequence m) @ le_bytes 8 (tm_match_id m) @ le_bytes 8 (tm_price m) @
       le_bytes 8 (tm_quantity m) @ le_bytes 4 (tm_symbol_id m) @ [enum_code sides (tm_aggressor_side m), 0, 0, 0]),
     l_get = (\<lambda>bs. case enum_of_code sides (bs ! 36) of
         Some s \<Rightarrow> Some \<lparr>tm_sequence = le_word (field 0 8 bs), tm_match_id = le_word (field 8 8 bs),
           tm_price = le_word (field 16 8 bs), tm_quantity = le_word (field 24 8 bs),
           tm_symbol_id = le_word (field 32 4 bs), tm_aggressor_side = s\<rparr>
       | None \<Rightarrow> None)\<rparr>"

definition book_delta_layout :: "book_delta_message layout" where
  "book_delta_layout = \<lparr>l_size = 40, l_type = MtBookDelta,
     l_put = (\<lambda>m. le_bytes 8 (bdm_sequence m) @ le_bytes 8 (bdm_price m) @ le_bytes 8 (bdm_aggregate_quantity m) @
       le_bytes 4 (bdm_symbol_id m) @ le_bytes 4 (bdm_order_count m) @
       [enum_code sides (bdm_side m), enum_code delta_actions (bdm_action m), 0, 0, 0, 0, 0, 0]),
     l_get = (\<lambda>bs. case (enum_of_code sides (bs ! 32), enum_of_code delta_actions (bs ! 33)) of
         (Some s, Some a) \<Rightarrow> Some \<lparr>bdm_sequence = le_word (field 0 8 bs), bdm_price = le_word (field 8 8 bs),
           bdm_aggregate_quantity = le_word (field 16 8 bs), bdm_symbol_id = le_word (field 24 4 bs),
           bdm_order_count = le_word (field 28 4 bs), bdm_side = s, bdm_action = a\<rparr>
       | _ \<Rightarrow> None)\<rparr>"

definition put_snapshot_header :: "book_snapshot_header \<Rightarrow> u8 list" where
  "put_snapshot_header m = le_bytes 8 (bsh_sequence m) @ le_bytes 4 (bsh_symbol_id m) @
     le_bytes 2 (bsh_bid_level_count m) @ le_bytes 2 (bsh_ask_level_count m)"

definition get_snapshot_header :: "u8 list \<Rightarrow> book_snapshot_header" where
  "get_snapshot_header bs = \<lparr>bsh_sequence = le_word (field 0 8 bs), bsh_symbol_id = le_word (field 8 4 bs),
     bsh_bid_level_count = le_word (field 12 2 bs), bsh_ask_level_count = le_word (field 14 2 bs)\<rparr>"

definition put_level_record :: "price_level_record \<Rightarrow> u8 list" where
  "put_level_record m = le_bytes 8 (plr_price m) @ le_bytes 8 (plr_aggregate_quantity m) @
     le_bytes 4 (plr_order_count m) @ [0, 0, 0, 0]"

definition get_level_record :: "u8 list \<Rightarrow> price_level_record" where
  "get_level_record bs = \<lparr>plr_price = le_word (field 0 8 bs), plr_aggregate_quantity = le_word (field 8 8 bs),
     plr_order_count = le_word (field 16 4 bs)\<rparr>"

subsection \<open>The interface of a layout\<close>

locale wire_format =
  fixes L :: "'p layout"
  assumes put_length: "length (l_put L m) = l_size L"
    and get_put: "l_get L (l_put L m) = Some m"
    and size_fits: "l_size L < 2 ^ 16"
    and not_snapshot: "l_type L \<noteq> MtBookSnapshot"

lemmas layout_defs = new_order_layout_def cancel_order_layout_def replace_order_layout_def
  execution_report_layout_def trade_layout_def book_delta_layout_def

interpretation new_order_format: wire_format new_order_layout
  by unfold_locales (simp_all add: layout_defs field_def nth_append)

interpretation cancel_order_format: wire_format cancel_order_layout
  by unfold_locales (simp_all add: layout_defs field_def)

interpretation replace_order_format: wire_format replace_order_layout
  by unfold_locales (simp_all add: layout_defs field_def)

interpretation execution_report_format: wire_format execution_report_layout
  by unfold_locales (simp_all add: layout_defs field_def nth_append)

interpretation trade_format: wire_format trade_layout
  by unfold_locales (simp_all add: layout_defs field_def nth_append)

interpretation book_delta_format: wire_format book_delta_layout
  by unfold_locales (simp_all add: layout_defs field_def nth_append)

lemma header_round_trip:
  "length (put_header h) = 4" "get_header (put_header h @ rest) = h"
  by (simp_all add: put_header_def get_header_def field_def nth_append)

lemma snapshot_header_round_trip:
  "length (put_snapshot_header m) = 16" "get_snapshot_header (put_snapshot_header m) = m"
  by (simp_all add: put_snapshot_header_def get_snapshot_header_def field_def)

lemma level_record_round_trip:
  "length (put_level_record m) = 24" "get_level_record (put_level_record m) = m"
  by (simp_all add: put_level_record_def get_level_record_def field_def)

end
