(* ===== verification/Codec.thy ===== *)
theory Codec
  imports Messages
begin

text \<open>
  \<open>protocol/codec.hpp\<close>: framing of the messages.  A span of bytes is a list; \<open>encode\<close> returns the
  number of bytes written and the buffer after the \<open>memcpy\<close> calls.  \<open>encode<T>\<close> and \<open>decode<T>\<close>
  are one definition each, over the layout of the payload type.
\<close>

datatype decode_status = DecOk | DecIncomplete | DecUnexpectedType | DecMalformed

text \<open>The payload is meaningful only for the status \<open>DecOk\<close>; a value-initialised one is \<open>None\<close>.\<close>

record 'p decode_result =
  dr_status :: decode_status
  dr_payload :: "'p option"
  dr_consumed :: nat

definition write_at :: "nat \<Rightarrow> u8 list \<Rightarrow> u8 list \<Rightarrow> u8 list" where
  "write_at offset bs out = take offset out @ bs @ drop (offset + length bs) out"

definition encode :: "'p layout \<Rightarrow> u8 list \<Rightarrow> 'p \<Rightarrow> nat \<times> u8 list" where
  "encode L out payload =
     (let total = 4 + l_size L
      in if length out < total then (0, out)
         else
           let header = \<lparr>mh_length = of_nat (l_size L), mh_type = message_type_code (l_type L)\<rparr>
           in (total, write_at 4 (l_put L payload) (write_at 0 (put_header header) out)))"

definition peek_header :: "u8 list \<Rightarrow> message_header option" where
  "peek_header inp = (if length inp < 4 then None else Some (get_header inp))"

definition decode :: "'p layout \<Rightarrow> u8 list \<Rightarrow> 'p decode_result" where
  "decode L inp =
     (let failed = (\<lambda>st. \<lparr>dr_status = st, dr_payload = None, dr_consumed = 0\<rparr>)
      in case peek_header inp of
           None \<Rightarrow> failed DecIncomplete
         | Some header \<Rightarrow>
             if mh_type header \<noteq> message_type_code (l_type L) then failed DecUnexpectedType
             else if unat (mh_length header) \<noteq> l_size L then failed DecMalformed
             else
               let total = 4 + unat (mh_length header)
               in if length inp < total then failed DecIncomplete
                  else \<lparr>dr_status = DecOk, dr_payload = l_get L (field 4 (l_size L) inp), dr_consumed = total\<rparr>)"

definition encode_snapshot ::
    "u8 list \<Rightarrow> u64 \<Rightarrow> u32 \<Rightarrow> price_level_record list \<Rightarrow> price_level_record list \<Rightarrow> nat \<times> u8 list" where
  "encode_snapshot out sequence symbol_id bids asks =
     (let payload_bytes = 16 + (length bids + length asks) * 24;
          total = 4 + payload_bytes
      in if length out < total \<or> length bids > 0xFFFF \<or> length asks > 0xFFFF \<or> payload_bytes > 0xFFFF
         then (0, out)
         else
           let header = \<lparr>mh_length = of_nat payload_bytes, mh_type = message_type_code MtBookSnapshot\<rparr>;
               snap_header = \<lparr>bsh_sequence = sequence, bsh_symbol_id = symbol_id,
                 bsh_bid_level_count = of_nat (length bids), bsh_ask_level_count = of_nat (length asks)\<rparr>;
               out1 = write_at 0 (put_header header) out;
               out2 = write_at 4 (put_snapshot_header snap_header) out1;
               out3 = write_at 20 (concat (map put_level_record bids)) out2;
               out4 = write_at (20 + length bids * 24) (concat (map put_level_record asks)) out3
           in (total, out4))"

record snapshot_decode_result =
  sd_status :: decode_status
  sd_header :: book_snapshot_header
  sd_bids :: "price_level_record list"
  sd_asks :: "price_level_record list"
  sd_consumed :: nat

definition default_snapshot_header :: book_snapshot_header where
  "default_snapshot_header = \<lparr>bsh_sequence = 0, bsh_symbol_id = 0, bsh_bid_level_count = 0, bsh_ask_level_count = 0\<rparr>"

definition read_levels :: "nat \<Rightarrow> nat \<Rightarrow> u8 list \<Rightarrow> price_level_record list" where
  "read_levels offset n bs = map (\<lambda>i. get_level_record (field (offset + i * 24) 24 bs)) [0..<n]"

definition decode_snapshot :: "u8 list \<Rightarrow> snapshot_decode_result" where
  "decode_snapshot inp =
     (let failed = (\<lambda>st. \<lparr>sd_status = st, sd_header = default_snapshot_header, sd_bids = [], sd_asks = [],
                         sd_consumed = 0\<rparr>)
      in case peek_header inp of
           None \<Rightarrow> failed DecIncomplete
         | Some header \<Rightarrow>
             if mh_type header \<noteq> message_type_code MtBookSnapshot then failed DecUnexpectedType
             else
               let total = 4 + unat (mh_length header)
               in if length inp < total then failed DecIncomplete
                  else if unat (mh_length header) < 16 then failed DecMalformed
                  else
                    let snap = get_snapshot_header (field 4 16 inp);
                        nb = unat (bsh_bid_level_count snap);
                        na = unat (bsh_ask_level_count snap);
                        level_bytes = (nb + na) * 24
                    in if 16 + level_bytes \<noteq> unat (mh_length header) then failed DecMalformed
                       else \<lparr>sd_status = DecOk, sd_header = snap, sd_bids = read_levels 20 nb inp,
                             sd_asks = read_levels (20 + nb * 24) na inp, sd_consumed = total\<rparr>)"

subsection \<open>Framed messages\<close>

definition frame :: "'p layout \<Rightarrow> 'p \<Rightarrow> u8 list" where
  "frame L m = put_header \<lparr>mh_length = of_nat (l_size L), mh_type = message_type_code (l_type L)\<rparr> @ l_put L m"

definition snapshot_frame :: "u64 \<Rightarrow> u32 \<Rightarrow> price_level_record list \<Rightarrow> price_level_record list \<Rightarrow> u8 list" where
  "snapshot_frame sequence symbol_id bids asks =
     put_header \<lparr>mh_length = of_nat (16 + (length bids + length asks) * 24),
       mh_type = message_type_code MtBookSnapshot\<rparr> @
     put_snapshot_header \<lparr>bsh_sequence = sequence, bsh_symbol_id = symbol_id,
       bsh_bid_level_count = of_nat (length bids), bsh_ask_level_count = of_nat (length asks)\<rparr> @
     concat (map put_level_record bids) @ concat (map put_level_record asks)"

lemma message_type_code_inject [simp]: "message_type_code a = message_type_code b \<longleftrightarrow> a = b"
  by (cases a; cases b) simp_all

lemma write_at_adjacent:
  assumes "n = length xs" "n + length ys \<le> length out"
  shows "write_at n ys (write_at 0 xs out) = write_at 0 (xs @ ys) out"
  using assms by (simp add: write_at_def add.commute)

lemma write_at_0: "length bs \<le> length out \<Longrightarrow> take (length bs) (write_at 0 bs out) = bs"
  "length bs \<le> length out \<Longrightarrow> length (write_at 0 bs out) = length out"
  by (simp_all add: write_at_def)

lemma unat_of_nat_u16: "n < 2 ^ 16 \<Longrightarrow> unat (of_nat n :: u16) = n"
  by (simp add: unat_of_nat)

context wire_format
begin

lemma frame_length: "length (frame L m) = 4 + l_size L"
  by (simp add: frame_def header_round_trip put_length)

text \<open>\<open>encode\<close> writes the frame at the start of a buffer that has room for it, and nothing otherwise.\<close>

lemma encode_frame:
  "encode L out m = (if length out < 4 + l_size L then (0, out)
     else (4 + l_size L, frame L m @ drop (4 + l_size L) out))"
  using write_at_adjacent [of 4 "put_header \<lparr>mh_length = of_nat (l_size L), mh_type = message_type_code (l_type L)\<rparr>" "l_put L m" out]
  by (simp add: encode_def frame_def header_round_trip(1) put_length)
    (simp add: write_at_def header_round_trip(1) put_length)

text \<open>A frame at the start of the input decodes to its message, whatever follows.\<close>

lemma decode_frame:
  "decode L (frame L m @ rest) = \<lparr>dr_status = DecOk, dr_payload = Some m, dr_consumed = 4 + l_size L\<rparr>"
proof -
  have "peek_header (frame L m @ rest) =
      Some \<lparr>mh_length = of_nat (l_size L), mh_type = message_type_code (l_type L)\<rparr>"
    by (simp add: peek_header_def frame_def header_round_trip)
  moreover have "field 4 (l_size L) (frame L m @ rest) = l_put L m"
    by (simp add: field_def frame_def header_round_trip(1) put_length)
  ultimately show ?thesis
    using size_fits frame_length [of m] by (simp add: decode_def Let_def unat_of_nat_u16 get_put)
qed

text \<open>Decoding is total and stays within the input.\<close>

lemma decode_consumed:
  "dr_consumed (decode L inp) \<le> length inp"
  "dr_status (decode L inp) = DecOk \<longleftrightarrow> dr_consumed (decode L inp) = 4 + l_size L"
  by (simp_all add: decode_def Let_def split: option.split)

end

lemma concat_levels_length [simp]: "length (concat (map put_level_record xs)) = length xs * 24"
  by (induction xs) (simp_all add: level_record_round_trip)

lemma read_levels_concat:
  assumes "offset = length pre"
  shows "read_levels offset (length xs) (pre @ concat (map put_level_record xs) @ rest) = xs"
proof (rule nth_equalityI)
  show "length (read_levels offset (length xs) (pre @ concat (map put_level_record xs) @ rest)) = length xs"
    by (simp add: read_levels_def)
  fix i assume "i < length (read_levels offset (length xs) (pre @ concat (map put_level_record xs) @ rest))"
  then have i: "i < length xs" by (simp add: read_levels_def)
  then have xs: "xs = take i xs @ xs ! i # drop (Suc i) xs" by (rule id_take_nth_drop)
  have "field (i * 24) 24 (concat (map put_level_record xs) @ rest) = put_level_record (xs ! i)"
    using i by (subst xs) (simp add: field_def level_record_round_trip(1))
  then show "read_levels offset (length xs) (pre @ concat (map put_level_record xs) @ rest) ! i = xs ! i"
    using i assms by (simp add: read_levels_def field_def level_record_round_trip(2))
qed

lemma snapshot_frame_length: "length (snapshot_frame sequence symbol_id bids asks) = 20 + (length bids + length asks) * 24"
  by (simp add: snapshot_frame_def header_round_trip(1) snapshot_header_round_trip(1))

lemma encode_snapshot_frame:
  assumes "20 + (length bids + length asks) * 24 \<le> length out" "16 + (length bids + length asks) * 24 \<le> 0xFFFF"
  shows "encode_snapshot out sequence symbol_id bids asks = (20 + (length bids + length asks) * 24,
    snapshot_frame sequence symbol_id bids asks @ drop (20 + (length bids + length asks) * 24) out)"
proof -
  have small: "length bids \<le> 0xFFFF" "length asks \<le> 0xFFFF" using assms(2) by simp_all
  show ?thesis
    using assms small
    by (simp add: encode_snapshot_def Let_def snapshot_frame_def write_at_def header_round_trip(1)
        snapshot_header_round_trip(1) algebra_simps)
qed

lemma decode_snapshot_frame:
  assumes "16 + (length bids + length asks) * 24 \<le> 0xFFFF"
  shows "decode_snapshot (snapshot_frame sequence symbol_id bids asks @ rest) =
    \<lparr>sd_status = DecOk, sd_header = \<lparr>bsh_sequence = sequence, bsh_symbol_id = symbol_id,
       bsh_bid_level_count = of_nat (length bids), bsh_ask_level_count = of_nat (length asks)\<rparr>,
     sd_bids = bids, sd_asks = asks, sd_consumed = 20 + (length bids + length asks) * 24\<rparr>"
proof -
  let ?snap = "\<lparr>bsh_sequence = sequence, bsh_symbol_id = symbol_id,
    bsh_bid_level_count = of_nat (length bids) :: u16, bsh_ask_level_count = of_nat (length asks) :: u16\<rparr>"
  let ?h = "\<lparr>mh_length = of_nat (16 + (length bids + length asks) * 24) :: u16, mh_type = message_type_code MtBookSnapshot\<rparr>"
  let ?in = "snapshot_frame sequence symbol_id bids asks @ rest"
  have inp: "?in = put_header ?h @ put_snapshot_header ?snap @
      concat (map put_level_record bids) @ concat (map put_level_record asks) @ rest"
    by (simp add: snapshot_frame_def)
  have hd: "peek_header ?in = Some ?h"
    unfolding inp peek_header_def by (simp add: header_round_trip)
  have snap: "get_snapshot_header (field 4 16 ?in) = ?snap"
    unfolding inp by (simp add: field_def header_round_trip(1) snapshot_header_round_trip)
  have bids: "read_levels 20 (length bids) ?in = bids"
    using read_levels_concat [of 20 "put_header ?h @ put_snapshot_header ?snap" bids
        "concat (map put_level_record asks) @ rest"]
    unfolding inp by (simp add: header_round_trip(1) snapshot_header_round_trip(1))
  have asks: "read_levels (20 + length bids * 24) (length asks) ?in = asks"
    using read_levels_concat [of "20 + length bids * 24"
        "put_header ?h @ put_snapshot_header ?snap @ concat (map put_level_record bids)" asks rest]
    unfolding inp by (simp add: header_round_trip(1) snapshot_header_round_trip(1))
  have u: "unat (mh_length ?h) = 16 + (length bids + length asks) * 24"
    "unat (bsh_bid_level_count ?snap) = length bids" "unat (bsh_ask_level_count ?snap) = length asks"
    using assms unat_of_nat_u16 [of "16 + (length bids + length asks) * 24"]
      unat_of_nat_u16 [of "length bids"] unat_of_nat_u16 [of "length asks"] by simp_all
  have len: "length ?in = 20 + (length bids + length asks) * 24 + length rest"
    by (simp add: snapshot_frame_length)
  show ?thesis
    unfolding decode_snapshot_def Let_def hd option.case snap u bids asks len by simp
qed

end
