(* ===== verification/Market_Data.thy ===== *)
theory Market_Data
  imports Matching_Engine Order_Book_Spec Codec
begin

text \<open>
  \<open>marketdata/sinks.hpp\<close> and \<open>marketdata/publisher.hpp\<close>: the byte sinks and the publisher that
  encodes trades, level updates, execution reports and snapshots.  The publisher is a template
  over the sink; its operations take the sink's \<open>write\<close> as an argument.  The interface
  \<open>byte_sink\<close> is what the publisher relies on: a write appends.
\<close>

subsection \<open>Sinks\<close>

record in_memory_sink =
  ims_buffer :: "u8 list"

definition ims_write :: "in_memory_sink \<Rightarrow> u8 list \<Rightarrow> in_memory_sink" where
  "ims_write s bytes = s\<lparr>ims_buffer := ims_buffer s @ bytes\<rparr>"

definition ims_data :: "in_memory_sink \<Rightarrow> u8 list" where
  "ims_data s = ims_buffer s"

definition ims_size :: "in_memory_sink \<Rightarrow> nat" where
  "ims_size s = length (ims_buffer s)"

definition ims_clear :: "in_memory_sink \<Rightarrow> in_memory_sink" where
  "ims_clear s = s\<lparr>ims_buffer := []\<rparr>"

text \<open>A file sink is the contents of its file; opening truncates the file or fails.\<close>

record file_sink =
  fs_contents :: "u8 list"

datatype file_sink_error = FailedToOpen

definition file_sink_open :: "bool \<Rightarrow> file_sink_error + file_sink" where
  "file_sink_open opened = (if \<not> opened then Inl FailedToOpen else Inr \<lparr>fs_contents = []\<rparr>)"

definition fs_write :: "file_sink \<Rightarrow> u8 list \<Rightarrow> file_sink" where
  "fs_write s bytes = s\<lparr>fs_contents := fs_contents s @ bytes\<rparr>"

subsection \<open>The publisher\<close>

record 's publisher =
  pub_sink :: 's
  pub_next_sequence :: u64
  pub_snapshot_scratch :: "u8 list"
  pub_bid_scratch :: "price_level_record list"
  pub_ask_scratch :: "price_level_record list"

definition publisher_init :: "'s \<Rightarrow> nat \<Rightarrow> 's publisher" where
  "publisher_init sink snapshot_scratch_bytes =
     \<lparr>pub_sink = sink, pub_next_sequence = 1, pub_snapshot_scratch = replicate snapshot_scratch_bytes 0,
      pub_bid_scratch = [], pub_ask_scratch = []\<rparr>"

definition send :: "('s \<Rightarrow> u8 list \<Rightarrow> 's) \<Rightarrow> 'p layout \<Rightarrow> nat \<Rightarrow> 'p \<Rightarrow> 's publisher \<Rightarrow> 's publisher" where
  "send write L buf_bytes msg p =
     (let (n, buf) = encode L (replicate buf_bytes 0) msg
      in p\<lparr>pub_sink := write (pub_sink p) (take n buf)\<rparr>)"

definition publish_trade :: "('s \<Rightarrow> u8 list \<Rightarrow> 's) \<Rightarrow> 's publisher \<Rightarrow> symbol_id \<Rightarrow> fill \<Rightarrow> 's publisher" where
  "publish_trade write p symbol f =
     (let msg = \<lparr>tm_sequence = pub_next_sequence p, tm_match_id = f_match_id f, tm_price = f_price f,
                 tm_quantity = f_quantity f, tm_symbol_id = symbol, tm_aggressor_side = f_aggressor_side f\<rparr>
      in send write trade_layout 64 msg (p\<lparr>pub_next_sequence := pub_next_sequence p + 1\<rparr>))"

definition publish_execution_report ::
    "('s \<Rightarrow> u8 list \<Rightarrow> 's) \<Rightarrow> 's publisher \<Rightarrow> execution_report_message \<Rightarrow> 's publisher" where
  "publish_execution_report write p msg = send write execution_report_layout 128 msg p"

definition publish_level_update ::
    "('s \<Rightarrow> u8 list \<Rightarrow> 's) \<Rightarrow> 's publisher \<Rightarrow> symbol_id \<Rightarrow> side \<Rightarrow> price \<Rightarrow> price_level \<Rightarrow> 's publisher" where
  "publish_level_update write p symbol s price lvl =
     (let msg = \<lparr>bdm_sequence = pub_next_sequence p, bdm_price = price,
                 bdm_aggregate_quantity = pl_total_quantity lvl, bdm_symbol_id = symbol,
                 bdm_order_count = pl_order_count lvl, bdm_side = s,
                 bdm_action = (if pl_order_count lvl = 0 then DeltaDelete else DeltaUpdate)\<rparr>
      in send write book_delta_layout 64 msg (p\<lparr>pub_next_sequence := pub_next_sequence p + 1\<rparr>))"

definition collect_level :: "nat \<Rightarrow> price \<Rightarrow> price_level \<Rightarrow> price_level_record list \<Rightarrow> bool \<times> price_level_record list" where
  "collect_level depth price lvl out =
     (let out' = out @ [\<lparr>plr_price = price, plr_aggregate_quantity = pl_total_quantity lvl,
                        plr_order_count = pl_order_count lvl\<rparr>]
      in (length out' < depth, out'))"

text \<open>The loop that doubles the scratch buffer until the snapshot fits, at most four times.\<close>

primrec snapshot_attempts ::
    "nat \<Rightarrow> u64 \<Rightarrow> u32 \<Rightarrow> price_level_record list \<Rightarrow> price_level_record list \<Rightarrow> u8 list \<Rightarrow> nat \<times> u8 list" where
  "snapshot_attempts 0 sequence symbol_id bids asks scratch = (0, scratch)"
| "snapshot_attempts (Suc k) sequence symbol_id bids asks scratch =
     (case encode_snapshot scratch sequence symbol_id bids asks of
        (written, scratch1) \<Rightarrow>
          if written > 0 then (written, scratch1)
          else snapshot_attempts k sequence symbol_id bids asks (scratch1 @ replicate (length scratch1) 0))"

definition publish_snapshot ::
    "('s \<Rightarrow> u8 list \<Rightarrow> 's) \<Rightarrow> 's publisher \<Rightarrow> symbol_id \<Rightarrow> 'm order_book \<Rightarrow> nat \<Rightarrow> 's publisher" where
  "publish_snapshot write p symbol b depth =
     (let bids = for_each_level b Buy (collect_level depth) [];
          asks = for_each_level b Sell (collect_level depth) [];
          (written, scratch) = snapshot_attempts 4 (pub_next_sequence p) symbol bids asks (pub_snapshot_scratch p);
          p1 = p\<lparr>pub_bid_scratch := bids, pub_ask_scratch := asks, pub_snapshot_scratch := scratch\<rparr>
      in if written = 0 then p1
         else p1\<lparr>pub_next_sequence := pub_next_sequence p1 + 1,
                 pub_sink := write (pub_sink p1) (take written scratch)\<rparr>)"

subsection \<open>The sink interface\<close>

locale byte_sink =
  fixes sink_write :: "'s \<Rightarrow> u8 list \<Rightarrow> 's"
    and data :: "'s \<Rightarrow> u8 list"
  assumes write_appends: "data (sink_write s bytes) = data s @ bytes"

interpretation memory_sink: byte_sink ims_write ims_data
  by unfold_locales (simp add: ims_write_def ims_data_def)

interpretation disk_sink: byte_sink fs_write fs_contents
  by unfold_locales (simp add: fs_write_def)

text \<open>What a publisher operation adds to the feed.\<close>

lemma send_frame:
  assumes "wire_format L" "4 + l_size L \<le> buf_bytes"
  shows "send write L buf_bytes msg p = p\<lparr>pub_sink := write (pub_sink p) (frame L msg)\<rparr>"
  using assms(2) wire_format.encode_frame [OF assms(1)] wire_format.frame_length [OF assms(1), of msg]
  by (simp add: send_def)

definition trade_of :: "u64 \<Rightarrow> symbol_id \<Rightarrow> fill \<Rightarrow> trade_message" where
  "trade_of n symbol f = \<lparr>tm_sequence = n, tm_match_id = f_match_id f, tm_price = f_price f,
     tm_quantity = f_quantity f, tm_symbol_id = symbol, tm_aggressor_side = f_aggressor_side f\<rparr>"

definition delta_of :: "u64 \<Rightarrow> symbol_id \<Rightarrow> side \<Rightarrow> price \<Rightarrow> price_level \<Rightarrow> book_delta_message" where
  "delta_of n symbol s price lvl = \<lparr>bdm_sequence = n, bdm_price = price,
     bdm_aggregate_quantity = pl_total_quantity lvl, bdm_symbol_id = symbol,
     bdm_order_count = pl_order_count lvl, bdm_side = s,
     bdm_action = (if pl_order_count lvl = 0 then DeltaDelete else DeltaUpdate)\<rparr>"

definition level_record :: "'m order_book \<Rightarrow> side \<Rightarrow> nat \<Rightarrow> price_level_record" where
  "level_record b s i = \<lparr>plr_price = price_at b i, plr_aggregate_quantity = pl_total_quantity (level_for b s i),
     plr_order_count = pl_order_count (level_for b s i)\<rparr>"

lemma publish_trade_eq:
  "publish_trade write p symbol f = p\<lparr>pub_next_sequence := pub_next_sequence p + 1,
     pub_sink := write (pub_sink p) (frame trade_layout (trade_of (pub_next_sequence p) symbol f))\<rparr>"
  unfolding publish_trade_def Let_def trade_of_def
  by (subst send_frame [OF trade_format.wire_format_axioms]) (simp_all add: trade_layout_def)

lemma publish_level_update_eq:
  "publish_level_update write p symbol s price lvl = p\<lparr>pub_next_sequence := pub_next_sequence p + 1,
     pub_sink := write (pub_sink p) (frame book_delta_layout (delta_of (pub_next_sequence p) symbol s price lvl))\<rparr>"
  unfolding publish_level_update_def Let_def delta_of_def
  by (subst send_frame [OF book_delta_format.wire_format_axioms]) (simp_all add: book_delta_layout_def)

lemma publish_execution_report_eq:
  "publish_execution_report write p msg =
     p\<lparr>pub_sink := write (pub_sink p) (frame execution_report_layout msg)\<rparr>"
  unfolding publish_execution_report_def
  by (rule send_frame [OF execution_report_format.wire_format_axioms]) (simp add: execution_report_layout_def)

subsection \<open>Snapshots\<close>

lemma visit_all_take:
  "visit_all (\<lambda>x out. (Suc (length out) < depth, out @ [f x])) xs out = out @ map f (take (max 1 (depth - length out)) xs)"
proof (induction xs arbitrary: out)
  case (Cons x xs)
  show ?case
  proof (cases "Suc (length out) < depth")
    case True
    then have "max 1 (depth - length out) = Suc (max 1 (depth - length (out @ [f x])))" by simp
    then show ?thesis using True Cons.IH [of "out @ [f x]"] by simp
  qed simp
qed simp

lemma collected_levels:
  assumes "book_inv H b"
  shows "for_each_level b s (collect_level depth) [] = map (level_record b s) (take (max 1 depth) (occupied_levels b s))"
  unfolding for_each_level_spec [OF assms]
  using visit_all_take [of depth "level_record b s" "occupied_levels b s" "[]"]
  by (simp add: collect_level_def [abs_def] Let_def level_record_def [abs_def])

lemma encode_snapshot_fails:
  assumes "length out < 20 + (length bids + length asks) * 24 \<or> 0xFFFF < 16 + (length bids + length asks) * 24"
  shows "encode_snapshot out sequence symbol_id bids asks = (0, out)"
  using assms by (auto simp: encode_snapshot_def Let_def)

lemma snapshot_attempts_ok:
  assumes "16 + (length bids + length asks) * 24 \<le> 0xFFFF"
    and "20 + (length bids + length asks) * 24 \<le> 2 ^ k * length scratch"
  shows "\<exists>scratch'. snapshot_attempts (Suc k) sequence symbol_id bids asks scratch =
      (20 + (length bids + length asks) * 24, scratch') \<and>
    take (20 + (length bids + length asks) * 24) scratch' = snapshot_frame sequence symbol_id bids asks \<and>
    length scratch \<le> length scratch'"
  using assms(2)
proof (induction k arbitrary: scratch)
  case 0
  then show ?case using encode_snapshot_frame [OF _ assms(1), of scratch sequence symbol_id]
    by (simp add: snapshot_frame_length)
next
  case (Suc k)
  show ?case
  proof (cases "20 + (length bids + length asks) * 24 \<le> length scratch")
    case True
    then show ?thesis using encode_snapshot_frame [OF True assms(1), of sequence symbol_id]
      by (simp add: snapshot_frame_length)
  next
    case False
    then have "encode_snapshot scratch sequence symbol_id bids asks = (0, scratch)"
      by (intro encode_snapshot_fails) simp
    moreover from Suc.IH [of "scratch @ replicate (length scratch) 0"] Suc.prems obtain scratch' where
      "snapshot_attempts (Suc k) sequence symbol_id bids asks (scratch @ replicate (length scratch) 0) =
        (20 + (length bids + length asks) * 24, scratch')"
      "take (20 + (length bids + length asks) * 24) scratch' = snapshot_frame sequence symbol_id bids asks"
      "length scratch + length scratch \<le> length scratch'" by (auto simp: mult.assoc mult_2_right algebra_simps)
    ultimately show ?thesis
      by (subst snapshot_attempts.simps) (auto simp del: snapshot_attempts.simps)
  qed
qed

lemma snapshot_attempts_oversized:
  assumes "0xFFFF < 16 + (length bids + length asks) * 24"
  shows "snapshot_attempts k sequence symbol_id bids asks scratch = (0, scratch @ replicate ((2 ^ k - 1) * length scratch) 0)"
proof (induction k arbitrary: scratch)
  case (Suc k)
  have "length scratch + (2 ^ k - 1) * (2 * length scratch) = (2 ^ Suc k - 1) * length scratch"
    by (cases "2 ^ k :: nat") (simp_all add: algebra_simps)
  then show ?case
    using encode_snapshot_fails [OF disjI2 [OF assms], of scratch sequence symbol_id] Suc
    by (simp add: replicate_add [symmetric] mult_2 del: replicate_add)
qed simp

end
