(* ===== verification/Feed_Properties.thy ===== *)
theory Feed_Properties
  imports Market_Data Book_Properties
begin

text \<open>
  The properties of the wire codec and of the market-data publisher.
\<close>

subsection \<open>The codec\<close>

text \<open>Encoding into a buffer and decoding what was written, followed by any further bytes.\<close>

definition encodes_faithfully :: "'p layout \<Rightarrow> 'p \<Rightarrow> u8 list \<Rightarrow> u8 list \<Rightarrow> bool" where
  "encodes_faithfully L m out rest \<longleftrightarrow> (case encode L out m of (n, buf) \<Rightarrow>
     if length out < 4 + l_size L then n = 0 \<and> buf = out
     else n = 4 + l_size L \<and> length buf = length out \<and> drop n buf = drop n out \<and>
       decode L (take n buf @ rest) = \<lparr>dr_status = DecOk, dr_payload = Some m, dr_consumed = n\<rparr>)"

context wire_format
begin

lemma faithful: "encodes_faithfully L m out rest"
  using decode_frame [of m rest] frame_length [of m] by (simp add: encodes_faithfully_def encode_frame)

end

text \<open>C22: for each of the six fixed-size messages, \<open>encode\<close> writes nothing if the buffer is too small;
  otherwise it writes the frame, touches no byte after it, and \<open>decode\<close> returns the message and the
  number of bytes written, whatever follows on the wire.\<close>

theorem messages_round_trip:
  "encodes_faithfully new_order_layout m1 out rest \<and> encodes_faithfully cancel_order_layout m2 out rest \<and>
   encodes_faithfully replace_order_layout m3 out rest \<and> encodes_faithfully execution_report_layout m4 out rest \<and>
   encodes_faithfully trade_layout m5 out rest \<and> encodes_faithfully book_delta_layout m6 out rest"
  using new_order_format.faithful cancel_order_format.faithful replace_order_format.faithful
    execution_report_format.faithful trade_format.faithful book_delta_format.faithful by blast

text \<open>Decoding arbitrary bytes is total and never reads past the input: it reports success exactly
  when the input starts with a header of the right type and length and holds the whole payload,
  and then consumes header and payload.\<close>

theorem decode_is_bounded:
  "dr_consumed (decode L inp) \<le> length inp \<and>
   (dr_status (decode L inp) = DecOk \<longleftrightarrow> 4 + l_size L \<le> length inp \<and>
      mh_type (get_header inp) = message_type_code (l_type L) \<and> unat (mh_length (get_header inp)) = l_size L) \<and>
   (dr_status (decode L inp) = DecOk \<longleftrightarrow> dr_consumed (decode L inp) = 4 + l_size L)"
  by (auto simp: decode_def peek_header_def Let_def)

text \<open>C23: a depth snapshot that fits the 16-bit length field and the buffer is decoded to the same header
  and the same levels, bids and asks apart.\<close>

theorem snapshot_round_trip:
  assumes "20 + (length bids + length asks) * 24 \<le> length out" "16 + (length bids + length asks) * 24 \<le> 0xFFFF"
  shows "\<exists>n buf. encode_snapshot out sequence symbol_id bids asks = (n, buf) \<and> 0 < n \<and>
    decode_snapshot (take n buf @ rest) = \<lparr>sd_status = DecOk,
      sd_header = \<lparr>bsh_sequence = sequence, bsh_symbol_id = symbol_id,
        bsh_bid_level_count = of_nat (length bids), bsh_ask_level_count = of_nat (length asks)\<rparr>,
      sd_bids = bids, sd_asks = asks, sd_consumed = n\<rparr>"
  using encode_snapshot_frame [OF assms, of sequence symbol_id] decode_snapshot_frame [OF assms(2), of sequence symbol_id rest]
  by (simp add: snapshot_frame_length)

theorem snapshot_round_trip_witness:
  "\<exists>n buf. encode_snapshot (replicate 64 0) 5 1 [\<lparr>plr_price = 101, plr_aggregate_quantity = 5, plr_order_count = 1\<rparr>] [] = (n, buf) \<and>
     sd_bids (decode_snapshot (take n buf)) = [\<lparr>plr_price = 101, plr_aggregate_quantity = 5, plr_order_count = 1\<rparr>]"
  using snapshot_round_trip [of "[\<lparr>plr_price = 101, plr_aggregate_quantity = 5, plr_order_count = 1\<rparr>]" "[]" "replicate 64 0" 5 1 "[]"]
  by auto

subsection \<open>Snapshots of a book\<close>

definition snapshot_levels :: "'m order_book \<Rightarrow> side \<Rightarrow> nat \<Rightarrow> price_level_record list" where
  "snapshot_levels b s depth = map (level_record b s) (take (max 1 depth) (occupied_levels b s))"

lemma collected_snapshot:
  "book_inv H b \<Longrightarrow> for_each_level b s (collect_level depth) [] = snapshot_levels b s depth"
  unfolding snapshot_levels_def by (rule collected_levels)

text \<open>C24: \<open>publish_snapshot\<close> sends the best levels of each side, best first, with their aggregates, under
  the next sequence number, as long as the snapshot fits the wire format and eight times the scratch
  buffer.  It takes at least one level per side: a depth of zero is treated as one.\<close>

theorem publish_snapshot_sends_best_levels:
  assumes "book_inv H b"
    and "16 + (length (snapshot_levels b Buy depth) + length (snapshot_levels b Sell depth)) * 24 \<le> 0xFFFF"
    and "20 + (length (snapshot_levels b Buy depth) + length (snapshot_levels b Sell depth)) * 24
      \<le> 8 * length (pub_snapshot_scratch p)"
  shows "ims_data (pub_sink (publish_snapshot ims_write p symbol b depth)) = ims_data (pub_sink p) @
      snapshot_frame (pub_next_sequence p) symbol (snapshot_levels b Buy depth) (snapshot_levels b Sell depth) \<and>
    pub_next_sequence (publish_snapshot ims_write p symbol b depth) = pub_next_sequence p + 1"
proof -
  let ?bids = "snapshot_levels b Buy depth" and ?asks = "snapshot_levels b Sell depth"
  let ?n = "20 + (length ?bids + length ?asks) * 24"
  have fits: "?n \<le> 2 ^ 3 * length (pub_snapshot_scratch p)" using assms(3) by simp
  from snapshot_attempts_ok [OF assms(2) fits, of "pub_next_sequence p" symbol] obtain scratch where
    "snapshot_attempts 4 (pub_next_sequence p) symbol ?bids ?asks (pub_snapshot_scratch p) = (?n, scratch)"
    "take ?n scratch = snapshot_frame (pub_next_sequence p) symbol ?bids ?asks"
    by (auto simp: numeral_eq_Suc simp del: snapshot_attempts.simps)
  then show ?thesis
    by (simp add: publish_snapshot_def collected_snapshot [OF assms(1)] Let_def memory_sink.write_appends)
qed

definition demo_publisher :: "in_memory_sink publisher" where
  "demo_publisher = publisher_init \<lparr>ims_buffer = []\<rparr> 8192"

lemma occupied_levels_demo: "length (occupied_levels demo_two s) \<le> 4"
proof -
  have "length (priority_indices s 4) = 4" by (simp add: priority_indices_def)
  then show ?thesis
    unfolding occupied_levels_def demo_two_config
    using length_filter_le [of "\<lambda>i. book_orders demo_two s i \<noteq> []" "priority_indices s 4"] by linarith
qed

theorem publish_snapshot_sends_best_levels_witness:
  "book_inv fun_map demo_two \<and>
   ims_data (pub_sink (publish_snapshot ims_write demo_publisher 1 demo_two 5)) =
     snapshot_frame 1 1 (snapshot_levels demo_two Buy 5) (snapshot_levels demo_two Sell 5)"
proof -
  have len: "length (snapshot_levels demo_two s 5) \<le> 4" for s
    using occupied_levels_demo [of s] by (simp add: snapshot_levels_def)
  have "16 + (length (snapshot_levels demo_two Buy 5) + length (snapshot_levels demo_two Sell 5)) * 24 \<le> 0xFFFF"
    using len [of Buy] len [of Sell] by simp
  moreover have "20 + (length (snapshot_levels demo_two Buy 5) + length (snapshot_levels demo_two Sell 5)) * 24
      \<le> 8 * length (pub_snapshot_scratch demo_publisher)"
    using len [of Buy] len [of Sell] by (simp add: demo_publisher_def publisher_init_def)
  ultimately show ?thesis
    using publish_snapshot_sends_best_levels [OF demo_two_inv(1), of 5 demo_publisher 1] demo_two_inv(1)
    by (simp add: demo_publisher_def publisher_init_def ims_data_def)
qed

text \<open>C25: when a snapshot is too large for the 16-bit length field, the retry loop of \<open>publish_snapshot\<close>
  sends nothing but leaves the scratch buffer sixteen times as long; every further attempt grows it
  again.\<close>

theorem oversized_snapshot_grows_scratch:
  assumes "0xFFFF < 16 + (length bids + length asks) * 24"
  shows "\<exists>scratch'. snapshot_attempts 4 sequence symbol_id bids asks scratch = (0, scratch') \<and>
    length scratch' = 16 * length scratch"
  using snapshot_attempts_oversized [OF assms, of 4 sequence symbol_id scratch] by simp

theorem oversized_snapshot_grows_scratch_witness:
  "\<exists>scratch'. snapshot_attempts 4 1 1 (replicate 2730 \<lparr>plr_price = 101, plr_aggregate_quantity = 5, plr_order_count = 1\<rparr>) []
     (replicate 8192 0) = (0, scratch') \<and> length scratch' = 131072"
proof -
  let ?bids = "replicate 2730 \<lparr>plr_price = 101, plr_aggregate_quantity = 5, plr_order_count = 1\<rparr>"
  have "0xFFFF < 16 + (length ?bids + length []) * 24" unfolding length_replicate by simp
  from oversized_snapshot_grows_scratch [OF this, of 1 1 "replicate 8192 0"] obtain scratch' where
    "snapshot_attempts 4 1 1 ?bids [] (replicate 8192 0) = (0, scratch')" "length scratch' = 16 * 8192"
    unfolding length_replicate by blast
  moreover from this(2) have "length scratch' = 131072" by simp
  ultimately show ?thesis by blast
qed

end
