(* ===== verification/Replay_Engine.thy ===== *)
theory Replay_Engine
  imports Correctness Risk_Engine Market_Data
begin

text \<open>
  \<open>replay/replay_engine.hpp\<close>: \<open>DeterministicClock\<close> and \<open>ReplayEngine\<close>, the driver that runs the
  risk gate, the matching engine and the publisher on each incoming message.  The engine holds
  references to the three components; here they are fields of its state.  A handler returns
  \<open>None\<close> only if the matching loop does not return.
\<close>

subsection \<open>The clock\<close>

record deterministic_clock =
  dc_current :: nanos
  dc_step :: nanos

definition clock_init :: "nanos \<Rightarrow> nanos \<Rightarrow> deterministic_clock" where
  "clock_init start step = \<lparr>dc_current = start, dc_step = step\<rparr>"

definition clock_now :: "deterministic_clock \<Rightarrow> nanos" where
  "clock_now c = dc_current c"

definition clock_tick :: "deterministic_clock \<Rightarrow> nanos \<times> deterministic_clock" where
  "clock_tick c = (dc_current c, c\<lparr>dc_current := dc_current c + dc_step c\<rparr>)"

definition clock_advance :: "deterministic_clock \<Rightarrow> nanos \<Rightarrow> deterministic_clock" where
  "clock_advance c delta = c\<lparr>dc_current := dc_current c + delta\<rparr>"

subsection \<open>The engine\<close>

record ('m, 'x, 's) replay_engine =
  rp_matching :: "'m engine"
  rp_risk :: "'x risk_engine"
  rp_feed :: "'s publisher"
  rp_next_sequence :: seq_no
  rp_fill_scratch :: "fill list"

definition replay_init :: "'m engine \<Rightarrow> 'x risk_engine \<Rightarrow> 's publisher \<Rightarrow> ('m, 'x, 's) replay_engine" where
  "replay_init matching risk feed = \<lparr>rp_matching = matching, rp_risk = risk, rp_feed = feed,
     rp_next_sequence = 1, rp_fill_scratch = []\<rparr>"

definition publish_level ::
    "('s \<Rightarrow> u8 list \<Rightarrow> 's) \<Rightarrow> ('m, 'x, 's) replay_engine \<Rightarrow> symbol_id \<Rightarrow> side \<Rightarrow> price \<Rightarrow> ('m, 'x, 's) replay_engine" where
  "publish_level W r symbol s price =
     (case level_at (me_book (rp_matching r)) s price of
        None \<Rightarrow> r
      | Some lvl \<Rightarrow> r\<lparr>rp_feed := publish_level_update W (rp_feed r) symbol s price lvl\<rparr>)"

fun apply_fills ::
    "'x exposure_ops \<Rightarrow> ('s \<Rightarrow> u8 list \<Rightarrow> 's) \<Rightarrow> ('m, 'x, 's) replay_engine \<Rightarrow> symbol_id \<Rightarrow> fill list \<Rightarrow>
       ('m, 'x, 's) replay_engine" where
  "apply_fills X W r symbol [] = r"
| "apply_fills X W r symbol (f # fs) =
     (let r1 = r\<lparr>rp_feed := publish_trade W (rp_feed r) symbol f\<rparr>;
          resting_side = opposite (f_aggressor_side f);
          risk1 = record_fill X (rp_risk r1) (f_resting_client_id f) symbol resting_side (f_price f) (f_quantity f);
          risk2 = record_fill X risk1 (f_aggressor_client_id f) symbol (f_aggressor_side f) (f_price f) (f_quantity f);
          r2 = publish_level W (r1\<lparr>rp_risk := risk2\<rparr>) symbol resting_side (f_price f)
      in apply_fills X W r2 symbol fs)"

definition report_totals :: "fill list \<Rightarrow> quantity \<times> price \<times> u64" where
  "report_totals fills =
     foldl (\<lambda>(total_filled, last_price, last_match_id) f.
       (total_filled + f_quantity f, f_price f, f_match_id f)) (0, 0, 0) fills"

definition publish_report ::
    "('s \<Rightarrow> u8 list \<Rightarrow> 's) \<Rightarrow> ('m, 'x, 's) replay_engine \<Rightarrow> order_id \<Rightarrow> client_id \<Rightarrow> symbol_id \<Rightarrow> fill list \<Rightarrow>
       quantity \<Rightarrow> exec_type \<Rightarrow> reject_reason \<Rightarrow> ('m, 'x, 's) replay_engine" where
  "publish_report W r oid client symbol fills leaves_quantity exec_type reject_reason =
     (case report_totals fills of
        (total_filled, last_price, last_match_id) \<Rightarrow>
          r\<lparr>rp_feed := publish_execution_report W (rp_feed r)
             \<lparr>erm_order_id = oid, erm_match_id = last_match_id, erm_price = last_price,
              erm_last_quantity = total_filled, erm_leaves_quantity = leaves_quantity,
              erm_client_id = client, erm_symbol_id = symbol, erm_exec_type = exec_type,
              erm_reject_reason = reject_reason\<rparr>\<rparr>)"

definition order_of_wire :: "new_order_message \<Rightarrow> seq_no \<Rightarrow> nanos \<Rightarrow> order" where
  "order_of_wire wire seq timestamp =
     \<lparr>o_id = nom_order_id wire, o_client = nom_client_id wire, o_symbol = nom_symbol_id wire,
      o_side = nom_side wire, o_type = nom_order_type wire, o_tif = nom_time_in_force wire,
      o_price = nom_price wire, o_quantity = nom_quantity wire, o_remaining = nom_quantity wire,
      o_sequence = seq, o_timestamp = timestamp\<rparr>"

definition new_order_exec_type :: "new_order_result \<Rightarrow> fill list \<Rightarrow> exec_type" where
  "new_order_exec_type result fills =
     (if nr_reject_reason result \<noteq> NoReject then ExecRejected
      else if sint (nr_remaining_after result) = 0 then ExecFill
      else if fills \<noteq> [] then ExecPartialFill
      else if nr_rested result then ExecNew
      else ExecCancelled)"

definition process_new_order ::
    "'m index_ops \<Rightarrow> 'x exposure_ops \<Rightarrow> ('s \<Rightarrow> u8 list \<Rightarrow> 's) \<Rightarrow> ('m, 'x, 's) replay_engine \<Rightarrow>
       new_order_message \<Rightarrow> nanos \<Rightarrow> ('m, 'x, 's) replay_engine option" where
  "process_new_order H X W r0 wire timestamp =
     (let ord = order_of_wire wire (rp_next_sequence r0) timestamp;
          r = r0\<lparr>rp_next_sequence := rp_next_sequence r0 + 1\<rparr>;
          risk_reason = check_new_order X (rp_risk r) ord
      in if risk_reason \<noteq> NoReject
         then Some (publish_report W r (o_id ord) (o_client ord) (o_symbol ord) [] (o_quantity ord)
                      ExecRejected risk_reason)
         else (case submit H (rp_matching r) ord [] of
             None \<Rightarrow> None
           | Some (result, m, fills) \<Rightarrow>
               let r1 = r\<lparr>rp_matching := m, rp_fill_scratch := fills\<rparr>;
                   r2 = apply_fills X W r1 (o_symbol ord) fills;
                   r3 = (if nr_rested result then publish_level W r2 (o_symbol ord) (o_side ord) (o_price ord) else r2)
               in Some (publish_report W r3 (o_id ord) (o_client ord) (o_symbol ord) fills
                          (nr_remaining_after result) (new_order_exec_type result fills) (nr_reject_reason result))))"

definition process_cancel ::
    "'m index_ops \<Rightarrow> ('s \<Rightarrow> u8 list \<Rightarrow> 's) \<Rightarrow> ('m, 'x, 's) replay_engine \<Rightarrow> cancel_order_message \<Rightarrow>
       ('m, 'x, 's) replay_engine" where
  "process_cancel H W r wire =
     (case book_find H (me_book (rp_matching r)) (com_order_id wire) of
        None \<Rightarrow> publish_report W r (com_order_id wire) (com_client_id wire) (com_symbol_id wire) [] 0
                  ExecRejected UnknownOrder
      | Some existing \<Rightarrow>
          let ord = n_order (nodes (me_book (rp_matching r)) ! existing);
              (res, m) = engine_cancel H (rp_matching r) (com_order_id wire);
              r1 = r\<lparr>rp_matching := m\<rparr>
          in if cr_accepted res
             then publish_report W (publish_level W r1 (o_symbol ord) (o_side ord) (o_price ord))
                    (com_order_id wire) (o_client ord) (o_symbol ord) [] 0 ExecCancelled NoReject
             else r1)"

definition process_replace ::
    "'m index_ops \<Rightarrow> 'x exposure_ops \<Rightarrow> ('s \<Rightarrow> u8 list \<Rightarrow> 's) \<Rightarrow> ('m, 'x, 's) replay_engine \<Rightarrow>
       replace_order_message \<Rightarrow> nanos \<Rightarrow> ('m, 'x, 's) replay_engine option" where
  "process_replace H X W r0 wire timestamp =
     (case book_find H (me_book (rp_matching r0)) (rom_order_id wire) of
        None \<Rightarrow> Some (publish_report W r0 (rom_order_id wire) (rom_client_id wire) (rom_symbol_id wire) [] 0
                       ExecRejected UnknownOrder)
      | Some existing \<Rightarrow>
          let ord = n_order (nodes (me_book (rp_matching r0)) ! existing);
              seq = rp_next_sequence r0;
              r = r0\<lparr>rp_next_sequence := seq + 1\<rparr>
          in (case engine_replace H (rp_matching r) (rom_order_id wire) (rom_new_price wire)
                     (rom_new_quantity wire) seq timestamp [] of
                None \<Rightarrow> None
              | Some (result, m, fills) \<Rightarrow>
                  let r1 = r\<lparr>rp_matching := m, rp_fill_scratch := fills\<rparr>
                  in if \<not> rr_accepted result
                     then Some (publish_report W r1 (rom_order_id wire) (o_client ord) (o_symbol ord) [] 0
                                  ExecRejected (rr_reject_reason result))
                     else
                       let r2 = apply_fills X W r1 (o_symbol ord) fills;
                           r3 = publish_level W r2 (o_symbol ord) (o_side ord) (o_price ord);
                           r4 = (if rr_rested result
                                 then publish_level W r3 (o_symbol ord) (o_side ord) (rom_new_price wire) else r3);
                           exec_type = (if sint (rr_remaining_after result) = 0 then ExecFill
                                        else if fills \<noteq> [] then ExecPartialFill else ExecReplaced)
                       in Some (publish_report W r4 (rom_order_id wire) (o_client ord) (o_symbol ord) fills
                                  (rr_remaining_after result) exec_type NoReject)))"

end
