(* ===== verification/Book_Changes.thy ===== *)
theory Book_Changes
  imports Matching_Props
begin

text \<open>
  Which price levels an operation of the engine changes.  A level is the list of the orders that
  rest at a price; a submit changes the levels it fills from and the one it rests on, a cancel the
  one of the cancelled order.
\<close>

definition orders_at :: "'m order_book \<Rightarrow> side \<Rightarrow> price \<Rightarrow> order list" where
  "orders_at b s p = filter (\<lambda>x. o_price x = p) (priority_orders b s)"

definition changed :: "'m order_book \<Rightarrow> 'm order_book \<Rightarrow> (side \<times> price) set" where
  "changed b b' = {(s, p). orders_at b s p \<noteq> orders_at b' s p}"

lemma changed_refl [simp]: "changed b b = {}"
  by (simp add: changed_def)

lemma changed_trans: "changed b b'' \<subseteq> changed b b' \<union> changed b' b''"
  by (auto simp: changed_def)

lemma leftover_at:
  "p \<notin> o_price ` fst ` set (greedy_fills q rs) \<Longrightarrow>
     filter (\<lambda>x. o_price x = p) (leftover q rs) = filter (\<lambda>x. o_price x = p) rs"
proof (induction rs arbitrary: q)
  case (Cons r rs)
  have "min_amount q (o_remaining r) = o_remaining r" if "\<not> sint q < sint (o_remaining r)"
    using that sint_eq_iff_i64 [of q "o_remaining r"] by (auto simp: min_amount_def)
  with Cons show ?case by auto
qed simp

lemma insert_priority_at:
  "o_price ord \<noteq> p \<Longrightarrow> filter (\<lambda>x. o_price x = p) (insert_priority s ord xs) = filter (\<lambda>x. o_price x = p) xs"
  by (induction xs) auto

lemma fills_of_prices: "f_price ` set (fills_of agg m fs) = o_price ` fst ` set fs"
  by (induction agg m fs rule: fills_of.induct) simp_all

lemma fills_of_side: "f \<in> set (fills_of agg m fs) \<Longrightarrow> f_aggressor_side f = o_side agg"
  by (induction agg m fs rule: fills_of.induct) auto

lemma submit_changes:
  assumes inv: "engine_inv H e" and run: "submit H e ord out = Some (r, e', out @ fills)"
  shows "changed (me_book e) (me_book e') \<subseteq>
    {(opposite (f_aggressor_side f), f_price f) | f. f \<in> set fills} \<union> (if nr_rested r then {(o_side ord, o_price ord)} else {})"
proof (cases "admitted e ord")
  case False
  then show ?thesis using run submit_not_admitted [OF False, of H out] by simp
next
  case True
  let ?Q = "priority_orders (me_book e) (opposite (o_side ord))" and ?X = "\<lambda>x. acceptable ord (o_price x)"
  have r: "fills = submit_fills e ord"
    "priority_orders (me_book e') (opposite (o_side ord)) = leftover (o_quantity ord) (crossing_orders e ord) @ dropWhile ?X ?Q"
    "priority_orders (me_book e') (o_side ord) = (if nr_rested r
       then insert_priority (o_side ord) (ord\<lparr>o_remaining := submit_remaining e ord\<rparr>) (priority_orders (me_book e) (o_side ord))
       else priority_orders (me_book e) (o_side ord))"
    using run by (auto intro: submit_books [OF inv True, of out])
  have fl: "(opposite (o_side ord), p) \<in> {(opposite (f_aggressor_side f), f_price f) | f. f \<in> set fills}"
    if gp: "p \<in> o_price ` fst ` set (greedy_fills (o_quantity ord) (crossing_orders e ord))" for p
  proof -
    obtain f where f: "f \<in> set fills" "p = f_price f"
      using gp unfolding r(1) submit_fills_def fills_of_prices [of ord "me_next_match_id e", symmetric] by blast
    moreover from f(1) have "f_aggressor_side f = o_side ord" unfolding r(1) submit_fills_def by (rule fills_of_side)
    ultimately show ?thesis by (auto intro!: exI [of _ f])
  qed
  have opp: "orders_at (me_book e') (opposite (o_side ord)) p = orders_at (me_book e) (opposite (o_side ord)) p"
    if "p \<notin> o_price ` fst ` set (greedy_fills (o_quantity ord) (crossing_orders e ord))" for p
    using leftover_at [OF that] unfolding orders_at_def r(2) crossing_orders_def
    by (simp only: filter_append) (simp only: takeWhile_dropWhile_id flip: filter_append)
  have own: "orders_at (me_book e') (o_side ord) p = orders_at (me_book e) (o_side ord) p"
    if "nr_rested r \<longrightarrow> o_price ord \<noteq> p" for p
    using that unfolding orders_at_def r(3) by (simp add: insert_priority_at)
  show ?thesis
  proof (rule subrelI)
    fix s p assume ch: "(s, p) \<in> changed (me_book e) (me_book e')"
    show "(s, p) \<in> {(opposite (f_aggressor_side f), f_price f) | f. f \<in> set fills} \<union>
        (if nr_rested r then {(o_side ord, o_price ord)} else {})"
    proof (cases "s = o_side ord")
      case True
      then show ?thesis using ch own [of p] by (auto simp: changed_def)
    next
      case False
      then have "s = opposite (o_side ord)" by (cases s; cases "o_side ord") simp_all
      then show ?thesis using ch opp [of p] fl [of p] by (auto simp: changed_def)
    qed
  qed
qed

lemma cancel_changes:
  assumes H: "hash_map_spec H" and inv: "book_inv H b" and x: "x \<in> set (priority_orders b s)"
  shows "changed b (snd (book_cancel H b (o_id x))) \<subseteq> {(s, o_price x)}"
proof (rule subrelI)
  fix t p assume ch: "(t, p) \<in> changed b (snd (book_cancel H b (o_id x)))"
  have "y = x \<and> t = s" if "y \<in> set (priority_orders b t)" "o_id y = o_id x" for y
    using priority_orders_unique [OF inv that(1) x that(2)] by blast
  then show "(t, p) \<in> {(s, o_price x)}"
    using ch by (force simp: changed_def orders_at_def book_cancel_priority [OF H inv] intro!: filter_cong)
qed

end
