(* ===== verification/Replay_Spec.thy ===== *)
theory Replay_Spec
  imports Replay_Engine Book_Changes
begin

text \<open>
  What the driver publishes and what it leaves behind.  The feed is described as a list of
  events; the lemmas about it are proved once for any sink that appends and used for the
  in-memory sink.
\<close>

subsection \<open>The feed as a list of events\<close>

datatype feed_event =
    EvTrade trade_message
  | EvDelta book_delta_message
  | EvReport execution_report_message

fun event_bytes :: "feed_event \<Rightarrow> u8 list" where
  "event_bytes (EvTrade m) = frame trade_layout m"
| "event_bytes (EvDelta m) = frame book_delta_layout m"
| "event_bytes (EvReport m) = frame execution_report_layout m"

fun event_sequence :: "feed_event \<Rightarrow> u64 option" where
  "event_sequence (EvTrade m) = Some (tm_sequence m)"
| "event_sequence (EvDelta m) = Some (bdm_sequence m)"
| "event_sequence (EvReport m) = None"

text \<open>The sequence number after a list of events that carries consecutive numbers from \<open>n\<close> on.\<close>

fun numbered :: "u64 \<Rightarrow> feed_event list \<Rightarrow> u64 option" where
  "numbered n [] = Some n"
| "numbered n (ev # evs) = (case event_sequence ev of
     None \<Rightarrow> numbered n evs | Some m \<Rightarrow> if m = n then numbered (n + 1) evs else None)"

lemma numbered_append: "numbered n (xs @ ys) = Option.bind (numbered n xs) (\<lambda>m. numbered m ys)"
  by (induction xs arbitrary: n) (auto split: option.split)

definition level_events :: "'m order_book \<Rightarrow> u64 \<Rightarrow> symbol_id \<Rightarrow> side \<Rightarrow> price \<Rightarrow> feed_event list" where
  "level_events b n symbol s price = (case level_at b s price of
     None \<Rightarrow> [] | Some lvl \<Rightarrow> [EvDelta (delta_of n symbol s price lvl)])"

fun fill_events :: "'m order_book \<Rightarrow> u64 \<Rightarrow> symbol_id \<Rightarrow> fill list \<Rightarrow> feed_event list" where
  "fill_events b n symbol [] = []"
| "fill_events b n symbol (f # fs) =
     (let lvl = level_events b (n + 1) symbol (opposite (f_aggressor_side f)) (f_price f)
      in EvTrade (trade_of n symbol f) # lvl @ fill_events b (n + 1 + of_nat (length lvl)) symbol fs)"

definition report_of :: "order_id \<Rightarrow> client_id \<Rightarrow> symbol_id \<Rightarrow> fill list \<Rightarrow> quantity \<Rightarrow> exec_type \<Rightarrow> reject_reason \<Rightarrow>
    execution_report_message" where
  "report_of oid client symbol fills leaves exec_type reason =
     (case report_totals fills of (filled, last_price, last_match) \<Rightarrow>
       \<lparr>erm_order_id = oid, erm_match_id = last_match, erm_price = last_price, erm_last_quantity = filled,
        erm_leaves_quantity = leaves, erm_client_id = client, erm_symbol_id = symbol,
        erm_exec_type = exec_type, erm_reject_reason = reason\<rparr>)"

text \<open>The ledger entries of a list of fills.\<close>

fun record_fills :: "'x exposure_ops \<Rightarrow> 'x risk_engine \<Rightarrow> symbol_id \<Rightarrow> fill list \<Rightarrow> 'x risk_engine" where
  "record_fills X risk symbol [] = risk"
| "record_fills X risk symbol (f # fs) = record_fills X
     (record_fill X (record_fill X risk (f_resting_client_id f) symbol (opposite (f_aggressor_side f)) (f_price f) (f_quantity f))
       (f_aggressor_client_id f) symbol (f_aggressor_side f) (f_price f) (f_quantity f)) symbol fs"

context byte_sink
begin

text \<open>Publishing appends these events, numbered from the publisher's next sequence number on.\<close>

definition emits :: "'s publisher \<Rightarrow> feed_event list \<Rightarrow> 's publisher \<Rightarrow> bool" where
  "emits p evs p' \<longleftrightarrow> data (pub_sink p') = data (pub_sink p) @ concat (map event_bytes evs) \<and>
     numbered (pub_next_sequence p) evs = Some (pub_next_sequence p')"

lemma emits_Nil [simp]: "emits p [] p"
  by (simp add: emits_def)

lemma emits_trans: "emits p xs q \<Longrightarrow> emits q ys r \<Longrightarrow> emits p (xs @ ys) r"
  by (simp add: emits_def numbered_append)

lemma emits_next: "emits p xs q \<Longrightarrow> numbered (pub_next_sequence p) xs = Some (pub_next_sequence q)"
  by (simp add: emits_def)

lemma publish_trade_emits:
  "emits p [EvTrade (trade_of (pub_next_sequence p) symbol f)] (publish_trade sink_write p symbol f)"
  by (simp add: emits_def publish_trade_eq write_appends trade_of_def)

lemma publish_level_emits:
  "emits (rp_feed r) (level_events (me_book (rp_matching r)) (pub_next_sequence (rp_feed r)) symbol s price)
     (rp_feed (publish_level sink_write r symbol s price))"
  by (auto simp: emits_def level_events_def publish_level_def publish_level_update_eq write_appends delta_of_def
      split: option.split)

lemma publish_report_emits:
  "emits (rp_feed r) [EvReport (report_of oid client symbol fills leaves xt reason)]
     (rp_feed (publish_report sink_write r oid client symbol fills leaves xt reason))"
  by (simp add: emits_def publish_report_def publish_execution_report_eq write_appends report_of_def split: prod.split)

lemma publish_level_frame [simp]:
  "rp_matching (publish_level sink_write r symbol s price) = rp_matching r"
  "rp_risk (publish_level sink_write r symbol s price) = rp_risk r"
  "rp_next_sequence (publish_level sink_write r symbol s price) = rp_next_sequence r"
  by (simp_all add: publish_level_def split: option.split)

lemma publish_report_frame [simp]:
  "rp_matching (publish_report sink_write r oid client symbol fills leaves xt reason) = rp_matching r"
  "rp_risk (publish_report sink_write r oid client symbol fills leaves xt reason) = rp_risk r"
  "rp_next_sequence (publish_report sink_write r oid client symbol fills leaves xt reason) = rp_next_sequence r"
  by (simp_all add: publish_report_def split: prod.split)

lemma level_events_next:
  "pub_next_sequence (rp_feed (publish_level sink_write r symbol s price)) =
     pub_next_sequence (rp_feed r) + of_nat (length (level_events (me_book (rp_matching r)) n symbol s price))"
  by (simp add: publish_level_def level_events_def publish_level_update_eq split: option.split)

lemma apply_fills_spec:
  "rp_matching (apply_fills X sink_write r symbol fs) = rp_matching r"
  "rp_risk (apply_fills X sink_write r symbol fs) = record_fills X (rp_risk r) symbol fs"
  "rp_next_sequence (apply_fills X sink_write r symbol fs) = rp_next_sequence r"
  "emits (rp_feed r) (fill_events (me_book (rp_matching r)) (pub_next_sequence (rp_feed r)) symbol fs)
     (rp_feed (apply_fills X sink_write r symbol fs))"
proof (induction fs arbitrary: r)
  case (Cons f fs)
  { case 1 show ?case by (simp add: Let_def Cons.IH(1)) }
  { case 2 show ?case by (simp add: Let_def Cons.IH(2)) }
  { case 3 show ?case by (simp add: Let_def Cons.IH(3)) }
  { case 4
    let ?p = "publish_trade sink_write (rp_feed r) symbol f" and ?s = "opposite (f_aggressor_side f)"
    let ?r1 = "r\<lparr>rp_feed := ?p, rp_risk := record_fill X (record_fill X (rp_risk r) (f_resting_client_id f) symbol ?s (f_price f) (f_quantity f))
       (f_aggressor_client_id f) symbol (f_aggressor_side f) (f_price f) (f_quantity f)\<rparr>"
    let ?r2 = "publish_level sink_write ?r1 symbol ?s (f_price f)"
    let ?b = "me_book (rp_matching r)"
    have next1: "pub_next_sequence ?p = pub_next_sequence (rp_feed r) + 1" by (simp add: publish_trade_eq)
    have e1: "emits (rp_feed r) [EvTrade (trade_of (pub_next_sequence (rp_feed r)) symbol f)] ?p"
      by (rule publish_trade_emits)
    have e2: "emits ?p (level_events ?b (pub_next_sequence ?p) symbol ?s (f_price f)) (rp_feed ?r2)"
      using publish_level_emits [of ?r1 symbol ?s "f_price f"] by simp
    have e3: "emits (rp_feed ?r2) (fill_events ?b (pub_next_sequence (rp_feed ?r2)) symbol fs)
        (rp_feed (apply_fills X sink_write ?r2 symbol fs))"
      using Cons.IH(4) [of ?r2] by simp
    have next2: "pub_next_sequence (rp_feed ?r2) = pub_next_sequence ?p +
        of_nat (length (level_events ?b (pub_next_sequence ?p) symbol ?s (f_price f)))"
      using level_events_next [of ?r1 symbol ?s "f_price f" "pub_next_sequence ?p"] by simp
    show ?case
      using emits_trans [OF e1 emits_trans [OF e2 e3 [unfolded next2]]] by (simp add: Let_def next1) }
qed simp_all

end

text \<open>Every event a fill or a level update causes carries a number.\<close>

lemma numbered_level_events: "numbered n (level_events b n symbol s price) = Some (n + of_nat (length (level_events b n symbol s price)))"
  by (simp add: level_events_def delta_of_def split: option.split)

lemma numbered_fill_events: "numbered n (fill_events b n symbol fs) = Some (n + of_nat (length (fill_events b n symbol fs)))"
proof (induction fs arbitrary: n)
  case (Cons f fs)
  then show ?case
    by (simp add: Let_def numbered_append numbered_level_events trade_of_def add.assoc add.left_commute)
qed simp

text \<open>
  Events refresh a view of the book if every level update among them shows the book as it is
  now, and every level that has changed is among them.
\<close>

definition announced :: "'m order_book \<Rightarrow> feed_event list \<Rightarrow> (side \<times> price) set" where
  "announced b evs = {(s, p). \<exists>n symbol lvl. level_at b s p = Some lvl \<and> EvDelta (delta_of n symbol s p lvl) \<in> set evs}"

definition up_to_date :: "'m order_book \<Rightarrow> feed_event list \<Rightarrow> bool" where
  "up_to_date b evs \<longleftrightarrow> (\<forall>m. EvDelta m \<in> set evs \<longrightarrow>
     (\<exists>n symbol s p lvl. level_at b s p = Some lvl \<and> m = delta_of n symbol s p lvl))"

definition refreshes :: "'m order_book \<Rightarrow> 'm order_book \<Rightarrow> feed_event list \<Rightarrow> bool" where
  "refreshes b b' evs \<longleftrightarrow> same_config b b' \<and> up_to_date b' evs \<and> changed b b' \<subseteq> announced b' evs"

lemma up_to_date_simps [simp]:
  "up_to_date b []" "up_to_date b (EvReport m # evs) = up_to_date b evs" "up_to_date b (EvTrade t # evs) = up_to_date b evs"
  "up_to_date b (xs @ ys) \<longleftrightarrow> up_to_date b xs \<and> up_to_date b ys" "up_to_date b (level_events b n symbol s p)"
  unfolding up_to_date_def level_events_def by (auto split: option.split) metis

lemma up_to_date_fill_events [simp]: "up_to_date b (fill_events b n symbol fs)"
  by (induction b n symbol fs rule: fill_events.induct) (simp_all add: Let_def)

lemma announced_simps [simp]:
  "announced b (xs @ ys) = announced b xs \<union> announced b ys" "announced b [EvReport m] = {}"
  "announced b (EvTrade t # evs) = announced b evs"
  by (auto simp: announced_def)

lemma announced_level_events: "level_at b s p \<noteq> None \<Longrightarrow> (s, p) \<in> announced b (level_events b n symbol s p)"
  unfolding announced_def level_events_def by (auto split: option.split) metis

lemma announced_fill_events:
  assumes "f \<in> set fs" "level_at b (opposite (f_aggressor_side f)) (f_price f) \<noteq> None"
  shows "(opposite (f_aggressor_side f), f_price f) \<in> announced b (fill_events b n symbol fs)"
  using assms by (induction b n symbol fs rule: fill_events.induct) (auto simp: Let_def announced_level_events)

lemma refreshes_report [simp]: "refreshes b b [EvReport m]"
  by (simp add: refreshes_def)

text \<open>The events of an order that passed the risk gate, of a cancel and of a replace.\<close>

definition new_order_events :: "'m order_book \<Rightarrow> u64 \<Rightarrow> order \<Rightarrow> new_order_result \<Rightarrow> fill list \<Rightarrow> feed_event list" where
  "new_order_events b n ord result fills =
     (let evs = fill_events b n (o_symbol ord) fills
      in evs @ (if nr_rested result then level_events b (n + of_nat (length evs)) (o_symbol ord) (o_side ord) (o_price ord) else []) @
        [EvReport (report_of (o_id ord) (o_client ord) (o_symbol ord) fills (nr_remaining_after result)
           (new_order_exec_type result fills) (nr_reject_reason result))])"

context byte_sink
begin

lemma process_new_order_gated:
  fixes timestamp :: nanos and wire :: new_order_message and r :: "('m, 'x, 's) replay_engine"
  defines "ord \<equiv> order_of_wire wire (rp_next_sequence r) timestamp"
  assumes "check_new_order X (rp_risk r) ord \<noteq> NoReject"
  obtains r' where "process_new_order H X sink_write r wire timestamp = Some r'"
    "rp_matching r' = rp_matching r" "rp_risk r' = rp_risk r" "rp_next_sequence r' = rp_next_sequence r + 1"
    "emits (rp_feed r) [EvReport (report_of (o_id ord) (o_client ord) (o_symbol ord) [] (o_quantity ord)
       ExecRejected (check_new_order X (rp_risk r) ord))] (rp_feed r')"
proof -
  let ?r = "r\<lparr>rp_next_sequence := rp_next_sequence r + 1\<rparr>"
  let ?r' = "publish_report sink_write ?r (o_id ord) (o_client ord) (o_symbol ord) [] (o_quantity ord)
    ExecRejected (check_new_order X (rp_risk r) ord)"
  have "process_new_order H X sink_write r wire timestamp = Some ?r'"
    using assms(2) unfolding process_new_order_def ord_def [symmetric] by (simp add: Let_def)
  then show thesis by (rule that) (use publish_report_emits [of ?r] in simp_all)
qed

lemma process_new_order_approved:
  fixes timestamp :: nanos and wire :: new_order_message and r :: "('m, 'x, 's) replay_engine"
  defines "ord \<equiv> order_of_wire wire (rp_next_sequence r) timestamp"
  assumes ok: "check_new_order X (rp_risk r) ord = NoReject"
    and sub: "submit H (rp_matching r) ord [] = Some (result, m, fills)"
  obtains r' where "process_new_order H X sink_write r wire timestamp = Some r'"
    "rp_matching r' = m" "rp_risk r' = record_fills X (rp_risk r) (o_symbol ord) fills"
    "rp_next_sequence r' = rp_next_sequence r + 1"
    "emits (rp_feed r) (new_order_events (me_book m) (pub_next_sequence (rp_feed r)) ord result fills) (rp_feed r')"
proof -
  let ?r1 = "r\<lparr>rp_next_sequence := rp_next_sequence r + 1, rp_matching := m, rp_fill_scratch := fills\<rparr>"
  let ?r2 = "apply_fills X sink_write ?r1 (o_symbol ord) fills"
  let ?r3 = "if nr_rested result then publish_level sink_write ?r2 (o_symbol ord) (o_side ord) (o_price ord) else ?r2"
  let ?r4 = "publish_report sink_write ?r3 (o_id ord) (o_client ord) (o_symbol ord) fills
    (nr_remaining_after result) (new_order_exec_type result fills) (nr_reject_reason result)"
  let ?n = "pub_next_sequence (rp_feed r)"
  let ?evs = "fill_events (me_book m) ?n (o_symbol ord) fills"
  have run: "process_new_order H X sink_write r wire timestamp = Some ?r4"
    using ok sub unfolding process_new_order_def ord_def [symmetric] by (simp add: Let_def)
  have e2: "emits (rp_feed r) ?evs (rp_feed ?r2)" using apply_fills_spec(4) [of ?r1] by simp
  then have n2: "pub_next_sequence (rp_feed ?r2) = ?n + of_nat (length ?evs)"
    using emits_next [OF e2] by (simp add: numbered_fill_events)
  have e3: "emits (rp_feed ?r2) (if nr_rested result
      then level_events (me_book m) (?n + of_nat (length ?evs)) (o_symbol ord) (o_side ord) (o_price ord) else []) (rp_feed ?r3)"
    using publish_level_emits [of ?r2 "o_symbol ord" "o_side ord" "o_price ord"] by (simp add: apply_fills_spec n2)
  note e4 = publish_report_emits [of ?r3 "o_id ord" "o_client ord" "o_symbol ord" fills
    "nr_remaining_after result" "new_order_exec_type result fills" "nr_reject_reason result"]
  show thesis
    by (rule that [OF run]) (use emits_trans [OF e2 emits_trans [OF e3 e4]] in
      \<open>simp_all add: apply_fills_spec new_order_events_def Let_def\<close>)
qed

lemma process_cancel_unknown:
  assumes "book_find H (me_book (rp_matching r)) (com_order_id wire) = None"
  shows "rp_matching (process_cancel H sink_write r wire) = rp_matching r"
    "rp_risk (process_cancel H sink_write r wire) = rp_risk r"
    "rp_next_sequence (process_cancel H sink_write r wire) = rp_next_sequence r"
    "emits (rp_feed r) [EvReport (report_of (com_order_id wire) (com_client_id wire) (com_symbol_id wire) [] 0
       ExecRejected UnknownOrder)] (rp_feed (process_cancel H sink_write r wire))"
  using assms publish_report_emits by (simp_all add: process_cancel_def)

lemma process_cancel_found:
  assumes inv: "engine_inv H (rp_matching r)"
    and found: "book_find H (me_book (rp_matching r)) (com_order_id wire) = Some p"
  defines "ord \<equiv> n_order (nodes (me_book (rp_matching r)) ! p)"
    and "b' \<equiv> snd (book_cancel H (me_book (rp_matching r)) (com_order_id wire))"
    and "n \<equiv> pub_next_sequence (rp_feed r)"
  shows "rp_matching (process_cancel H sink_write r wire) = (rp_matching r)\<lparr>me_book := b'\<rparr>"
    "rp_risk (process_cancel H sink_write r wire) = rp_risk r"
    "rp_next_sequence (process_cancel H sink_write r wire) = rp_next_sequence r"
    "emits (rp_feed r) (level_events b' n (o_symbol ord) (o_side ord) (o_price ord) @
       [EvReport (report_of (com_order_id wire) (o_client ord) (o_symbol ord) [] 0 ExecCancelled NoReject)])
       (rp_feed (process_cancel H sink_write r wire))"
proof -
  note H = engine_invD(1) [OF inv] and bk = engine_invD(2) [OF inv]
  let ?r1 = "r\<lparr>rp_matching := (rp_matching r)\<lparr>me_book := b'\<rparr>\<rparr>"
  let ?r2 = "publish_level sink_write ?r1 (o_symbol ord) (o_side ord) (o_price ord)"
  have "com_order_id wire \<in> resting_ids (book_orders (me_book (rp_matching r)))"
    using book_find_None [OF bk, of "com_order_id wire"] found by simp
  then have "book_cancel H (me_book (rp_matching r)) (com_order_id wire) = (Inr (), b')"
    using book_cancel_spec(1) [OF H bk, of "com_order_id wire"] unfolding b'_def by (simp add: prod_eq_iff)
  then have eq: "process_cancel H sink_write r wire =
      publish_report sink_write ?r2 (com_order_id wire) (o_client ord) (o_symbol ord) [] 0 ExecCancelled NoReject"
    using found by (simp add: process_cancel_def engine_cancel_def Let_def ord_def)
  then show "rp_matching (process_cancel H sink_write r wire) = (rp_matching r)\<lparr>me_book := b'\<rparr>"
    "rp_risk (process_cancel H sink_write r wire) = rp_risk r"
    "rp_next_sequence (process_cancel H sink_write r wire) = rp_next_sequence r" by simp_all
  show "emits (rp_feed r) (level_events b' n (o_symbol ord) (o_side ord) (o_price ord) @
       [EvReport (report_of (com_order_id wire) (o_client ord) (o_symbol ord) [] 0 ExecCancelled NoReject)])
       (rp_feed (process_cancel H sink_write r wire))"
    unfolding eq n_def
    by (rule emits_trans [OF _ publish_report_emits])
      (use publish_level_emits [of ?r1 "o_symbol ord" "o_side ord" "o_price ord"] in simp)
qed

lemma process_replace_rejected:
  assumes "book_find H (me_book (rp_matching r)) (rom_order_id wire) = None \<or> sint (rom_new_quantity wire) \<le> 0 \<or>
    index_of (me_book (rp_matching r)) (rom_new_price wire) = None"
  obtains r' reason client symbol where "process_replace H X sink_write r wire timestamp = Some r'"
    "rp_matching r' = rp_matching r" "rp_risk r' = rp_risk r"
    "emits (rp_feed r) [EvReport (report_of (rom_order_id wire) client symbol [] 0 ExecRejected reason)] (rp_feed r')"
proof (cases "book_find H (me_book (rp_matching r)) (rom_order_id wire)")
  case None
  then have "process_replace H X sink_write r wire timestamp = Some (publish_report sink_write r (rom_order_id wire)
      (rom_client_id wire) (rom_symbol_id wire) [] 0 ExecRejected UnknownOrder)"
    by (simp add: process_replace_def)
  then show thesis by (rule that) (simp, simp, rule publish_report_emits)
next
  case (Some p)
  let ?ord = "n_order (nodes (me_book (rp_matching r)) ! p)"
  let ?r1 = "r\<lparr>rp_next_sequence := rp_next_sequence r + 1, rp_matching := rp_matching r, rp_fill_scratch := []\<rparr>"
  define reason where "reason = (if sint (rom_new_quantity wire) \<le> 0 then RejInvalidQuantity else InvalidPrice)"
  have "engine_replace H (rp_matching r) (rom_order_id wire) (rom_new_price wire) (rom_new_quantity wire)
      (rp_next_sequence r) timestamp [] = Some (\<lparr>rr_accepted = False, rr_reject_reason = reason, rr_fill_count = 0,
        rr_rested = False, rr_remaining_after = 0\<rparr>, rp_matching r, [])"
    using Some assms by (auto simp: engine_replace_def Let_def reason_def)
  then have "process_replace H X sink_write r wire timestamp = Some (publish_report sink_write ?r1 (rom_order_id wire)
      (o_client ?ord) (o_symbol ?ord) [] 0 ExecRejected reason)"
    using Some by (simp add: process_replace_def Let_def)
  then show thesis
  proof (rule that)
    show "emits (rp_feed r) [EvReport (report_of (rom_order_id wire) (o_client ?ord) (o_symbol ?ord) [] 0 ExecRejected reason)]
        (rp_feed (publish_report sink_write ?r1 (rom_order_id wire) (o_client ?ord) (o_symbol ?ord) [] 0 ExecRejected reason))"
      using publish_report_emits [of ?r1] by simp
  qed simp_all
qed

lemma process_replace_accepted:
  assumes found: "book_find H (me_book (rp_matching r)) (rom_order_id wire) = Some p"
    and rep: "engine_replace H (rp_matching r) (rom_order_id wire) (rom_new_price wire) (rom_new_quantity wire)
      (rp_next_sequence r) timestamp [] = Some (result, m, fills)" "rr_accepted result"
  defines "ord \<equiv> n_order (nodes (me_book (rp_matching r)) ! p)"
  obtains r' n1 n2 report where "process_replace H X sink_write r wire timestamp = Some r'" "rp_matching r' = m"
    "rp_risk r' = record_fills X (rp_risk r) (o_symbol ord) fills"
    "emits (rp_feed r) (fill_events (me_book m) (pub_next_sequence (rp_feed r)) (o_symbol ord) fills @
       level_events (me_book m) n1 (o_symbol ord) (o_side ord) (o_price ord) @
       (if rr_rested result then level_events (me_book m) n2 (o_symbol ord) (o_side ord) (rom_new_price wire) else []) @
       [EvReport report]) (rp_feed r')"
proof -
  let ?r1 = "r\<lparr>rp_next_sequence := rp_next_sequence r + 1, rp_matching := m, rp_fill_scratch := fills\<rparr>"
  let ?r2 = "apply_fills X sink_write ?r1 (o_symbol ord) fills"
  let ?r3 = "publish_level sink_write ?r2 (o_symbol ord) (o_side ord) (o_price ord)"
  let ?r4 = "if rr_rested result then publish_level sink_write ?r3 (o_symbol ord) (o_side ord) (rom_new_price wire) else ?r3"
  let ?xt = "if sint (rr_remaining_after result) = 0 then ExecFill else if fills \<noteq> [] then ExecPartialFill else ExecReplaced"
  let ?r5 = "publish_report sink_write ?r4 (rom_order_id wire) (o_client ord) (o_symbol ord) fills
    (rr_remaining_after result) ?xt NoReject"
  have run: "process_replace H X sink_write r wire timestamp = Some ?r5"
    using found rep by (simp add: process_replace_def Let_def ord_def)
  have e4: "emits (rp_feed ?r3) (if rr_rested result then level_events (me_book m) (pub_next_sequence (rp_feed ?r3)) (o_symbol ord)
      (o_side ord) (rom_new_price wire) else []) (rp_feed ?r4)"
    using publish_level_emits [of ?r3 "o_symbol ord" "o_side ord" "rom_new_price wire"] by (simp add: apply_fills_spec)
  note e2 = apply_fills_spec(4) [of ?r1 "o_symbol ord" fills X]
    and e3 = publish_level_emits [of ?r2 "o_symbol ord" "o_side ord" "o_price ord"]
    and e5 = publish_report_emits [of ?r4 "rom_order_id wire" "o_client ord" "o_symbol ord" fills
      "rr_remaining_after result" ?xt NoReject]
  note emits_trans [OF e2 emits_trans [OF e3 emits_trans [OF e4 e5]]]
  with that [OF run] show thesis by (simp add: apply_fills_spec)
qed

end

subsection \<open>Sessions\<close>

text \<open>A session feeds timestamped messages to the driver in order.\<close>

datatype client_message =
    ClientNew new_order_message
  | ClientCancel cancel_order_message
  | ClientReplace replace_order_message

fun process_message ::
    "'m index_ops \<Rightarrow> 'x exposure_ops \<Rightarrow> ('s \<Rightarrow> u8 list \<Rightarrow> 's) \<Rightarrow> ('m, 'x, 's) replay_engine \<Rightarrow>
       client_message \<Rightarrow> nanos \<Rightarrow> ('m, 'x, 's) replay_engine option" where
  "process_message H X W r (ClientNew m) ts = process_new_order H X W r m ts"
| "process_message H X W r (ClientCancel m) ts = Some (process_cancel H W r m)"
| "process_message H X W r (ClientReplace m) ts = process_replace H X W r m ts"

fun run_session ::
    "'m index_ops \<Rightarrow> 'x exposure_ops \<Rightarrow> ('s \<Rightarrow> u8 list \<Rightarrow> 's) \<Rightarrow> ('m, 'x, 's) replay_engine \<Rightarrow>
       (client_message \<times> nanos) list \<Rightarrow> ('m, 'x, 's) replay_engine option" where
  "run_session H X W r [] = Some r"
| "run_session H X W r ((m, ts) # ms) =
     (case process_message H X W r m ts of None \<Rightarrow> None | Some r1 \<Rightarrow> run_session H X W r1 ms)"

definition total_cash :: "'x exposure_ops \<Rightarrow> 'x risk_engine \<Rightarrow> pnl" where
  "total_cash X risk = (\<Sum>a \<in> UNIV. ce_cash_flow (exposure_of X risk a))"

definition total_position :: "'x exposure_ops \<Rightarrow> 'x risk_engine \<Rightarrow> quantity" where
  "total_position X risk = (\<Sum>a \<in> UNIV. ce_position (exposure_of X risk a))"

lemma record_fills_totals:
  assumes X: "hash_map_spec X"
  shows "total_cash X (record_fills X risk symbol fs) = total_cash X risk"
    "total_position X (record_fills X risk symbol fs) = total_position X risk"
proof (induction fs arbitrary: risk)
  case (Cons f fs)
  note t = record_fill_totals [OF X, of UNIV]
  { case 1 then show ?case
      by (cases "f_aggressor_side f") (simp_all add: Cons.IH(1), simp_all add: total_cash_def t) }
  { case 2 then show ?case
      by (cases "f_aggressor_side f") (simp_all add: Cons.IH(2), simp_all add: total_position_def t) }
qed simp_all

subsection \<open>What a message changes is announced\<close>

lemma fill_levels_announced:
  assumes inv: "engine_inv H e" and cfg: "same_config (me_book e) b'" and f: "f \<in> set (submit_fills e ord)"
  shows "(opposite (f_aggressor_side f), f_price f) \<in> announced b' (fill_events b' n symbol (submit_fills e ord))"
proof (rule announced_fill_events [OF f])
  obtain x where "x \<in> set (priority_orders (me_book e) (opposite (o_side ord)))" "f_price f = o_price x"
    using submit_fills_within_limit [OF inv f] by blast
  then have "index_of b' (f_price f) \<noteq> None"
    using priority_orders_ok(4) [OF engine_invD(2) [OF inv]] same_config_index_of [OF cfg] by simp
  then show "level_at b' (opposite (f_aggressor_side f)) (f_price f) \<noteq> None" by (auto simp: level_at_def)
qed

text \<open>An order that rests is on the ladder.\<close>

lemma rested_on_ladder:
  assumes inv: "engine_inv H e" and run: "submit H e ord out = Some (r, e', out2)" and rest: "nr_rested r"
  shows "level_at (me_book e') (o_side ord) (o_price ord) \<noteq> None"
proof -
  have adm: "admitted e ord" using run rest submit_not_admitted [of e ord H out] by (cases "admitted e ord") auto
  have e': "engine_inv H e'" using submit_total [OF inv, of ord out] run by auto
  have "ord\<lparr>o_remaining := submit_remaining e ord\<rparr> \<in> set (priority_orders (me_book e') (o_side ord))"
    using run rest by (auto intro: submit_books [OF inv adm, of out])
  from priority_orders_ok(4) [OF engine_invD(2) [OF e'] this] show ?thesis by (auto simp: level_at_def)
qed

lemma new_order_refreshes:
  assumes inv: "engine_inv H e" and run: "submit H e ord [] = Some (result, e', fills)"
  shows "refreshes (me_book e) (me_book e') (new_order_events (me_book e') n ord result fills)"
proof -
  have t: "fills = (if admitted e ord then submit_fills e ord else [])" "same_config (me_book e) (me_book e')"
    using submit_total [OF inv, of ord "[]"] run by auto
  have fl: "(opposite (f_aggressor_side f), f_price f) \<in> announced (me_book e') (fill_events (me_book e') n (o_symbol ord) fills)"
    if "f \<in> set fills" for f
    using that t fill_levels_announced [OF inv t(2)] by (auto split: if_splits)
  have "changed (me_book e) (me_book e') \<subseteq> announced (me_book e') (new_order_events (me_book e') n ord result fills)"
    using submit_changes [OF inv, of ord "[]" result e' fills] run fl rested_on_ladder [OF inv run]
    by (auto simp: new_order_events_def Let_def announced_level_events split: if_splits)
  with t(2) show ?thesis by (simp add: refreshes_def new_order_events_def Let_def)
qed

lemma cancel_refreshes:
  assumes inv: "engine_inv H e" and x: "x \<in> set (priority_orders (me_book e) (o_side x))" "o_id x = oid"
  shows "refreshes (me_book e) (snd (book_cancel H (me_book e) oid))
    (level_events (snd (book_cancel H (me_book e) oid)) n symbol (o_side x) (o_price x) @ [EvReport report])"
proof -
  note H = engine_invD(1) [OF inv] and bk = engine_invD(2) [OF inv]
  have "index_of (snd (book_cancel H (me_book e) oid)) (o_price x) \<noteq> None"
    using priority_orders_ok(4) [OF bk x(1)] same_config_index_of [OF book_cancel_spec(4) [OF H bk]] by simp
  then have "level_at (snd (book_cancel H (me_book e) oid)) (o_side x) (o_price x) \<noteq> None" by (auto simp: level_at_def)
  from announced_level_events [OF this, of n symbol] cancel_changes [OF H bk x(1)] book_cancel_spec(4) [OF H bk] x(2) show ?thesis
    by (auto simp: refreshes_def)
qed

lemma found_order:
  assumes inv: "engine_inv H e" and found: "book_find H (me_book e) oid = Some p"
  defines "ord \<equiv> n_order (nodes (me_book e) ! p)"
  shows "ord \<in> set (priority_orders (me_book e) (o_side ord))" "o_id ord = oid"
proof -
  note bk = engine_invD(2) [OF inv]
  obtain s i where s: "ord \<in> set (book_orders (me_book e) s i)" "o_id ord = oid"
    unfolding ord_def by (rule book_find_spec [OF bk found])
  then have "ord \<in> set (priority_orders (me_book e) s)" by (auto simp: set_priority_orders [OF bk])
  with priority_orders_ok(1) [OF bk this] s(2) show "ord \<in> set (priority_orders (me_book e) (o_side ord))" "o_id ord = oid"
    by simp_all
qed

lemma replace_refreshes:
  assumes inv: "engine_inv H e" and found: "book_find H (me_book e) oid = Some p"
    and rep: "engine_replace H e oid price qty seq ts [] = Some (result, e', fills)" "rr_accepted result"
  defines "ord \<equiv> n_order (nodes (me_book e) ! p)"
  shows "refreshes (me_book e) (me_book e') (fill_events (me_book e') n symbol fills @
    level_events (me_book e') n1 symbol (o_side ord) (o_price ord) @
    (if rr_rested result then level_events (me_book e') n2 symbol (o_side ord) price else []) @ [EvReport report])"
proof -
  note H = engine_invD(1) [OF inv] and bk = engine_invD(2) [OF inv]
  note ord = found_order [OF inv found, folded ord_def]
  let ?e1 = "e\<lparr>me_book := snd (book_cancel H (me_book e) oid)\<rparr>" and ?upd = "replaced_order ord price qty seq ts"
  obtain sub where sub: "submit H ?e1 ?upd [] = Some (sub, e', fills)" "rr_rested result = nr_rested sub"
    using rep found unfolding engine_replace_def ord_def replaced_order_def
    by (auto simp: Let_def split: if_splits option.splits)
  have inv1: "engine_inv H ?e1" by (rule engine_cancel_inv [OF inv])
  have upd: "o_side ?upd = o_side ord" "o_price ?upd = price" by (simp_all add: replaced_order_def)
  have t: "fills = (if admitted ?e1 ?upd then submit_fills ?e1 ?upd else [])" "same_config (me_book ?e1) (me_book e')"
    using submit_total [OF inv1, of ?upd "[]"] sub(1) by auto
  have cfg: "same_config (me_book e) (me_book e')" using same_config_trans [OF book_cancel_spec(4) [OF H bk]] t(2) by simp
  have fl: "(opposite (f_aggressor_side f), f_price f) \<in> announced (me_book e') (fill_events (me_book e') n symbol fills)"
    if "f \<in> set fills" for f
    using that t(1) fill_levels_announced [OF inv1 t(2)] by (auto split: if_splits)
  have "level_at (me_book e') (o_side ord) (o_price ord) \<noteq> None"
    using priority_orders_ok(4) [OF bk ord(1)] same_config_index_of [OF cfg] by (auto simp: level_at_def)
  then have old: "(o_side ord, o_price ord) \<in> announced (me_book e') (level_events (me_book e') n1 symbol (o_side ord) (o_price ord))"
    by (rule announced_level_events)
  have new: "(o_side ord, price) \<in> announced (me_book e') (level_events (me_book e') n2 symbol (o_side ord) price)"
    if "nr_rested sub"
    using rested_on_ladder [OF inv1 sub(1) that] unfolding upd by (rule announced_level_events)
  have "changed (me_book e) (me_book e') \<subseteq> changed (me_book e) (me_book ?e1) \<union> changed (me_book ?e1) (me_book e')"
    by (rule changed_trans)
  also have "changed (me_book e) (me_book ?e1) \<subseteq> {(o_side ord, o_price ord)}"
    using cancel_changes [OF H bk ord(1)] ord(2) by simp
  also have "changed (me_book ?e1) (me_book e') \<subseteq> {(opposite (f_aggressor_side f), f_price f) | f. f \<in> set fills} \<union>
      (if nr_rested sub then {(o_side ord, price)} else {})"
    using submit_changes [OF inv1, of ?upd "[]" sub e' fills] sub(1) unfolding upd by simp
  finally show ?thesis
    using fl old new sub(2) cfg by (simp add: refreshes_def) (fastforce split: if_splits)
qed

context byte_sink
begin

lemma process_message_spec:
  assumes inv: "engine_inv H (rp_matching r)"
  shows "\<exists>r' evs symbol fills. process_message H X sink_write r m ts = Some r' \<and> engine_inv H (rp_matching r') \<and>
    emits (rp_feed r) evs (rp_feed r') \<and> rp_risk r' = record_fills X (rp_risk r) symbol fills \<and>
    refreshes (me_book (rp_matching r)) (me_book (rp_matching r')) evs"
proof (cases m)
  case (ClientNew wire)
  let ?ord = "order_of_wire wire (rp_next_sequence r) ts"
  show ?thesis
  proof (cases "check_new_order X (rp_risk r) ?ord = NoReject")
    case True
    obtain result e' fills where sub: "submit H (rp_matching r) ?ord [] = Some (result, e', fills)" "engine_inv H e'"
      using submit_total [OF inv, of ?ord "[]"] by blast
    obtain r' where "process_new_order H X sink_write r wire ts = Some r'" "rp_matching r' = e'"
      "rp_risk r' = record_fills X (rp_risk r) (o_symbol ?ord) fills"
      "emits (rp_feed r) (new_order_events (me_book e') (pub_next_sequence (rp_feed r)) ?ord result fills) (rp_feed r')"
      by (rule process_new_order_approved [OF True sub(1)])
    with sub(2) new_order_refreshes [OF inv sub(1)] ClientNew show ?thesis by (metis process_message.simps(1))
  next
    case False
    obtain r' where "process_new_order H X sink_write r wire ts = Some r'" "rp_matching r' = rp_matching r"
      "rp_risk r' = record_fills X (rp_risk r) 0 []"
      "emits (rp_feed r) [EvReport (report_of (o_id ?ord) (o_client ?ord) (o_symbol ?ord) [] (o_quantity ?ord)
         ExecRejected (check_new_order X (rp_risk r) ?ord))] (rp_feed r')"
      using process_new_order_gated [OF False] by (metis record_fills.simps(1))
    with inv ClientNew show ?thesis by (metis process_message.simps(1) refreshes_report)
  qed
next
  case (ClientCancel wire)
  have risk: "rp_risk (process_cancel H sink_write r wire) = record_fills X (rp_risk r) 0 []"
    using process_cancel_unknown(2) process_cancel_found(2) [OF inv]
    by (cases "book_find H (me_book (rp_matching r)) (com_order_id wire)") simp_all
  show ?thesis
  proof (cases "book_find H (me_book (rp_matching r)) (com_order_id wire)")
    case None
    from process_cancel_unknown [OF this] inv risk ClientCancel show ?thesis
      by (metis process_message.simps(2) refreshes_report)
  next
    case (Some p)
    note c = process_cancel_found [OF inv Some] and ref = cancel_refreshes [OF inv found_order [OF inv Some]]
    have "engine_inv H (rp_matching (process_cancel H sink_write r wire))" using c(1) engine_cancel_inv [OF inv] by simp
    moreover have "refreshes (me_book (rp_matching r)) (me_book (rp_matching (process_cancel H sink_write r wire))) evs"
      if "refreshes (me_book (rp_matching r)) (snd (book_cancel H (me_book (rp_matching r)) (com_order_id wire))) evs" for evs
      using that c(1) by simp
    ultimately show ?thesis using c(4) ref risk ClientCancel by (metis process_message.simps(2))
  qed
next
  case (ClientReplace wire)
  show ?thesis
  proof (cases "book_find H (me_book (rp_matching r)) (rom_order_id wire) = None \<or> sint (rom_new_quantity wire) \<le> 0 \<or>
      index_of (me_book (rp_matching r)) (rom_new_price wire) = None")
    case True
    obtain r' reason client symbol where "process_replace H X sink_write r wire ts = Some r'"
      "rp_matching r' = rp_matching r" "rp_risk r' = rp_risk r"
      "emits (rp_feed r) [EvReport (report_of (rom_order_id wire) client symbol [] 0 ExecRejected reason)] (rp_feed r')"
      by (rule process_replace_rejected [OF True])
    with inv ClientReplace show ?thesis by (metis process_message.simps(3) record_fills.simps(1) refreshes_report)
  next
    case False
    then obtain p where p: "book_find H (me_book (rp_matching r)) (rom_order_id wire) = Some p" by auto
    then have oid: "rom_order_id wire \<in> resting_ids (book_orders (me_book (rp_matching r)))"
      using book_find_None [OF engine_invD(2) [OF inv], of "rom_order_id wire"] by simp
    obtain result e' fills where rep: "engine_replace H (rp_matching r) (rom_order_id wire) (rom_new_price wire)
        (rom_new_quantity wire) (rp_next_sequence r) ts [] = Some (result, e', fills)"
      "engine_inv H e'" "rr_accepted result"
      using engine_replace_spec [OF inv oid, of "rom_new_quantity wire" "rom_new_price wire" "rp_next_sequence r" ts "[]"] False
      by (metis not_le)
    let ?ord = "n_order (nodes (me_book (rp_matching r)) ! p)" and ?n = "pub_next_sequence (rp_feed r)"
    obtain r' n1 n2 report where r': "process_replace H X sink_write r wire ts = Some r'" "rp_matching r' = e'"
      "rp_risk r' = record_fills X (rp_risk r) (o_symbol ?ord) fills"
      "emits (rp_feed r) (fill_events (me_book e') ?n (o_symbol ?ord) fills @
        level_events (me_book e') n1 (o_symbol ?ord) (o_side ?ord) (o_price ?ord) @
        (if rr_rested result then level_events (me_book e') n2 (o_symbol ?ord) (o_side ?ord) (rom_new_price wire) else []) @
        [EvReport report]) (rp_feed r')"
      by (rule process_replace_accepted [OF p rep(1,3)])
    show ?thesis
      using r' rep(2) replace_refreshes [OF inv p rep(1,3)] ClientReplace by (metis process_message.simps(3))
  qed
qed

lemma run_session_spec:
  assumes "engine_inv H (rp_matching r)" "hash_map_spec X"
  shows "\<exists>r' evs. run_session H X sink_write r ms = Some r' \<and> engine_inv H (rp_matching r') \<and>
    emits (rp_feed r) evs (rp_feed r') \<and> total_cash X (rp_risk r') = total_cash X (rp_risk r) \<and>
    total_position X (rp_risk r') = total_position X (rp_risk r)"
  using assms(1)
proof (induction ms arbitrary: r)
  case Nil
  then show ?case by (intro exI [of _ r] exI [of _ "[]"]) simp
next
  case (Cons mt ms)
  obtain m ts where mt: "mt = (m, ts)" by (cases mt)
  from process_message_spec [OF Cons.prems, of X m ts] obtain r1 evs1 symbol fills where
    r1: "process_message H X sink_write r m ts = Some r1" "engine_inv H (rp_matching r1)"
      "emits (rp_feed r) evs1 (rp_feed r1)" "rp_risk r1 = record_fills X (rp_risk r) symbol fills"
      "refreshes (me_book (rp_matching r)) (me_book (rp_matching r1)) evs1" by blast
  from Cons.IH [OF r1(2)] obtain r' evs where
    r': "run_session H X sink_write r1 ms = Some r'" "engine_inv H (rp_matching r')" "emits (rp_feed r1) evs (rp_feed r')"
      "total_cash X (rp_risk r') = total_cash X (rp_risk r1)" "total_position X (rp_risk r') = total_position X (rp_risk r1)" by blast
  have "run_session H X sink_write r (mt # ms) = Some r'" using r1(1) r'(1) mt by simp
  moreover have "emits (rp_feed r) (evs1 @ evs) (rp_feed r')" by (rule emits_trans [OF r1(3) r'(3)])
  moreover have "total_cash X (rp_risk r') = total_cash X (rp_risk r)" "total_position X (rp_risk r') = total_position X (rp_risk r)"
    using r'(4,5) r1(4) record_fills_totals [OF assms(2)] by simp_all
  ultimately show ?case using r'(2) by blast
qed

end

end
