(* ===== verification/Subscriber.thy ===== *)
theory Subscriber
  imports Replay_Spec
begin

text \<open>
  What a subscriber can make of the feed.  A subscriber reads the bytes with \<open>peek_header\<close> and
  \<open>decode\<close>, as the comment on \<open>peek_header\<close> describes, and keeps the aggregate depth of the book: it sets
  a level on an update and removes it on a deletion.
\<close>

subsection \<open>Reading the bytes\<close>

definition read_as :: "'p layout \<Rightarrow> ('p \<Rightarrow> feed_event) \<Rightarrow> u8 list \<Rightarrow> (feed_event \<times> u8 list) option" where
  "read_as L ev bs = (case dr_payload (decode L bs) of
     None \<Rightarrow> None | Some m \<Rightarrow> Some (ev m, drop (dr_consumed (decode L bs)) bs))"

definition read_event :: "u8 list \<Rightarrow> (feed_event \<times> u8 list) option" where
  "read_event bs = (case peek_header bs of
     None \<Rightarrow> None
   | Some header \<Rightarrow>
       if mh_type header = message_type_code MtTrade then read_as trade_layout EvTrade bs
       else if mh_type header = message_type_code MtBookDelta then read_as book_delta_layout EvDelta bs
       else if mh_type header = message_type_code MtExecutionReport then read_as execution_report_layout EvReport bs
       else None)"

lemma read_as_shorter:
  assumes "read_as L ev bs = Some (x, rest)" "bs \<noteq> []"
  shows "length rest < length bs"
proof -
  have "0 < dr_consumed (decode L bs)"
    using assms(1) by (auto simp: read_as_def decode_def Let_def split: option.splits if_splits)
  then show ?thesis using assms by (auto simp: read_as_def split: option.splits)
qed

lemma read_event_shorter: "read_event bs = Some (x, rest) \<Longrightarrow> length rest < length bs"
  by (cases "bs = []") (auto simp: read_event_def peek_header_def intro: read_as_shorter split: option.splits if_splits)

function read_feed :: "u8 list \<Rightarrow> feed_event list option" where
  "read_feed bs = (if bs = [] then Some [] else case read_event bs of
     None \<Rightarrow> None | Some (ev, rest) \<Rightarrow> map_option ((#) ev) (read_feed rest))"
  by pat_completeness auto

termination read_feed
  by (relation "measure length") (auto dest: read_event_shorter)

declare read_feed.simps [simp del]

context wire_format
begin

lemma read_as_frame: "read_as L ev (frame L m @ rest) = Some (ev m, rest)"
  using frame_length [of m] by (simp add: read_as_def decode_frame)

lemma peek_frame: "peek_header (frame L m @ rest) =
    Some \<lparr>mh_length = of_nat (l_size L), mh_type = message_type_code (l_type L)\<rparr>"
  by (simp add: peek_header_def frame_def header_round_trip)

end

lemma read_event_bytes: "read_event (event_bytes ev @ rest) = Some (ev, rest)"
proof (cases ev)
  case (EvTrade m)
  then show ?thesis
    using trade_format.peek_frame [of m rest] trade_format.read_as_frame [of EvTrade m rest]
    by (simp add: read_event_def trade_layout_def)
next
  case (EvDelta m)
  then show ?thesis
    using book_delta_format.peek_frame [of m rest] book_delta_format.read_as_frame [of EvDelta m rest]
    by (simp add: read_event_def book_delta_layout_def)
next
  case (EvReport m)
  then show ?thesis
    using execution_report_format.peek_frame [of m rest] execution_report_format.read_as_frame [of EvReport m rest]
    by (simp add: read_event_def execution_report_layout_def)
qed

lemma read_feed_bytes: "read_feed (concat (map event_bytes evs)) = Some evs"
proof (induction evs)
  case (Cons ev evs)
  have "event_bytes ev \<noteq> []" by (cases ev) (simp_all add: frame_def put_header_def)
  with Cons show ?case by (subst read_feed.simps) (simp add: read_event_bytes)
qed (simp add: read_feed.simps)

subsection \<open>The depth of the book\<close>

type_synonym depth_view = "side \<Rightarrow> price \<Rightarrow> (quantity \<times> u32) option"

definition book_depth :: "'m order_book \<Rightarrow> depth_view" where
  "book_depth b s p = (case orders_at b s p of
     [] \<Rightarrow> None | xs \<Rightarrow> Some (sum_list (map o_remaining xs), of_nat (length xs)))"

fun apply_event :: "feed_event \<Rightarrow> depth_view \<Rightarrow> depth_view" where
  "apply_event (EvDelta m) v = v(bdm_side m := (v (bdm_side m))(bdm_price m :=
     (case bdm_action m of DeltaDelete \<Rightarrow> None | DeltaUpdate \<Rightarrow> Some (bdm_aggregate_quantity m, bdm_order_count m))))"
| "apply_event (EvTrade m) v = v"
| "apply_event (EvReport m) v = v"

lemma book_depth_unchanged: "(s, p) \<notin> changed b b' \<Longrightarrow> book_depth b s p = book_depth b' s p"
  by (simp add: changed_def book_depth_def)

lemma orders_at_bound:
  assumes inv: "book_inv H b"
  shows "length (orders_at b s p) \<le> ob_max_orders b"
proof -
  have "length (orders_at b s p) \<le> length (priority_orders b s)" by (simp add: orders_at_def)
  also have "\<dots> \<le> ob_order_count b" using order_count_priority [OF inv] by (cases s) simp_all
  also have "\<dots> \<le> ob_max_orders b" using book_repD(2,3) [OF book_inv_rep [OF inv]] by (simp add: pool_rep_def)
  finally show ?thesis .
qed

lemma apply_delta:
  assumes inv: "book_inv H b" and small: "ob_max_orders b < 2 ^ 32" and lvl: "level_at b s p = Some lvl"
  shows "apply_event (EvDelta (delta_of n symbol s p lvl)) v = v(s := (v s)(p := book_depth b s p))"
proof -
  have "(of_nat (length (orders_at b s p)) :: u32) = 0 \<longleftrightarrow> orders_at b s p = []"
    using orders_at_bound [OF inv, of s p] small unat_of_nat [of "length (orders_at b s p)", where 'a = 32]
    by (auto simp: unat_eq_zero [symmetric] simp del: unat_eq_zero)
  moreover have "pl_total_quantity lvl = sum_list (map o_remaining (orders_at b s p))"
    "pl_order_count lvl = of_nat (length (orders_at b s p))"
    using level_at_aggregates [OF inv lvl] by (simp_all add: orders_at_def)
  ultimately show ?thesis by (auto simp: delta_of_def book_depth_def split: list.split)
qed

lemma fold_apply_event:
  assumes inv: "book_inv H b" and small: "ob_max_orders b < 2 ^ 32"
  shows "up_to_date b evs \<Longrightarrow>
    fold apply_event evs v s p = (if (s, p) \<in> announced b evs then book_depth b s p else v s p)"
proof (induction evs arbitrary: v)
  case Nil
  then show ?case by (simp add: announced_def)
next
  case (Cons ev evs)
  have ih: "fold apply_event evs v' s p = (if (s, p) \<in> announced b evs then book_depth b s p else v' s p)" for v'
    using Cons by (simp add: up_to_date_def)
  have split: "announced b (ev # evs) = announced b [ev] \<union> announced b evs" by (auto simp: announced_def)
  have "apply_event ev v s p = (if (s, p) \<in> announced b [ev] then book_depth b s p else v s p)"
  proof (cases ev)
    case (EvDelta m)
    then obtain n symbol t q lvl where m: "level_at b t q = Some lvl" "m = delta_of n symbol t q lvl"
      using Cons.prems by (fastforce simp: up_to_date_def)
    have "(s, p) \<in> announced b [ev] \<longleftrightarrow> s = t \<and> p = q"
      using m EvDelta by (auto simp: announced_def delta_of_def)
    then show ?thesis unfolding EvDelta m(2) apply_delta [OF inv small m(1)] by simp
  qed (simp_all add: announced_def)
  with ih [of "apply_event ev v"] split show ?case by simp
qed

lemma refreshes_depth:
  assumes "book_inv H b'" "ob_max_orders b' < 2 ^ 32" "refreshes b b' evs"
  shows "fold apply_event evs (book_depth b) = book_depth b'"
proof (intro ext)
  fix s p
  show "fold apply_event evs (book_depth b) s p = book_depth b' s p"
    using fold_apply_event [OF assms(1,2)] assms(3) book_depth_unchanged [of s p b b']
    by (cases "(s, p) \<in> changed b b'") (auto simp: refreshes_def)
qed

context byte_sink
begin

lemma run_session_depth:
  assumes "engine_inv H (rp_matching r)" "ob_max_orders (me_book (rp_matching r)) < 2 ^ 32"
  shows "\<exists>r' evs. run_session H X sink_write r ms = Some r' \<and> emits (rp_feed r) evs (rp_feed r') \<and>
    fold apply_event evs (book_depth (me_book (rp_matching r))) = book_depth (me_book (rp_matching r'))"
  using assms
proof (induction ms arbitrary: r)
  case Nil
  then show ?case by (intro exI [of _ r] exI [of _ "[]"]) simp
next
  case (Cons mt ms)
  obtain m ts where mt: "mt = (m, ts)" by (cases mt)
  from process_message_spec [OF Cons.prems(1), of X m ts] obtain r1 evs1 where
    r1: "process_message H X sink_write r m ts = Some r1" "engine_inv H (rp_matching r1)"
      "emits (rp_feed r) evs1 (rp_feed r1)" "refreshes (me_book (rp_matching r)) (me_book (rp_matching r1)) evs1" by blast
  have small: "ob_max_orders (me_book (rp_matching r1)) < 2 ^ 32"
    using r1(4) Cons.prems(2) by (simp add: refreshes_def same_config_def)
  from Cons.IH [OF r1(2) small] obtain r' evs where
    r': "run_session H X sink_write r1 ms = Some r'" "emits (rp_feed r1) evs (rp_feed r')"
      "fold apply_event evs (book_depth (me_book (rp_matching r1))) = book_depth (me_book (rp_matching r'))" by blast
  have "run_session H X sink_write r (mt # ms) = Some r'" using r1(1) r'(1) mt by simp
  moreover have "emits (rp_feed r) (evs1 @ evs) (rp_feed r')" by (rule emits_trans [OF r1(3) r'(2)])
  moreover have "fold apply_event (evs1 @ evs) (book_depth (me_book (rp_matching r))) = book_depth (me_book (rp_matching r'))"
    using refreshes_depth [OF engine_invD(2) [OF r1(2)] small r1(4)] r'(3) by simp
  ultimately show ?case by blast
qed

end

end
