(* ===== verification/Ring_Prelude.thy ===== *)
theory Ring_Prelude
  imports Prelude
begin

text \<open>
  What the two ring buffers share: positions are \<open>uint64_t\<close> counters that only ever grow, a
  position's slot is \<open>pos & (Capacity - 1)\<close>, and the capacity is a power of two greater
  than one, as the classes' \<open>static_assert\<close> demands.  The slot of a position is therefore
  its value modulo the capacity, also where the counter wraps around.

  The locale \<open>bounded_fifo\<close> is what a bounded queue promises to its single-threaded client.
\<close>

subsection \<open>Positions and slots\<close>

definition capacity_ok :: "nat \<Rightarrow> bool" where
  "capacity_ok c \<longleftrightarrow> (\<exists>k \<in> {1..<64}. c = 2 ^ k)"

definition ring_mask :: "nat \<Rightarrow> u64" where
  "ring_mask c = of_nat c - 1"

definition ring_slot :: "nat \<Rightarrow> u64 \<Rightarrow> nat" where
  "ring_slot c pos = unat (and pos (ring_mask c))"

lemma capacity_okE:
  assumes "capacity_ok c"
  obtains k where "c = 2 ^ k" "0 < k" "k < 64"
  using assms by (auto simp: capacity_ok_def)

lemma capacity_ok_bounds:
  assumes "capacity_ok c"
  shows "1 < c" "0 < c" "c \<le> 2 ^ 63" "c < 2 ^ 64" "c dvd 2 ^ 64"
proof -
  obtain k where k: "c = 2 ^ k" "0 < k" "k < 64" using assms by (rule capacity_okE)
  then show "1 < c" using one_less_power [of "2::nat" k] by simp
  then show "0 < c" by simp
  have "(2::nat) ^ k \<le> 2 ^ 63" using k by (intro power_increasing) auto
  with k show "c \<le> 2 ^ 63" "c < 2 ^ 64" by (simp_all add: k)
  show "c dvd 2 ^ 64" using k by (simp add: le_imp_power_dvd del: power_numeral)
qed

lemma ring_slot_mod:
  assumes "capacity_ok c"
  shows "ring_slot c pos = unat pos mod c"
proof -
  obtain k where k: "c = 2 ^ k" "0 < k" "k < 64" using assms by (rule capacity_okE)
  then have "ring_mask c = mask k" by (simp add: ring_mask_def mask_eq_exp_minus_1)
  then have "and pos (ring_mask c) = take_bit k pos" by (simp add: take_bit_eq_mask)
  then show ?thesis by (simp add: ring_slot_def k unsigned_take_bit_eq take_bit_nat_def)
qed

lemma unat_small [word_arith]: "n < 2 ^ 64 \<Longrightarrow> unat (of_nat n :: u64) = n"
  by (simp add: unat_of_nat)

lemma ring_slot_bound: "capacity_ok c \<Longrightarrow> ring_slot c pos < c"
  by (simp add: ring_slot_mod capacity_ok_bounds)

lemma ring_slot_add:
  assumes "capacity_ok c"
  shows "ring_slot c (pos + of_nat i) = (ring_slot c pos + i) mod c"
proof -
  have "unat (pos + of_nat i) = (unat pos + i mod 2 ^ 64) mod 2 ^ 64"
    by (simp add: unat_word_ariths unat_of_nat)
  then have "unat (pos + of_nat i) mod c = (unat pos + i mod 2 ^ 64) mod c"
    using capacity_ok_bounds(5) [OF assms] by (simp only: mod_mod_cancel)
  also have "\<dots> = (unat pos + i mod 2 ^ 64 mod c) mod c" by presburger
  also have "\<dots> = (unat pos mod c + i) mod c"
    using capacity_ok_bounds(5) [OF assms] by (simp only: mod_mod_cancel mod_add_right_eq mod_add_left_eq)
  finally show ?thesis by (simp only: ring_slot_mod [OF assms])
qed

lemma add_mod_inj:
  fixes a i j c :: nat
  assumes "(a + i) mod c = (a + j) mod c" "i < c" "j < c"
  shows "i = j"
proof -
  obtain q r where "a + i + c * q = a + j + c * r" using assms(1) unfolding nat_mod_eq_iff by blast
  then have "(i + c * q) mod c = (j + c * r) mod c" by simp
  with assms show ?thesis by simp
qed

lemma ring_slot_inj:
  assumes "capacity_ok c" "ring_slot c (pos + of_nat i) = ring_slot c (pos + of_nat j)" "i < c" "j < c"
  shows "i = j"
  using assms(2-) by (intro add_mod_inj [of "ring_slot c pos" i c j]) (simp_all only: ring_slot_add [OF assms(1)])

subsection \<open>The bounded-queue interface\<close>

locale bounded_fifo =
  fixes push :: "'a \<Rightarrow> 'q \<Rightarrow> bool \<times> 'q"
    and pop :: "'q \<Rightarrow> 'a option \<times> 'q"
    and contents :: "'q \<Rightarrow> 'a list"
    and capacity :: "'q \<Rightarrow> nat"
    and invar :: "'q \<Rightarrow> bool"
  assumes push_law: "invar q \<Longrightarrow> push x q = (ok, q') \<Longrightarrow>
      invar q' \<and> capacity q' = capacity q \<and> ok = (length (contents q) < capacity q) \<and>
      contents q' = contents q @ (if ok then [x] else [])"
    and pop_law: "invar q \<Longrightarrow> pop q = (r, q') \<Longrightarrow>
      invar q' \<and> capacity q' = capacity q \<and>
      (case contents q of [] \<Rightarrow> r = None \<and> contents q' = [] | x # xs \<Rightarrow> r = Some x \<and> contents q' = xs)"
    and contents_bound: "invar q \<Longrightarrow> length (contents q) \<le> capacity q"
begin

text \<open>Pushing a batch and popping it again returns the batch, behind what was queued before.\<close>

primrec push_all :: "'a list \<Rightarrow> 'q \<Rightarrow> bool list \<times> 'q" where
  "push_all [] q = ([], q)"
| "push_all (x # xs) q = (let (ok, q1) = push x q; (oks, q2) = push_all xs q1 in (ok # oks, q2))"

primrec pop_all :: "nat \<Rightarrow> 'q \<Rightarrow> 'a option list \<times> 'q" where
  "pop_all 0 q = ([], q)"
| "pop_all (Suc n) q = (let (r, q1) = pop q; (rs, q2) = pop_all n q1 in (r # rs, q2))"

lemma push_all_contents:
  assumes "invar q" "length (contents q) + length xs \<le> capacity q" "push_all xs q = (oks, q')"
  shows "invar q' \<and> capacity q' = capacity q \<and> oks = replicate (length xs) True \<and> contents q' = contents q @ xs"
  using assms
proof (induction xs arbitrary: q oks q')
  case (Cons x xs)
  obtain ok q1 where p: "push x q = (ok, q1)" by fastforce
  obtain oks' q2 where r: "push_all xs q1 = (oks', q2)" by fastforce
  have q1: "invar q1" "capacity q1 = capacity q" "ok" "contents q1 = contents q @ [x]"
    using push_law [OF Cons.prems(1) p] Cons.prems(2) by auto
  then have "invar q2 \<and> capacity q2 = capacity q1 \<and> oks' = replicate (length xs) True \<and> contents q2 = contents q1 @ xs"
    using Cons.prems(2) by (intro Cons.IH [OF _ _ r]) auto
  with q1 p r Cons.prems(3) show ?case by simp
qed simp

lemma pop_all_contents:
  assumes "invar q" "n \<le> length (contents q)" "pop_all n q = (rs, q')"
  shows "invar q' \<and> capacity q' = capacity q \<and> rs = map Some (take n (contents q)) \<and> contents q' = drop n (contents q)"
  using assms
proof (induction n arbitrary: q rs q')
  case (Suc n)
  obtain r q1 where p: "pop q = (r, q1)" by fastforce
  obtain rs' q2 where rest: "pop_all n q1 = (rs', q2)" by fastforce
  obtain x xs where c: "contents q = x # xs" using Suc.prems(2) by (cases "contents q") auto
  then have q1: "invar q1" "capacity q1 = capacity q" "r = Some x" "contents q1 = xs"
    using pop_law [OF Suc.prems(1) p] by auto
  then have "invar q2 \<and> capacity q2 = capacity q1 \<and> rs' = map Some (take n xs) \<and> contents q2 = drop n xs"
    using Suc.IH [OF q1(1) _ rest] Suc.prems(2) c by auto
  with q1 c p rest Suc.prems(3) show ?case by simp
qed simp

lemma push_pop_batch:
  assumes "invar q" "contents q = []" "length xs \<le> capacity q"
    "push_all xs q = (oks, q1)" "pop_all (length xs) q1 = (rs, q2)"
  shows "rs = map Some xs \<and> contents q2 = []"
proof -
  have "invar q1 \<and> contents q1 = xs"
    using push_all_contents [OF assms(1) _ assms(4)] assms(2,3) by simp
  then show ?thesis using pop_all_contents [OF _ _ assms(5)] by auto
qed

end

end
