(* ===== verification/Spsc_Ring.thy ===== *)
theory Spsc_Ring
  imports Ring_Prelude
begin

text \<open>
  \<open>concurrency/spsc_ring_buffer.hpp\<close>.  The operations are written over the pieces of code
  between two accesses to shared memory (\<open>refresh_tail\<close>, \<open>write_slot\<close>, \<open>publish_head\<close> on
  the producer's side, \<open>refresh_head\<close>, \<open>read_slot\<close>, \<open>publish_tail\<close> on the consumer's), so
  that \<open>spsc_step\<close>, the interleaving of the two threads, runs the same pieces.

  An acquire load of the other thread's index need not return its latest value: in
  \<open>spsc_step\<close> it returns any value the index has had since the loading thread last read it,
  which covers every behaviour that release and acquire ordering allow for an index with one
  writer.  The accesses to a slot are single steps; that they are ordered by the indices, so
  that no slot is written while it is read, is the lemma \<open>spsc_slots_apart\<close>.
\<close>

subsection \<open>The ring and its operations\<close>

record producer_state =
  ps_head :: u64
  ps_tail_cache :: u64

record consumer_state =
  cs_tail :: u64
  cs_head_cache :: u64

record 'a spsc_ring =
  sr_buffer :: "'a list"
  sr_producer :: producer_state
  sr_consumer :: consumer_state

definition spsc_capacity :: "'a spsc_ring \<Rightarrow> nat" where
  "spsc_capacity q = length (sr_buffer q)"

abbreviation sr_head :: "'a spsc_ring \<Rightarrow> u64" where
  "sr_head q \<equiv> ps_head (sr_producer q)"

abbreviation sr_tail_cache :: "'a spsc_ring \<Rightarrow> u64" where
  "sr_tail_cache q \<equiv> ps_tail_cache (sr_producer q)"

abbreviation sr_tail :: "'a spsc_ring \<Rightarrow> u64" where
  "sr_tail q \<equiv> cs_tail (sr_consumer q)"

abbreviation sr_head_cache :: "'a spsc_ring \<Rightarrow> u64" where
  "sr_head_cache q \<equiv> cs_head_cache (sr_consumer q)"

definition spsc_init :: "nat \<Rightarrow> 'a \<Rightarrow> 'a spsc_ring" where
  "spsc_init capacity dflt = \<lparr>sr_buffer = replicate capacity dflt,
     sr_producer = \<lparr>ps_head = 0, ps_tail_cache = 0\<rparr>, sr_consumer = \<lparr>cs_tail = 0, cs_head_cache = 0\<rparr>\<rparr>"

definition looks_full :: "'a spsc_ring \<Rightarrow> bool" where
  "looks_full q \<longleftrightarrow> of_nat (spsc_capacity q) \<le> sr_head q - sr_tail_cache q"

definition refresh_tail :: "u64 \<Rightarrow> 'a spsc_ring \<Rightarrow> 'a spsc_ring" where
  "refresh_tail v q = q\<lparr>sr_producer := (sr_producer q)\<lparr>ps_tail_cache := v\<rparr>\<rparr>"

definition write_slot :: "'a \<Rightarrow> 'a spsc_ring \<Rightarrow> 'a spsc_ring" where
  "write_slot item q = q\<lparr>sr_buffer := (sr_buffer q)[ring_slot (spsc_capacity q) (sr_head q) := item]\<rparr>"

definition publish_head :: "'a spsc_ring \<Rightarrow> 'a spsc_ring" where
  "publish_head q = q\<lparr>sr_producer := (sr_producer q)\<lparr>ps_head := sr_head q + 1\<rparr>\<rparr>"

definition spsc_try_push :: "'a \<Rightarrow> 'a spsc_ring \<Rightarrow> bool \<times> 'a spsc_ring" where
  "spsc_try_push item q =
     (if looks_full q
      then let q = refresh_tail (sr_tail q) q
        in if looks_full q then (False, q) else (True, publish_head (write_slot item q))
      else (True, publish_head (write_slot item q)))"

definition looks_empty :: "'a spsc_ring \<Rightarrow> bool" where
  "looks_empty q \<longleftrightarrow> sr_tail q = sr_head_cache q"

definition refresh_head :: "u64 \<Rightarrow> 'a spsc_ring \<Rightarrow> 'a spsc_ring" where
  "refresh_head v q = q\<lparr>sr_consumer := (sr_consumer q)\<lparr>cs_head_cache := v\<rparr>\<rparr>"

definition read_slot :: "'a spsc_ring \<Rightarrow> 'a" where
  "read_slot q = sr_buffer q ! ring_slot (spsc_capacity q) (sr_tail q)"

definition publish_tail :: "'a spsc_ring \<Rightarrow> 'a spsc_ring" where
  "publish_tail q = q\<lparr>sr_consumer := (sr_consumer q)\<lparr>cs_tail := sr_tail q + 1\<rparr>\<rparr>"

text \<open>The out-parameter keeps its value when the buffer is empty.\<close>

definition spsc_try_pop :: "'a \<Rightarrow> 'a spsc_ring \<Rightarrow> bool \<times> 'a \<times> 'a spsc_ring" where
  "spsc_try_pop out q =
     (if looks_empty q
      then let q = refresh_head (sr_head q) q
        in if looks_empty q then (False, out, q) else (True, read_slot q, publish_tail q)
      else (True, read_slot q, publish_tail q))"

definition spsc_try_pop_optional :: "'a \<Rightarrow> 'a spsc_ring \<Rightarrow> 'a option \<times> 'a spsc_ring" where
  "spsc_try_pop_optional dflt q =
     (let (ok, out, q') = spsc_try_pop dflt q in if ok then (Some out, q') else (None, q'))"

definition size_approx :: "'a spsc_ring \<Rightarrow> nat" where
  "size_approx q = unat (sr_head q - sr_tail q)"

definition empty_approx :: "'a spsc_ring \<Rightarrow> bool" where
  "empty_approx q \<longleftrightarrow> size_approx q = 0"

definition full_approx :: "'a spsc_ring \<Rightarrow> bool" where
  "full_approx q \<longleftrightarrow> spsc_capacity q \<le> size_approx q"

lemmas spsc_defs = spsc_capacity_def looks_full_def refresh_tail_def write_slot_def publish_head_def
  looks_empty_def refresh_head_def read_slot_def publish_tail_def

subsection \<open>The invariant and the queue a ring stands for\<close>

text \<open>
  Either cached index lags behind the index it caches, and the two never let the distance of
  the real indices exceed the capacity.  All distances are word differences, so the invariant
  does not notice a counter that wraps around.
\<close>

definition spsc_inv :: "'a spsc_ring \<Rightarrow> bool" where
  "spsc_inv q \<longleftrightarrow> capacity_ok (spsc_capacity q) \<and>
     unat (sr_head_cache q - sr_tail q) \<le> size_approx q \<and>
     unat (sr_tail q - sr_tail_cache q) + size_approx q \<le> spsc_capacity q"

definition spsc_contents :: "'a spsc_ring \<Rightarrow> 'a list" where
  "spsc_contents q = map (\<lambda>i. sr_buffer q ! ring_slot (spsc_capacity q) (sr_tail q + of_nat i)) [0..<size_approx q]"

text \<open>The same in terms of distances from the tail.\<close>

definition spsc_at :: "nat \<Rightarrow> u64 \<Rightarrow> nat \<Rightarrow> nat \<Rightarrow> nat \<Rightarrow> 'a list \<Rightarrow> 'a spsc_ring" where
  "spsc_at c t n m j buf = \<lparr>sr_buffer = buf, sr_producer = \<lparr>ps_head = t + of_nat n, ps_tail_cache = t - of_nat j\<rparr>,
     sr_consumer = \<lparr>cs_tail = t, cs_head_cache = t + of_nat m\<rparr>\<rparr>"

lemma spsc_cases:
  assumes "spsc_inv q"
  obtains c t n m j buf where "q = spsc_at c t n m j buf" "capacity_ok c" "length buf = c" "m \<le> n" "j + n \<le> c"
proof -
  let ?n = "unat (sr_head q - sr_tail q)" and ?m = "unat (sr_head_cache q - sr_tail q)"
    and ?j = "unat (sr_tail q - sr_tail_cache q)"
  have "q = spsc_at (spsc_capacity q) (sr_tail q) ?n ?m ?j (sr_buffer q)"
    by (simp add: spsc_at_def)
  then show thesis
    using assms that by (simp add: spsc_inv_def size_approx_def spsc_capacity_def add.commute)
qed

lemma spsc_at_inv:
  assumes "capacity_ok c" "length buf = c" "m \<le> n" "j + n \<le> c"
  shows "spsc_inv (spsc_at c t n m j buf)" "size_approx (spsc_at c t n m j buf) = n"
    "spsc_capacity (spsc_at c t n m j buf) = c"
  using assms capacity_ok_bounds(4) [OF assms(1)]
  by (simp_all add: spsc_inv_def size_approx_def spsc_at_def spsc_capacity_def unat_small)

lemma spsc_at_contents:
  assumes "capacity_ok c" "length buf = c" "m \<le> n" "j + n \<le> c"
  shows "spsc_contents (spsc_at c t n m j buf) = map (\<lambda>i. buf ! ring_slot c (t + of_nat i)) [0..<n]"
  using spsc_at_inv [OF assms, of t] by (simp add: spsc_contents_def) (simp add: spsc_at_def)

lemma spsc_init_at: "spsc_init c d = spsc_at c 0 0 0 0 (replicate c d)"
  by (simp add: spsc_init_def spsc_at_def)

lemma spsc_init_inv:
  assumes "capacity_ok c"
  shows "spsc_inv (spsc_init c d)" "spsc_contents (spsc_init c d) = []" "spsc_capacity (spsc_init c d) = c"
  using spsc_at_inv [OF assms, of "replicate c d" 0 0 0 0] spsc_at_contents [OF assms, of "replicate c d" 0 0 0 0]
  by (simp_all add: spsc_init_at)

subsection \<open>The pieces of code between two shared accesses\<close>

lemma looks_full_at:
  assumes "capacity_ok c" "length buf = c" "m \<le> n" "j + n \<le> c"
  shows "looks_full (spsc_at c t n m j buf) \<longleftrightarrow> j + n = c"
proof -
  have "t + of_nat n - (t - of_nat j) = (of_nat (j + n) :: u64)" by simp
  then show ?thesis
    using assms(2-) capacity_ok_bounds(4) [OF assms(1)]
    by (auto simp: looks_full_def spsc_at_def spsc_capacity_def word_le_nat_alt unat_small simp del: of_nat_add)
qed

lemma looks_empty_at:
  assumes "capacity_ok c" "m \<le> n" "j + n \<le> c"
  shows "looks_empty (spsc_at c t n m j buf) \<longleftrightarrow> m = 0"
proof -
  have "unat (of_nat m :: u64) = m"
    using assms(2-) capacity_ok_bounds(4) [OF assms(1)] by (intro unat_small) linarith
  then have "(of_nat m :: u64) = 0 \<longleftrightarrow> m = 0"
    using unat_eq_zero [of "of_nat m :: u64"] by (simp del: unat_eq_zero)
  then show ?thesis by (simp add: looks_empty_def spsc_at_def)
qed

lemma spsc_at_ops:
  "refresh_tail (t - of_nat i) (spsc_at c t n m j buf) = spsc_at c t n m i buf"
  "length buf = c \<Longrightarrow> write_slot x (spsc_at c t n m j buf) = spsc_at c t n m j (buf[ring_slot c (t + of_nat n) := x])"
  "publish_head (spsc_at c t n m j buf) = spsc_at c t (Suc n) m j buf"
  "refresh_head (t + of_nat i) (spsc_at c t n m j buf) = spsc_at c t n i j buf"
  "length buf = c \<Longrightarrow> read_slot (spsc_at c t n m j buf) = buf ! ring_slot c t"
  "0 < m \<Longrightarrow> m \<le> n \<Longrightarrow> publish_tail (spsc_at c t n m j buf) = spsc_at c (t + 1) (n - 1) (m - 1) (Suc j) buf"
  by (simp_all add: spsc_at_def spsc_defs of_nat_diff)

text \<open>What an acquire load of the tail, and of the head, may return.\<close>

definition tail_seen :: "'a spsc_ring \<Rightarrow> u64 \<Rightarrow> bool" where
  "tail_seen q v \<longleftrightarrow> unat (v - sr_tail_cache q) \<le> unat (sr_tail q - sr_tail_cache q)"

definition head_seen :: "'a spsc_ring \<Rightarrow> u64 \<Rightarrow> bool" where
  "head_seen q v \<longleftrightarrow> unat (v - sr_head_cache q) \<le> unat (sr_head q - sr_head_cache q)"

lemma latest_seen: "tail_seen q (sr_tail q)" "head_seen q (sr_head q)"
  by (simp_all add: tail_seen_def head_seen_def)

lemma tail_seenE:
  assumes "tail_seen (spsc_at c t n m j buf) v" "capacity_ok c" "j + n \<le> c"
  obtains i where "v = t - of_nat i" "i \<le> j"
proof -
  let ?d = "unat (v - (t - of_nat j))"
  have "unat (of_nat j :: u64) = j" using assms(2-) capacity_ok_bounds(4) [OF assms(2)] by (simp add: unat_small)
  then have d: "?d \<le> j" using assms(1) by (simp add: tail_seen_def spsc_at_def)
  then have "v = t - of_nat (j - ?d)" by (simp add: of_nat_diff)
  then show thesis using that [of "j - ?d"] by simp
qed

lemma head_seenE:
  assumes "head_seen (spsc_at c t n m j buf) v" "capacity_ok c" "m \<le> n" "j + n \<le> c"
  obtains i where "v = t + of_nat i" "m \<le> i" "i \<le> n"
proof -
  let ?d = "unat (v - (t + of_nat m))"
  have "t + of_nat n - (t + of_nat m) = (of_nat (n - m) :: u64)" using assms(3) by (simp add: of_nat_diff)
  moreover have "unat (of_nat (n - m) :: u64) = n - m"
    using assms(2-) capacity_ok_bounds(4) [OF assms(2)] by (intro unat_small) linarith
  ultimately have d: "?d \<le> n - m" using assms(1) by (simp add: head_seen_def spsc_at_def)
  have "v = t + of_nat (m + ?d)" by simp
  then show thesis using that [of "m + ?d"] d assms(3) by simp
qed

lemma refresh_tail_ok:
  assumes "spsc_inv q" "tail_seen q v"
  shows "spsc_inv (refresh_tail v q)" "spsc_contents (refresh_tail v q) = spsc_contents q"
    "spsc_capacity (refresh_tail v q) = spsc_capacity q"
    "looks_empty (refresh_tail v q) = looks_empty q" "read_slot (refresh_tail v q) = read_slot q"
    "v = sr_tail q \<Longrightarrow> looks_full (refresh_tail v q) = (length (spsc_contents q) = spsc_capacity q)"
proof -
  obtain c t n m j buf where q: "q = spsc_at c t n m j buf" "capacity_ok c" "length buf = c" "m \<le> n" "j + n \<le> c"
    using assms(1) by (rule spsc_cases)
  obtain i where i: "v = t - of_nat i" "i \<le> j" using assms(2) q by (auto elim: tail_seenE)
  note at = spsc_at_inv spsc_at_contents looks_empty_at looks_full_at spsc_at_ops
  show "spsc_inv (refresh_tail v q)" "spsc_contents (refresh_tail v q) = spsc_contents q"
    "spsc_capacity (refresh_tail v q) = spsc_capacity q"
    "looks_empty (refresh_tail v q) = looks_empty q" "read_slot (refresh_tail v q) = read_slot q"
    using q i by (simp_all add: at)
  assume "v = sr_tail q"
  then have "v = t - of_nat 0" using q by (simp add: spsc_at_def)
  then show "looks_full (refresh_tail v q) = (length (spsc_contents q) = spsc_capacity q)"
    using q by (simp only: at) (simp add: at)
qed

lemma refresh_head_ok:
  assumes "spsc_inv q" "head_seen q v"
  shows "spsc_inv (refresh_head v q)" "spsc_contents (refresh_head v q) = spsc_contents q"
    "spsc_capacity (refresh_head v q) = spsc_capacity q"
    "looks_full (refresh_head v q) = looks_full q" "sr_head (refresh_head v q) = sr_head q"
    "sr_buffer (refresh_head v q) = sr_buffer q"
    "v = sr_head q \<Longrightarrow> looks_empty (refresh_head v q) = (spsc_contents q = [])"
proof -
  obtain c t n m j buf where q: "q = spsc_at c t n m j buf" "capacity_ok c" "length buf = c" "m \<le> n" "j + n \<le> c"
    using assms(1) by (rule spsc_cases)
  obtain i where i: "v = t + of_nat i" "m \<le> i" "i \<le> n" using assms(2) q by (auto elim: head_seenE)
  note at = spsc_at_inv spsc_at_contents looks_empty_at looks_full_at spsc_at_ops
  show "spsc_inv (refresh_head v q)" "spsc_contents (refresh_head v q) = spsc_contents q"
    "spsc_capacity (refresh_head v q) = spsc_capacity q"
    "looks_full (refresh_head v q) = looks_full q" "sr_head (refresh_head v q) = sr_head q"
    "sr_buffer (refresh_head v q) = sr_buffer q"
    using q i by (simp_all add: at) (simp_all add: spsc_at_def)
  assume "v = sr_head q"
  then have "v = t + of_nat n" using q by (simp add: spsc_at_def)
  then show "looks_empty (refresh_head v q) = (spsc_contents q = [])"
    using q by (simp only: at) (simp add: at)
qed

lemma write_slot_ok:
  assumes "spsc_inv q" "\<not> looks_full q"
  shows "spsc_inv (write_slot x q)" "spsc_contents (write_slot x q) = spsc_contents q"
    "spsc_capacity (write_slot x q) = spsc_capacity q" "\<not> looks_full (write_slot x q)"
    "looks_empty (write_slot x q) = looks_empty q"
    "\<not> looks_empty q \<Longrightarrow> read_slot (write_slot x q) = read_slot q"
    "sr_buffer (write_slot x q) ! ring_slot (spsc_capacity q) (sr_head q) = x" "sr_head (write_slot x q) = sr_head q"
proof -
  obtain c t n m j buf where q: "q = spsc_at c t n m j buf" "capacity_ok c" "length buf = c" "m \<le> n" "j + n \<le> c"
    using assms(1) by (rule spsc_cases)
  let ?buf = "buf[ring_slot c (t + of_nat n) := x]"
  have room: "n < c" "j + n \<noteq> c" using assms(2) q by (auto simp: looks_full_at)
  have same: "?buf ! ring_slot c (t + of_nat i) = buf ! ring_slot c (t + of_nat i)" if "i < n" for i
    using that room ring_slot_inj [OF q(2), of t i n] by (auto simp: nth_update_if)
  note at = spsc_at_inv spsc_at_contents looks_empty_at looks_full_at spsc_at_ops
  show "spsc_inv (write_slot x q)" "spsc_contents (write_slot x q) = spsc_contents q"
    "spsc_capacity (write_slot x q) = spsc_capacity q" "\<not> looks_full (write_slot x q)"
    "looks_empty (write_slot x q) = looks_empty q"
    using q room same by (simp_all add: at)
  show "sr_head (write_slot x q) = sr_head q"
    "sr_buffer (write_slot x q) ! ring_slot (spsc_capacity q) (sr_head q) = x"
    using q ring_slot_bound [OF q(2)] by (simp_all add: write_slot_def spsc_capacity_def) (simp_all add: spsc_at_def)
  assume "\<not> looks_empty q"
  then have "0 < n" using q by (simp add: looks_empty_at)
  then show "read_slot (write_slot x q) = read_slot q" using q same [of 0] by (simp add: at)
qed

lemma publish_head_ok:
  assumes "spsc_inv q" "\<not> looks_full q" "sr_buffer q ! ring_slot (spsc_capacity q) (sr_head q) = x"
  shows "spsc_inv (publish_head q)" "spsc_contents (publish_head q) = spsc_contents q @ [x]"
    "spsc_capacity (publish_head q) = spsc_capacity q"
    "looks_empty (publish_head q) = looks_empty q" "read_slot (publish_head q) = read_slot q"
proof -
  obtain c t n m j buf where q: "q = spsc_at c t n m j buf" "capacity_ok c" "length buf = c" "m \<le> n" "j + n \<le> c"
    using assms(1) by (rule spsc_cases)
  have room: "j + Suc n \<le> c" "m \<le> Suc n" using assms(2) q by (auto simp: looks_full_at)
  have "buf ! ring_slot c (t + of_nat n) = x"
    using assms(3) q by (simp add: spsc_at_inv) (simp add: spsc_at_def)
  then show "spsc_inv (publish_head q)" "spsc_contents (publish_head q) = spsc_contents q @ [x]"
    "spsc_capacity (publish_head q) = spsc_capacity q"
    "looks_empty (publish_head q) = looks_empty q" "read_slot (publish_head q) = read_slot q"
    using q room by (simp_all add: spsc_at_inv spsc_at_contents looks_empty_at spsc_at_ops)
qed

lemma publish_tail_ok:
  assumes "spsc_inv q" "\<not> looks_empty q"
  shows "spsc_inv (publish_tail q)" "spsc_contents q = read_slot q # spsc_contents (publish_tail q)"
    "spsc_capacity (publish_tail q) = spsc_capacity q"
    "looks_full (publish_tail q) = looks_full q" "sr_head (publish_tail q) = sr_head q"
    "sr_buffer (publish_tail q) = sr_buffer q"
proof -
  obtain c t n m j buf where q: "q = spsc_at c t n m j buf" "capacity_ok c" "length buf = c" "m \<le> n" "j + n \<le> c"
    using assms(1) by (rule spsc_cases)
  obtain n' m' where nm: "n = Suc n'" "m = Suc m'" using assms(2) q by (cases n; cases m) (auto simp: looks_empty_at)
  have "map (\<lambda>i. buf ! ring_slot c (t + of_nat i)) [0..<Suc n'] =
    buf ! ring_slot c t # map (\<lambda>i. buf ! ring_slot c (t + 1 + of_nat i)) [0..<n']"
    by (simp add: upt_conv_Cons map_Suc_upt [symmetric] comp_def ac_simps del: upt_Suc)
  then show "spsc_inv (publish_tail q)" "spsc_contents q = read_slot q # spsc_contents (publish_tail q)"
    "spsc_capacity (publish_tail q) = spsc_capacity q" "looks_full (publish_tail q) = looks_full q"
    "sr_head (publish_tail q) = sr_head q" "sr_buffer (publish_tail q) = sr_buffer q"
    using q nm by (simp_all add: spsc_at_inv spsc_at_contents looks_full_at spsc_at_ops del: upt_Suc)
      (simp_all add: spsc_at_def)
qed

subsection \<open>Without interference the ring is a bounded queue\<close>

lemma spsc_contents_bound: "spsc_inv q \<Longrightarrow> length (spsc_contents q) \<le> spsc_capacity q"
  by (simp add: spsc_contents_def spsc_inv_def)

lemma looks_full_implied:
  assumes "spsc_inv q" "\<not> looks_full q"
  shows "length (spsc_contents q) < spsc_capacity q"
proof -
  obtain c t n m j buf where "q = spsc_at c t n m j buf" "capacity_ok c" "length buf = c" "m \<le> n" "j + n \<le> c"
    using assms(1) by (rule spsc_cases)
  with assms(2) show ?thesis by (simp add: spsc_at_inv spsc_at_contents looks_full_at)
qed

lemma spsc_try_push_law:
  assumes "spsc_inv q" "spsc_try_push x q = (ok, q')"
  shows "spsc_inv q' \<and> spsc_capacity q' = spsc_capacity q \<and> ok = (length (spsc_contents q) < spsc_capacity q) \<and>
    spsc_contents q' = spsc_contents q @ (if ok then [x] else [])"
proof -
  have put: "spsc_inv (publish_head (write_slot x r)) \<and> spsc_capacity (publish_head (write_slot x r)) = spsc_capacity r \<and>
    spsc_contents (publish_head (write_slot x r)) = spsc_contents r @ [x]" if "spsc_inv r" "\<not> looks_full r" for r
    using that write_slot_ok [OF that] publish_head_ok [of "write_slot x r" x] by auto
  note fresh = refresh_tail_ok [OF assms(1) latest_seen(1)]
  show ?thesis
    using assms(2) put [OF assms(1)] put [OF fresh(1)] fresh spsc_contents_bound [OF assms(1)] looks_full_implied [OF assms(1)]
    by (auto simp: spsc_try_push_def Let_def split: if_splits)
qed

lemma spsc_try_pop_law:
  assumes "spsc_inv q" "spsc_try_pop out q = (ok, r, q')"
  shows "spsc_inv q' \<and> spsc_capacity q' = spsc_capacity q \<and> ok = (spsc_contents q \<noteq> []) \<and>
    (if ok then spsc_contents q = r # spsc_contents q' else r = out \<and> spsc_contents q' = [])"
proof -
  note fresh = refresh_head_ok [OF assms(1) latest_seen(2)]
  show ?thesis
    using assms(2) publish_tail_ok [OF assms(1)] publish_tail_ok [OF fresh(1)] fresh assms(1)
    by (auto simp: spsc_try_pop_def Let_def split: if_splits)
qed

interpretation spsc: bounded_fifo spsc_try_push "spsc_try_pop_optional d" spsc_contents spsc_capacity spsc_inv
  for d :: 'a
proof (unfold_locales, goal_cases)
  case (1 q x ok q')
  then show ?case by (rule spsc_try_push_law)
next
  case (2 q r q')
  obtain ok out q1 where p: "spsc_try_pop d q = (ok, out, q1)" by (rule prod_cases3)
  note law = spsc_try_pop_law [OF 2(1) p]
  have "r = (if ok then Some out else None)" "q' = q1"
    using 2(2) by (simp_all add: spsc_try_pop_optional_def p split: if_splits)
  with law show ?case by (cases "spsc_contents q") simp_all
next
  case (3 q)
  then show ?case by (rule spsc_contents_bound)
qed

end
