(* ===== verification/Spsc_Threads.thy ===== *)
theory Spsc_Threads
  imports Spsc_Ring
begin

text \<open>
  The producer thread and the consumer thread of \<open>SPSCRingBuffer\<close> as one step relation.  A
  thread is inside \<open>try_push\<close> or \<open>try_pop\<close> at one of the points where it is about to touch
  shared memory; a step is one such access with the local code up to the next one.
\<close>

subsection \<open>Threads and steps\<close>

datatype 'a producer_point =
    P_Idle
  | P_Refresh 'a  \<comment> \<open>the cached tail says full: about to load \<open>consumer_.tail\<close>\<close>
  | P_Write 'a    \<comment> \<open>about to assign the slot\<close>
  | P_Publish 'a  \<comment> \<open>about to store \<open>head + 1\<close>\<close>

datatype 'a consumer_point =
    C_Idle
  | C_Refresh     \<comment> \<open>the cached head says empty: about to load \<open>producer_.head\<close>\<close>
  | C_Read        \<comment> \<open>about to read the slot\<close>
  | C_Publish 'a  \<comment> \<open>about to store \<open>tail + 1\<close>, the value read\<close>

datatype 'a ring_event = Pushed 'a | Push_Failed 'a | Popped 'a | Pop_Failed

record 'a spsc_system =
  ss_ring :: "'a spsc_ring"
  ss_producer :: "'a producer_point"
  ss_consumer :: "'a consumer_point"

definition spsc_system_init :: "nat \<Rightarrow> 'a \<Rightarrow> 'a spsc_system" where
  "spsc_system_init c d = \<lparr>ss_ring = spsc_init c d, ss_producer = P_Idle, ss_consumer = C_Idle\<rparr>"

inductive spsc_step :: "'a spsc_system \<Rightarrow> 'a ring_event list \<Rightarrow> 'a spsc_system \<Rightarrow> bool" where
  push_call: "ss_producer s = P_Idle \<Longrightarrow>
    spsc_step s [] (s\<lparr>ss_producer := if looks_full (ss_ring s) then P_Refresh x else P_Write x\<rparr>)"
| push_refresh: "ss_producer s = P_Refresh x \<Longrightarrow> tail_seen (ss_ring s) v \<Longrightarrow> q = refresh_tail v (ss_ring s) \<Longrightarrow>
    \<not> looks_full q \<Longrightarrow> spsc_step s [] (s\<lparr>ss_ring := q, ss_producer := P_Write x\<rparr>)"
| push_fail: "ss_producer s = P_Refresh x \<Longrightarrow> tail_seen (ss_ring s) v \<Longrightarrow> q = refresh_tail v (ss_ring s) \<Longrightarrow>
    looks_full q \<Longrightarrow> spsc_step s [Push_Failed x] (s\<lparr>ss_ring := q, ss_producer := P_Idle\<rparr>)"
| push_write: "ss_producer s = P_Write x \<Longrightarrow>
    spsc_step s [] (s\<lparr>ss_ring := write_slot x (ss_ring s), ss_producer := P_Publish x\<rparr>)"
| push_publish: "ss_producer s = P_Publish x \<Longrightarrow>
    spsc_step s [Pushed x] (s\<lparr>ss_ring := publish_head (ss_ring s), ss_producer := P_Idle\<rparr>)"
| pop_call: "ss_consumer s = C_Idle \<Longrightarrow>
    spsc_step s [] (s\<lparr>ss_consumer := if looks_empty (ss_ring s) then C_Refresh else C_Read\<rparr>)"
| pop_refresh: "ss_consumer s = C_Refresh \<Longrightarrow> head_seen (ss_ring s) v \<Longrightarrow> q = refresh_head v (ss_ring s) \<Longrightarrow>
    \<not> looks_empty q \<Longrightarrow> spsc_step s [] (s\<lparr>ss_ring := q, ss_consumer := C_Read\<rparr>)"
| pop_fail: "ss_consumer s = C_Refresh \<Longrightarrow> head_seen (ss_ring s) v \<Longrightarrow> q = refresh_head v (ss_ring s) \<Longrightarrow>
    looks_empty q \<Longrightarrow> spsc_step s [Pop_Failed] (s\<lparr>ss_ring := q, ss_consumer := C_Idle\<rparr>)"
| pop_read: "ss_consumer s = C_Read \<Longrightarrow>
    spsc_step s [] (s\<lparr>ss_consumer := C_Publish (read_slot (ss_ring s))\<rparr>)"
| pop_publish: "ss_consumer s = C_Publish x \<Longrightarrow>
    spsc_step s [Popped x] (s\<lparr>ss_ring := publish_tail (ss_ring s), ss_consumer := C_Idle\<rparr>)"

inductive spsc_run :: "'a spsc_system \<Rightarrow> 'a ring_event list \<Rightarrow> 'a spsc_system \<Rightarrow> bool" where
  run_nil: "spsc_run s [] s"
| run_step: "spsc_run s evs s' \<Longrightarrow> spsc_step s' ev s'' \<Longrightarrow> spsc_run s (evs @ ev) s''"

fun pushed :: "'a ring_event list \<Rightarrow> 'a list" where
  "pushed [] = []"
| "pushed (Pushed x # evs) = x # pushed evs"
| "pushed (_ # evs) = pushed evs"

fun popped :: "'a ring_event list \<Rightarrow> 'a list" where
  "popped [] = []"
| "popped (Popped x # evs) = x # popped evs"
| "popped (_ # evs) = popped evs"

lemma pushed_append [simp]: "pushed (xs @ ys) = pushed xs @ pushed ys"
  by (induction xs rule: pushed.induct) auto

lemma popped_append [simp]: "popped (xs @ ys) = popped xs @ popped ys"
  by (induction xs rule: popped.induct) auto

subsection \<open>The invariant of the two threads\<close>

fun producer_ok :: "'a spsc_ring \<Rightarrow> 'a producer_point \<Rightarrow> bool" where
  "producer_ok q P_Idle \<longleftrightarrow> True"
| "producer_ok q (P_Refresh x) \<longleftrightarrow> True"
| "producer_ok q (P_Write x) \<longleftrightarrow> \<not> looks_full q"
| "producer_ok q (P_Publish x) \<longleftrightarrow> \<not> looks_full q \<and> sr_buffer q ! ring_slot (spsc_capacity q) (sr_head q) = x"

fun consumer_ok :: "'a spsc_ring \<Rightarrow> 'a consumer_point \<Rightarrow> bool" where
  "consumer_ok q C_Idle \<longleftrightarrow> True"
| "consumer_ok q C_Refresh \<longleftrightarrow> True"
| "consumer_ok q C_Read \<longleftrightarrow> \<not> looks_empty q"
| "consumer_ok q (C_Publish x) \<longleftrightarrow> \<not> looks_empty q \<and> read_slot q = x"

definition system_ok :: "'a spsc_system \<Rightarrow> bool" where
  "system_ok s \<longleftrightarrow> spsc_inv (ss_ring s) \<and> producer_ok (ss_ring s) (ss_producer s) \<and> consumer_ok (ss_ring s) (ss_consumer s)"

lemma consumer_frame:
  assumes "consumer_ok q pc" "looks_empty q' = looks_empty q" "\<not> looks_empty q \<Longrightarrow> read_slot q' = read_slot q"
  shows "consumer_ok q' pc"
  using assms by (cases pc) auto

lemma producer_frame:
  assumes "producer_ok q pc" "looks_full q' = looks_full q" "sr_buffer q' = sr_buffer q" "sr_head q' = sr_head q"
  shows "producer_ok q' pc"
  using assms by (cases pc) (auto simp: spsc_capacity_def)

text \<open>Each step keeps the invariant and changes the queue exactly as its event says.\<close>

lemma spsc_step_ok:
  assumes "spsc_step s ev s'" "system_ok s"
  shows "system_ok s' \<and> spsc_capacity (ss_ring s') = spsc_capacity (ss_ring s) \<and>
    spsc_contents (ss_ring s) @ pushed ev = popped ev @ spsc_contents (ss_ring s')"
  using assms
proof (induction rule: spsc_step.induct)
  case (push_refresh s x v q)
  then show ?case
    using refresh_tail_ok(1-5) [of "ss_ring s" v] by (auto simp: system_ok_def intro: consumer_frame)
next
  case (push_fail s x v q)
  then show ?case
    using refresh_tail_ok(1-5) [of "ss_ring s" v] by (auto simp: system_ok_def intro: consumer_frame)
next
  case (push_write s x)
  then show ?case
    using write_slot_ok [of "ss_ring s" x] by (auto simp: system_ok_def intro: consumer_frame)
next
  case (push_publish s x)
  then show ?case
    using publish_head_ok [of "ss_ring s" x] by (auto simp: system_ok_def intro: consumer_frame)
next
  case (pop_refresh s v q)
  then show ?case
    using refresh_head_ok(1-6) [of "ss_ring s" v] by (auto simp: system_ok_def intro: producer_frame)
next
  case (pop_fail s v q)
  then show ?case
    using refresh_head_ok(1-6) [of "ss_ring s" v] by (auto simp: system_ok_def intro: producer_frame)
next
  case (pop_publish s x)
  then show ?case
    using publish_tail_ok [of "ss_ring s"] by (auto simp: system_ok_def intro: producer_frame)
qed (auto simp: system_ok_def)

lemma spsc_run_ok:
  assumes "spsc_run s evs s'" "system_ok s"
  shows "system_ok s' \<and> spsc_capacity (ss_ring s') = spsc_capacity (ss_ring s) \<and>
    spsc_contents (ss_ring s) @ pushed evs = popped evs @ spsc_contents (ss_ring s')"
  using assms
proof (induction rule: spsc_run.induct)
  case (run_step s evs s' ev s'')
  note ih = run_step.IH [OF run_step.prems]
  then have "system_ok s'" by simp
  note step = spsc_step_ok [OF run_step.hyps(2) this]
  have "spsc_contents (ss_ring s) @ pushed (evs @ ev) = (popped evs @ spsc_contents (ss_ring s')) @ pushed ev"
    using ih by (metis append_assoc pushed_append)
  also have "\<dots> = popped (evs @ ev) @ spsc_contents (ss_ring s'')" using step by simp
  finally show ?case using ih step by simp
qed simp

lemma spsc_system_init_ok:
  assumes "capacity_ok c"
  shows "system_ok (spsc_system_init c d)" "spsc_contents (ss_ring (spsc_system_init c d)) = []"
    "spsc_capacity (ss_ring (spsc_system_init c d)) = c"
  using spsc_init_inv [OF assms, of d] by (simp_all add: system_ok_def spsc_system_init_def)

text \<open>While the producer is about to write a slot the consumer is not about to read it.\<close>

lemma spsc_slots_apart:
  assumes "system_ok s" "ss_producer s = P_Write x" "ss_consumer s = C_Read"
  shows "ring_slot (spsc_capacity (ss_ring s)) (sr_head (ss_ring s)) \<noteq> ring_slot (spsc_capacity (ss_ring s)) (sr_tail (ss_ring s))"
proof -
  let ?q = "ss_ring s"
  have q: "spsc_inv ?q" "\<not> looks_full ?q" "\<not> looks_empty ?q" using assms by (simp_all add: system_ok_def)
  obtain c t n m j buf where at: "?q = spsc_at c t n m j buf" "capacity_ok c" "length buf = c" "m \<le> n" "j + n \<le> c"
    using q(1) by (rule spsc_cases)
  have "0 < n" "n < c" using q(2,3) at by (auto simp: looks_full_at looks_empty_at)
  then have "ring_slot c (t + of_nat n) \<noteq> ring_slot c (t + of_nat 0)" using ring_slot_inj [OF at(2), of t n 0] by auto
  then show ?thesis using at by (simp add: spsc_at_inv) (simp add: spsc_at_def)
qed

subsection \<open>No thread waits for the other\<close>

text \<open>The steps a thread has left in the call it is in.\<close>

fun push_steps_left :: "'a producer_point \<Rightarrow> nat" where
  "push_steps_left P_Idle = 0"
| "push_steps_left (P_Refresh x) = 3"
| "push_steps_left (P_Write x) = 2"
| "push_steps_left (P_Publish x) = 1"

fun pop_steps_left :: "'a consumer_point \<Rightarrow> nat" where
  "pop_steps_left C_Idle = 0"
| "pop_steps_left C_Refresh = 3"
| "pop_steps_left C_Read = 2"
| "pop_steps_left (C_Publish x) = 1"

lemma push_advances:
  assumes "ss_producer s \<noteq> P_Idle"
  shows "\<exists>ev s'. spsc_step s ev s' \<and> ss_consumer s' = ss_consumer s \<and> push_steps_left (ss_producer s') < push_steps_left (ss_producer s)"
proof (cases "ss_producer s")
  case (P_Refresh x)
  let ?q = "refresh_tail (sr_tail (ss_ring s)) (ss_ring s)"
  show ?thesis
  proof (cases "looks_full ?q")
    case True
    show ?thesis
      by (intro exI conjI, rule spsc_step.push_fail [OF P_Refresh latest_seen(1) refl True]) (simp_all add: P_Refresh)
  next
    case False
    show ?thesis
      by (intro exI conjI, rule spsc_step.push_refresh [OF P_Refresh latest_seen(1) refl False]) (simp_all add: P_Refresh)
  qed
next
  case (P_Write x)
  show ?thesis
    by (intro exI conjI, rule spsc_step.push_write [OF P_Write]) (simp_all add: P_Write)
next
  case (P_Publish x)
  show ?thesis
    by (intro exI conjI, rule spsc_step.push_publish [OF P_Publish]) (simp_all add: P_Publish)
qed (use assms in simp)

lemma pop_advances:
  assumes "ss_consumer s \<noteq> C_Idle"
  shows "\<exists>ev s'. spsc_step s ev s' \<and> ss_producer s' = ss_producer s \<and> pop_steps_left (ss_consumer s') < pop_steps_left (ss_consumer s)"
proof (cases "ss_consumer s")
  case C_Refresh
  let ?q = "refresh_head (sr_head (ss_ring s)) (ss_ring s)"
  show ?thesis
  proof (cases "looks_empty ?q")
    case True
    show ?thesis
      by (intro exI conjI, rule spsc_step.pop_fail [OF C_Refresh latest_seen(2) refl True]) (simp_all add: C_Refresh)
  next
    case False
    show ?thesis
      by (intro exI conjI, rule spsc_step.pop_refresh [OF C_Refresh latest_seen(2) refl False]) (simp_all add: C_Refresh)
  qed
next
  case C_Read
  show ?thesis
    by (intro exI conjI, rule spsc_step.pop_read [OF C_Read]) (simp_all add: C_Read)
next
  case (C_Publish x)
  show ?thesis
    by (intro exI conjI, rule spsc_step.pop_publish [OF C_Publish]) (simp_all add: C_Publish)
qed (use assms in simp)

text \<open>Every step of a thread brings its call closer to the return, and no step of the other sets it back.\<close>

lemma spsc_step_progress:
  assumes "spsc_step s ev s'"
  shows "(ss_producer s = P_Idle \<or> push_steps_left (ss_producer s') < push_steps_left (ss_producer s)) \<and> ss_consumer s' = ss_consumer s \<or>
    (ss_consumer s = C_Idle \<or> pop_steps_left (ss_consumer s') < pop_steps_left (ss_consumer s)) \<and> ss_producer s' = ss_producer s"
  using assms by (induction rule: spsc_step.induct) auto

text \<open>A call that runs without interference is the sequential operation.\<close>

lemma spsc_run_steps:
  assumes "spsc_step s ev s'" "spsc_run s' evs s''"
  shows "spsc_run s (ev @ evs) s''"
  using assms(2,1)
proof (induction rule: spsc_run.induct)
  case (run_nil s1)
  then show ?case using run_step [OF spsc_run.run_nil, of s ev s1] by simp
next
  case (run_step s1 evs s' ev' s'')
  then show ?case using spsc_run.run_step [of s "ev @ evs" s' ev' s''] by simp
qed

lemma spsc_run_one: "spsc_step s ev s' \<Longrightarrow> spsc_run s ev s'"
  using spsc_run_steps [OF _ run_nil] by fastforce

lemma push_call_run:
  assumes "ss_producer s = P_Idle"
  shows "spsc_run s [if fst (spsc_try_push x (ss_ring s)) then Pushed x else Push_Failed x]
    (s\<lparr>ss_ring := snd (spsc_try_push x (ss_ring s))\<rparr>)"
proof -
  let ?q = "ss_ring s"
  have put: "spsc_run (s\<lparr>ss_ring := r, ss_producer := P_Write x\<rparr>) [Pushed x]
      (s\<lparr>ss_ring := publish_head (write_slot x r)\<rparr>)" for r
  proof -
    let ?s1 = "s\<lparr>ss_ring := r, ss_producer := P_Write x\<rparr>"
    let ?s2 = "?s1\<lparr>ss_ring := write_slot x (ss_ring ?s1), ss_producer := P_Publish x\<rparr>"
    have "spsc_step ?s1 [] ?s2" by (rule push_write) simp
    moreover have "spsc_step ?s2 [Pushed x] (?s2\<lparr>ss_ring := publish_head (ss_ring ?s2), ss_producer := P_Idle\<rparr>)"
      by (rule push_publish) simp
    moreover have "?s2\<lparr>ss_ring := publish_head (ss_ring ?s2), ss_producer := P_Idle\<rparr> = s\<lparr>ss_ring := publish_head (write_slot x r)\<rparr>"
      using assms by (cases s) simp
    ultimately show ?thesis using spsc_run_steps [OF _ spsc_run_one] by fastforce
  qed
  note call = push_call [OF assms, of x]
  show ?thesis
  proof (cases "looks_full ?q")
    case False
    then have "spsc_step s [] (s\<lparr>ss_ring := ?q, ss_producer := P_Write x\<rparr>)" using call by simp
    from spsc_run_steps [OF this put] False show ?thesis by (simp add: spsc_try_push_def)
  next
    case True
    let ?s1 = "s\<lparr>ss_producer := P_Refresh x\<rparr>" and ?r = "refresh_tail (sr_tail ?q) ?q"
    have c: "spsc_step s [] ?s1" using call True by simp
    show ?thesis
    proof (cases "looks_full ?r")
      case full: True
      have "spsc_step ?s1 [Push_Failed x] (?s1\<lparr>ss_ring := ?r, ss_producer := P_Idle\<rparr>)"
        using full latest_seen(1) [of ?q] by (intro push_fail) simp_all
      moreover have "?s1\<lparr>ss_ring := ?r, ss_producer := P_Idle\<rparr> = s\<lparr>ss_ring := ?r\<rparr>" using assms by (cases s) simp
      ultimately show ?thesis using spsc_run_steps [OF c spsc_run_one] True full by (simp add: spsc_try_push_def Let_def)
    next
      case False
      have "spsc_step ?s1 [] (?s1\<lparr>ss_ring := ?r, ss_producer := P_Write x\<rparr>)"
        using False latest_seen(1) [of ?q] by (intro push_refresh) simp_all
      then have "spsc_step ?s1 [] (s\<lparr>ss_ring := ?r, ss_producer := P_Write x\<rparr>)" by simp
      from spsc_run_steps [OF c spsc_run_steps [OF this put]] False True show ?thesis by (simp add: spsc_try_push_def Let_def)
    qed
  qed
qed

end
