(* ===== verification/Mpsc_Ring.thy ===== *)
theory Mpsc_Ring
  imports Ring_Prelude
begin

text \<open>
  \<open>concurrency/mpsc_ring_buffer.hpp\<close>: any number of producers and one consumer over cells
  that carry their own sequence counter.  As for the other ring, the operations are composed
  of the pieces of code between two shared accesses, and \<open>mpsc_step\<close> interleaves them.

  A load of \<open>enqueue_pos_\<close> or of a cell's \<open>sequence\<close> may return any value up to the
  current one, which is more than the memory orders of the code allow; the compare-exchange
  acts on the latest value, as every read-modify-write does, and may fail spuriously.  The
  counters are 64 bits wide; the theorems hold for runs that claim fewer than \<open>2 ^ 63\<close>
  positions, so that no counter wraps around under a stalled producer.
\<close>

subsection \<open>The ring and its operations\<close>

record 'a cell =
  cell_sequence :: u64
  cell_data :: 'a

record 'a mpsc_ring =
  mr_cells :: "'a cell list"
  mr_enqueue_pos :: u64
  mr_dequeue_pos :: u64

definition mpsc_capacity :: "'a mpsc_ring \<Rightarrow> nat" where
  "mpsc_capacity q = length (mr_cells q)"

definition mpsc_init :: "nat \<Rightarrow> 'a \<Rightarrow> 'a mpsc_ring" where
  "mpsc_init capacity dflt = \<lparr>mr_cells = map (\<lambda>i. \<lparr>cell_sequence = of_nat i, cell_data = dflt\<rparr>) [0..<capacity],
     mr_enqueue_pos = 0, mr_dequeue_pos = 0\<rparr>"

definition cell_at :: "'a mpsc_ring \<Rightarrow> u64 \<Rightarrow> 'a cell" where
  "cell_at q pos = mr_cells q ! ring_slot (mpsc_capacity q) pos"

definition set_cell :: "u64 \<Rightarrow> 'a cell \<Rightarrow> 'a mpsc_ring \<Rightarrow> 'a mpsc_ring" where
  "set_cell pos cl q = q\<lparr>mr_cells := (mr_cells q)[ring_slot (mpsc_capacity q) pos := cl]\<rparr>"

definition position_diff :: "u64 \<Rightarrow> u64 \<Rightarrow> int" where
  "position_diff seq pos = sint (seq - pos)"

definition write_cell :: "u64 \<Rightarrow> 'a \<Rightarrow> 'a mpsc_ring \<Rightarrow> 'a mpsc_ring" where
  "write_cell pos item q = set_cell pos ((cell_at q pos)\<lparr>cell_data := item\<rparr>) q"

definition publish_cell :: "u64 \<Rightarrow> 'a mpsc_ring \<Rightarrow> 'a mpsc_ring" where
  "publish_cell pos q = set_cell pos ((cell_at q pos)\<lparr>cell_sequence := pos + 1\<rparr>) q"

text \<open>
  The claim loop of \<open>try_push\<close> as it runs when no other thread interferes; \<open>None\<close> is
  the loop that does not end.
\<close>

partial_function (option) claim_loop :: "u64 \<Rightarrow> 'a mpsc_ring \<Rightarrow> (u64 option \<times> 'a mpsc_ring) option" where
  "claim_loop pos q =
     (let diff = position_diff (cell_sequence (cell_at q pos)) pos
      in if diff = 0
         then if mr_enqueue_pos q = pos then Some (Some pos, q\<lparr>mr_enqueue_pos := pos + 1\<rparr>)
              else claim_loop (mr_enqueue_pos q) q
         else if diff < 0 then Some (None, q)
         else claim_loop (mr_enqueue_pos q) q)"

definition mpsc_try_push :: "'a \<Rightarrow> 'a mpsc_ring \<Rightarrow> (bool \<times> 'a mpsc_ring) option" where
  "mpsc_try_push item q =
     (case claim_loop (mr_enqueue_pos q) q of
        None \<Rightarrow> None
      | Some (None, q) \<Rightarrow> Some (False, q)
      | Some (Some pos, q) \<Rightarrow> Some (True, publish_cell pos (write_cell pos item q)))"

definition mpsc_ready :: "u64 \<Rightarrow> 'a mpsc_ring \<Rightarrow> bool" where
  "mpsc_ready seq q \<longleftrightarrow> position_diff seq (mr_dequeue_pos q + 1) = 0"

definition free_cell :: "'a mpsc_ring \<Rightarrow> 'a mpsc_ring" where
  "free_cell q = (set_cell (mr_dequeue_pos q)
       ((cell_at q (mr_dequeue_pos q))\<lparr>cell_sequence := mr_dequeue_pos q + of_nat (mpsc_capacity q)\<rparr>) q)
     \<lparr>mr_dequeue_pos := mr_dequeue_pos q + 1\<rparr>"

definition mpsc_try_pop :: "'a \<Rightarrow> 'a mpsc_ring \<Rightarrow> bool \<times> 'a \<times> 'a mpsc_ring" where
  "mpsc_try_pop out q =
     (if \<not> mpsc_ready (cell_sequence (cell_at q (mr_dequeue_pos q))) q then (False, out, q)
      else (True, cell_data (cell_at q (mr_dequeue_pos q)), free_cell q))"

subsection \<open>Cells by position\<close>

text \<open>
  Positions as natural numbers: \<open>cell_of q i\<close> is the cell of position \<open>i\<close>, and two
  positions closer than the capacity have different cells.
\<close>

definition cell_of :: "'a mpsc_ring \<Rightarrow> nat \<Rightarrow> 'a cell" where
  "cell_of q i = mr_cells q ! (i mod mpsc_capacity q)"

lemma position_diff_nat:
  assumes "a < 2 ^ 63" "b < 2 ^ 63"
  shows "position_diff (of_nat a) (of_nat b) = int a - int b"
  using assms by (simp add: position_diff_def sint_minus_i64 sint_of_nat_i64)

lemma ring_slot_of_nat: "capacity_ok c \<Longrightarrow> i < 2 ^ 64 \<Longrightarrow> ring_slot c (of_nat i) = i mod c"
  by (simp add: ring_slot_mod unat_small)

lemma cell_at_of_nat:
  assumes "capacity_ok (mpsc_capacity q)" "i < 2 ^ 64"
  shows "cell_at q (of_nat i) = cell_of q i"
  using assms by (simp add: cell_at_def cell_of_def ring_slot_of_nat)

lemma window_inj:
  fixes i j c d :: nat
  assumes "i mod c = j mod c" "d \<le> i" "i < d + c" "d \<le> j" "j < d + c"
  shows "i = j"
proof -
  have "(d + (i - d)) mod c = (d + (j - d)) mod c" using assms by simp
  then have "i - d = j - d" using assms by (intro add_mod_inj [of d "i - d" c "j - d"]) auto
  with assms show ?thesis by simp
qed

lemma set_cell_simps [simp]:
  "mpsc_capacity (set_cell pos cl q) = mpsc_capacity q"
  "mr_enqueue_pos (set_cell pos cl q) = mr_enqueue_pos q"
  "mr_dequeue_pos (set_cell pos cl q) = mr_dequeue_pos q"
  by (simp_all add: set_cell_def mpsc_capacity_def)

lemma position_update_simps [simp]:
  "mpsc_capacity (q\<lparr>mr_enqueue_pos := w\<rparr>) = mpsc_capacity q" "cell_of (q\<lparr>mr_enqueue_pos := w\<rparr>) i = cell_of q i"
  "mpsc_capacity (q\<lparr>mr_dequeue_pos := w\<rparr>) = mpsc_capacity q" "cell_of (q\<lparr>mr_dequeue_pos := w\<rparr>) i = cell_of q i"
  by (simp_all add: mpsc_capacity_def cell_of_def)

lemma cell_of_set_cell:
  assumes "capacity_ok (mpsc_capacity q)" "j < 2 ^ 64" "d \<le> i" "i < d + mpsc_capacity q" "d \<le> j" "j < d + mpsc_capacity q"
  shows "cell_of (set_cell (of_nat j) cl q) i = (if i = j then cl else cell_of q i)"
proof (cases "i = j")
  case True
  have "j mod mpsc_capacity q < mpsc_capacity q" using capacity_ok_bounds(2) [OF assms(1)] by simp
  then have "(mr_cells q)[j mod mpsc_capacity q := cl] ! (j mod mpsc_capacity q) = cl"
    by (simp only: mpsc_capacity_def nth_list_update_eq)
  with True assms(1,2) show ?thesis
    by (simp add: cell_of_def set_cell_def ring_slot_of_nat) (simp add: mpsc_capacity_def)
next
  case False
  then have "j mod mpsc_capacity q \<noteq> i mod mpsc_capacity q" using window_inj assms(3-) by metis
  with False assms show ?thesis
    by (simp add: cell_of_def set_cell_def ring_slot_of_nat) (simp add: mpsc_capacity_def)
qed

subsection \<open>The ring against the items claimed so far\<close>

text \<open>
  \<open>cells_ok c xs d q\<close>: producers have claimed the positions of \<open>xs\<close>, the consumer has
  taken the first \<open>d\<close> of them.  A claimed position that is not taken is either still being
  written (its sequence is the position) or published with its item; the cells up to one lap
  ahead of the consumer are free for the positions to come.
\<close>

definition cells_ok :: "nat \<Rightarrow> 'a list \<Rightarrow> nat \<Rightarrow> 'a mpsc_ring \<Rightarrow> bool" where
  "cells_ok c xs d q \<longleftrightarrow>
     capacity_ok c \<and> mpsc_capacity q = c \<and> mr_enqueue_pos q = of_nat (length xs) \<and> mr_dequeue_pos q = of_nat d \<and>
     d \<le> length xs \<and> length xs \<le> d + c \<and> c + length xs < 2 ^ 63 \<and>
     (\<forall>i. length xs \<le> i \<longrightarrow> i < d + c \<longrightarrow> cell_sequence (cell_of q i) = of_nat i) \<and>
     (\<forall>i. d \<le> i \<longrightarrow> i < length xs \<longrightarrow> cell_sequence (cell_of q i) = of_nat i \<or>
        cell_sequence (cell_of q i) = of_nat (Suc i) \<and> cell_data (cell_of q i) = xs ! i)"

lemma cells_okD:
  assumes "cells_ok c xs d q"
  shows "capacity_ok c" "mpsc_capacity q = c" "mr_enqueue_pos q = of_nat (length xs)" "mr_dequeue_pos q = of_nat d"
    "d \<le> length xs" "length xs \<le> d + c" "c + length xs < 2 ^ 63" "1 < c"
  using assms capacity_ok_bounds(1) [of c] by (simp_all add: cells_ok_def)

lemma cells_ok_free: "cells_ok c xs d q \<Longrightarrow> length xs \<le> i \<Longrightarrow> i < d + c \<Longrightarrow> cell_sequence (cell_of q i) = of_nat i"
  by (simp add: cells_ok_def)

lemma cells_ok_claimed:
  "cells_ok c xs d q \<Longrightarrow> d \<le> i \<Longrightarrow> i < length xs \<Longrightarrow> cell_sequence (cell_of q i) = of_nat i \<or>
     cell_sequence (cell_of q i) = of_nat (Suc i) \<and> cell_data (cell_of q i) = xs ! i"
  by (simp add: cells_ok_def)

lemma cells_ok_init: "capacity_ok c \<Longrightarrow> c < 2 ^ 63 \<Longrightarrow> cells_ok c [] 0 (mpsc_init c d)"
  by (simp add: cells_ok_def mpsc_init_def mpsc_capacity_def cell_of_def)

lemma cells_ok_at:
  assumes "cells_ok c xs d q" "i < d + c"
  shows "cell_at q (of_nat i) = cell_of q i" "i < 2 ^ 63"
proof -
  note D = cells_okD [OF assms(1)]
  show i: "i < 2 ^ 63" using assms(2) D(5,7) by linarith
  then show "cell_at q (of_nat i) = cell_of q i" using D by (intro cell_at_of_nat) simp_all
qed

lemma nat_word_eq:
  assumes "(of_nat a :: u64) = of_nat b" "a < 2 ^ 64" "b < 2 ^ 64"
  shows "a = b"
  using assms unat_small by metis

text \<open>A claimed cell that a producer holds, from the claim to the publication.\<close>

lemma cells_ok_claim:
  assumes "cells_ok c xs d q" "length xs < d + c" "c + length xs + 1 < 2 ^ 63"
  shows "cells_ok c (xs @ [x]) d (q\<lparr>mr_enqueue_pos := of_nat (length xs) + 1\<rparr>)"
    "cell_sequence (cell_of q (length xs)) = of_nat (length xs)"
proof -
  show "cell_sequence (cell_of q (length xs)) = of_nat (length xs)"
    using assms cells_ok_free by blast
  then show "cells_ok c (xs @ [x]) d (q\<lparr>mr_enqueue_pos := of_nat (length xs) + 1\<rparr>)"
    using assms unfolding cells_ok_def
    by (auto simp: mpsc_capacity_def cell_of_def nth_append less_Suc_eq)
qed

lemma cells_ok_set_cell:
  assumes "cells_ok c xs d q" "d \<le> i" "i < length xs"
    "cell_sequence cl = of_nat i \<or> cell_sequence cl = of_nat (Suc i) \<and> cell_data cl = xs ! i"
  shows "cells_ok c xs d (set_cell (of_nat i) cl q)"
proof -
  note D = cells_okD [OF assms(1)]
  have i: "i < 2 ^ 64" "i < d + c" using assms(3) D(6,7) by simp_all
  have cell: "cell_of (set_cell (of_nat i) cl q) j = (if j = i then cl else cell_of q j)" if "d \<le> j" "j < d + c" for j
    using that i assms(2) D(1,2) by (intro cell_of_set_cell) simp_all
  show ?thesis
    unfolding cells_ok_def
    using D assms(2-4) cells_ok_free [OF assms(1)] cells_ok_claimed [OF assms(1)] by (simp add: cell)
qed

lemma cells_ok_take:
  assumes "cells_ok c xs d q" "d < length xs" "cell_sequence (cell_of q d) = of_nat (Suc d)"
  shows "cells_ok c xs (Suc d) (free_cell q)" "cell_data (cell_of q d) = xs ! d"
    "\<And>i. d < i \<Longrightarrow> i < d + c \<Longrightarrow> cell_of (free_cell q) i = cell_of q i"
proof -
  note D = cells_okD [OF assms(1)]
  have d: "d < 2 ^ 64" "Suc d < 2 ^ 64" using D(5,7) by simp_all
  have ne: "(of_nat (Suc d) :: u64) \<noteq> of_nat d" using nat_word_eq [of "Suc d" d] d by fastforce
  then show "cell_data (cell_of q d) = xs ! d" using cells_ok_claimed [OF assms(1) order_refl assms(2)] assms(3) by auto
  let ?cl = "(cell_at q (of_nat d))\<lparr>cell_sequence := of_nat d + of_nat c\<rparr>"
  have q': "free_cell q = (set_cell (of_nat d) ?cl q)\<lparr>mr_dequeue_pos := of_nat d + 1\<rparr>"
    by (simp add: free_cell_def D)
  have cell: "cell_of (free_cell q) j = (if j = d then ?cl else cell_of q j)" if "d \<le> j" "j < d + c" for j
  proof -
    have "cell_of (free_cell q) j = cell_of (set_cell (of_nat d) ?cl q) j" by (simp add: q')
    then show ?thesis using that d D(1,2,8) by (simp add: cell_of_set_cell)
  qed
  have cap: "mpsc_capacity (free_cell q) = c" by (simp add: q' D(2))
  then have lap: "cell_of (free_cell q) (d + c) = ?cl"
    using cell [of d] D(8) by (simp add: cell_of_def)
  show "cell_of (free_cell q) i = cell_of q i" if "d < i" "i < d + c" for i using that by (simp add: cell)
  have "cell_sequence (cell_of (free_cell q) i) = of_nat i" if "length xs \<le> i" "i < Suc d + c" for i
  proof (cases "i = d + c")
    case True
    then show ?thesis by (simp add: lap)
  next
    case False
    with that assms(2) show ?thesis using cell [of i] cells_ok_free [OF assms(1), of i] by simp
  qed
  then show "cells_ok c xs (Suc d) (free_cell q)"
    unfolding cells_ok_def using D assms(2) cap cells_ok_claimed [OF assms(1)] by (simp add: cell) (simp add: q')
qed

subsection \<open>Without interference the ring is a bounded queue\<close>

text \<open>No push is under way: every claimed position that is not taken is published.\<close>

definition quiescent :: "nat \<Rightarrow> 'a list \<Rightarrow> nat \<Rightarrow> 'a mpsc_ring \<Rightarrow> bool" where
  "quiescent c xs d q \<longleftrightarrow> cells_ok c xs d q \<and>
     (\<forall>i. d \<le> i \<longrightarrow> i < length xs \<longrightarrow> cell_sequence (cell_of q i) = of_nat (Suc i))"

lemma quiescent_init: "capacity_ok c \<Longrightarrow> c < 2 ^ 63 \<Longrightarrow> quiescent c [] 0 (mpsc_init c d)"
  by (simp add: quiescent_def cells_ok_init)

lemma mpsc_try_push_room:
  assumes "quiescent c xs d q" "length xs < d + c" "c + length xs + 1 < 2 ^ 63"
  shows "\<exists>q'. mpsc_try_push x q = Some (True, q') \<and> quiescent c (xs @ [x]) d q'"
proof -
  let ?n = "length xs"
  let ?q1 = "q\<lparr>mr_enqueue_pos := of_nat ?n + 1\<rparr>"
  have ok: "cells_ok c xs d q" using assms(1) by (simp add: quiescent_def)
  note D = cells_okD [OF ok]
  note claim = cells_ok_claim(1) [OF ok assms(2,3), of x] cells_ok_claim(2) [OF ok assms(2,3)]
  have n: "?n < 2 ^ 64" "d \<le> ?n" "?n < length (xs @ [x])" using D by simp_all
  have "position_diff (cell_sequence (cell_at q (of_nat ?n))) (of_nat ?n) = 0"
    using claim(2) cells_ok_at [OF ok assms(2)] by (simp add: position_diff_def)
  then have loop: "claim_loop (mr_enqueue_pos q) q = Some (Some (of_nat ?n), ?q1)"
    by (subst claim_loop.simps) (simp add: D)
  let ?c1 = "(cell_at ?q1 (of_nat ?n))\<lparr>cell_data := x\<rparr>"
  let ?q2 = "set_cell (of_nat ?n) ?c1 ?q1"
  have seq: "cell_sequence (cell_at ?q1 (of_nat ?n)) = of_nat ?n"
    using claim cells_ok_at [OF claim(1)] assms(2) by simp
  then have ok2: "cells_ok c (xs @ [x]) d ?q2" using n by (intro cells_ok_set_cell [OF claim(1)]) simp_all
  let ?c2 = "(cell_at ?q2 (of_nat ?n))\<lparr>cell_sequence := of_nat ?n + 1\<rparr>"
  have cell: "cell_of (set_cell (of_nat ?n) cl r) i = (if i = ?n then cl else cell_of r i)"
    if "d \<le> i" "i < d + c" "mpsc_capacity r = c" for cl i and r :: "'a mpsc_ring"
    using that n D(1) assms(2) by (intro cell_of_set_cell) simp_all
  have c2: "cell_at ?q2 (of_nat ?n) = ?c1" using cells_ok_at [OF ok2] cell [of ?n] n assms(2) D(2) by simp
  have ok3: "cells_ok c (xs @ [x]) d (set_cell (of_nat ?n) ?c2 ?q2)"
    using n c2 by (intro cells_ok_set_cell [OF ok2]) simp_all
  have "cell_sequence (cell_of (set_cell (of_nat ?n) ?c2 ?q2) i) = of_nat (Suc i)" if "d \<le> i" "i < length (xs @ [x])" for i
    using that assms(1,2) D(2) by (auto simp: cell quiescent_def less_Suc_eq)
  with ok3 have "quiescent c (xs @ [x]) d (publish_cell (of_nat ?n) (write_cell (of_nat ?n) x ?q1))"
    by (simp add: quiescent_def publish_cell_def write_cell_def)
  then show ?thesis by (simp add: mpsc_try_push_def loop)
qed

lemma mpsc_try_push_full:
  assumes "quiescent c xs d q" "length xs = d + c"
  shows "mpsc_try_push x q = Some (False, q)"
proof -
  have ok: "cells_ok c xs d q" using assms(1) by (simp add: quiescent_def)
  note D = cells_okD [OF ok]
  have "cell_at q (of_nat (d + c)) = cell_of q (d + c)" using D assms(2) by (intro cell_at_of_nat) simp_all
  then have "cell_at q (of_nat (d + c)) = cell_of q d" by (simp add: cell_of_def D)
  moreover have "cell_sequence (cell_of q d) = of_nat (Suc d)" using assms D(8) by (simp add: quiescent_def)
  ultimately have "position_diff (cell_sequence (cell_at q (of_nat (d + c)))) (of_nat (d + c)) = int (Suc d) - int (d + c)"
    using position_diff_nat [of "Suc d" "d + c"] D(7,8) assms(2) by simp
  then have "claim_loop (mr_enqueue_pos q) q = Some (None, q)"
    using D(8) assms(2) by (subst claim_loop.simps) (simp add: D(3))
  then show ?thesis by (simp add: mpsc_try_push_def)
qed

lemma mpsc_try_pop_law:
  assumes "quiescent c xs d q"
  shows "if d < length xs then mpsc_try_pop out q = (True, xs ! d, free_cell q) \<and> quiescent c xs (Suc d) (free_cell q)
    else mpsc_try_pop out q = (False, out, q)"
proof -
  have ok: "cells_ok c xs d q" using assms by (simp add: quiescent_def)
  note D = cells_okD [OF ok]
  have at: "cell_at q (mr_dequeue_pos q) = cell_of q d" "d < 2 ^ 63" using cells_ok_at [OF ok, of d] D(4,8) by simp_all
  have d1: "mr_dequeue_pos q + 1 = of_nat (Suc d)" by (simp add: D)
  show ?thesis
  proof (cases "d < length xs")
    case True
    then have seq: "cell_sequence (cell_of q d) = of_nat (Suc d)" using assms by (simp add: quiescent_def)
    note take = cells_ok_take [OF ok True seq]
    have "quiescent c xs (Suc d) (free_cell q)"
      using assms take D(6) by (auto simp: quiescent_def)
    with True seq take at d1 show ?thesis by (simp add: mpsc_try_pop_def mpsc_ready_def position_diff_def)
  next
    case False
    then have "cell_sequence (cell_of q d) = of_nat d" using cells_ok_free [OF ok, of d] D(5,8) by simp
    then have "position_diff (cell_sequence (cell_of q d)) (mr_dequeue_pos q + 1) = - 1"
      using position_diff_nat [of d "Suc d"] D(5,7,8) by (simp only: d1)
    with False at show ?thesis by (simp add: mpsc_try_pop_def mpsc_ready_def)
  qed
qed

end
