(* ===== verification/Mpsc_Threads.thy ===== *)
theory Mpsc_Threads
  imports Mpsc_Ring
begin

text \<open>
  The producers and the consumer of \<open>MPSCRingBuffer\<close> as one step relation; a producer is
  named by a number.  A step is one access to shared memory with the local code up to the next.
\<close>

subsection \<open>Threads and steps\<close>

datatype 'a mpsc_point =
    M_Idle
  | M_Sample 'a         \<comment> \<open>about to load \<open>enqueue_pos_\<close>\<close>
  | M_Check 'a u64      \<comment> \<open>about to load the sequence of the cell of \<open>pos\<close>\<close>
  | M_Claim 'a u64      \<comment> \<open>the sequence was \<open>pos\<close>: about to compare-exchange\<close>
  | M_Write 'a u64      \<comment> \<open>claimed \<open>pos\<close>: about to assign the data\<close>
  | M_Publish 'a u64    \<comment> \<open>about to store the sequence \<open>pos + 1\<close>\<close>

datatype 'a mpsc_consumer =
    MC_Idle
  | MC_Take             \<comment> \<open>the sequence was \<open>dequeue_pos_ + 1\<close>: about to read the data\<close>
  | MC_Free 'a          \<comment> \<open>about to store the sequence of the next lap\<close>

datatype 'a mpsc_event = Claimed nat 'a | Delivered nat 'a | Rejected nat 'a | Taken 'a | Not_Ready

record 'a mpsc_system =
  ms_ring :: "'a mpsc_ring"
  ms_producer :: "nat \<Rightarrow> 'a mpsc_point"
  ms_consumer :: "'a mpsc_consumer"

definition mpsc_system_init :: "nat \<Rightarrow> 'a \<Rightarrow> 'a mpsc_system" where
  "mpsc_system_init c d = \<lparr>ms_ring = mpsc_init c d, ms_producer = (\<lambda>p. M_Idle), ms_consumer = MC_Idle\<rparr>"

definition goto :: "nat \<Rightarrow> 'a mpsc_point \<Rightarrow> 'a mpsc_system \<Rightarrow> 'a mpsc_system" where
  "goto p pt s = s\<lparr>ms_producer := (ms_producer s)(p := pt)\<rparr>"

text \<open>What the loop of \<open>try_push\<close> does with the sequence number it has loaded.\<close>

definition after_check :: "'a \<Rightarrow> u64 \<Rightarrow> u64 \<Rightarrow> 'a mpsc_point" where
  "after_check x pos seq =
     (if position_diff seq pos = 0 then M_Claim x pos else if position_diff seq pos < 0 then M_Idle else M_Sample x)"

inductive mpsc_step :: "'a mpsc_system \<Rightarrow> 'a mpsc_event list \<Rightarrow> 'a mpsc_system \<Rightarrow> bool" where
  mpush_call: "ms_producer s p = M_Idle \<Longrightarrow> mpsc_step s [] (goto p (M_Sample x) s)"
| mpush_sample: "ms_producer s p = M_Sample x \<Longrightarrow> pos \<le> mr_enqueue_pos (ms_ring s) \<Longrightarrow>
    mpsc_step s [] (goto p (M_Check x pos) s)"
| mpush_check: "ms_producer s p = M_Check x pos \<Longrightarrow> seq \<le> cell_sequence (cell_at (ms_ring s) pos) \<Longrightarrow>
    mpsc_step s (if position_diff seq pos < 0 then [Rejected p x] else []) (goto p (after_check x pos seq) s)"
| mpush_claim: "ms_producer s p = M_Claim x pos \<Longrightarrow> mr_enqueue_pos (ms_ring s) = pos \<Longrightarrow>
    mpsc_step s [Claimed p x] (goto p (M_Write x pos) (s\<lparr>ms_ring := (ms_ring s)\<lparr>mr_enqueue_pos := pos + 1\<rparr>\<rparr>))"
| mpush_lost: "ms_producer s p = M_Claim x pos \<Longrightarrow> pos' \<le> mr_enqueue_pos (ms_ring s) \<Longrightarrow>
    mpsc_step s [] (goto p (M_Check x pos') s)"
| mpush_write: "ms_producer s p = M_Write x pos \<Longrightarrow>
    mpsc_step s [] (goto p (M_Publish x pos) (s\<lparr>ms_ring := write_cell pos x (ms_ring s)\<rparr>))"
| mpush_publish: "ms_producer s p = M_Publish x pos \<Longrightarrow>
    mpsc_step s [Delivered p x] (goto p M_Idle (s\<lparr>ms_ring := publish_cell pos (ms_ring s)\<rparr>))"
| mpop_ready: "ms_consumer s = MC_Idle \<Longrightarrow>
    seq \<le> cell_sequence (cell_at (ms_ring s) (mr_dequeue_pos (ms_ring s))) \<Longrightarrow> mpsc_ready seq (ms_ring s) \<Longrightarrow>
    mpsc_step s [] (s\<lparr>ms_consumer := MC_Take\<rparr>)"
| mpop_fail: "ms_consumer s = MC_Idle \<Longrightarrow>
    seq \<le> cell_sequence (cell_at (ms_ring s) (mr_dequeue_pos (ms_ring s))) \<Longrightarrow> \<not> mpsc_ready seq (ms_ring s) \<Longrightarrow>
    mpsc_step s [Not_Ready] s"
| mpop_take: "ms_consumer s = MC_Take \<Longrightarrow>
    mpsc_step s [] (s\<lparr>ms_consumer := MC_Free (cell_data (cell_at (ms_ring s) (mr_dequeue_pos (ms_ring s))))\<rparr>)"
| mpop_free: "ms_consumer s = MC_Free x \<Longrightarrow>
    mpsc_step s [Taken x] (s\<lparr>ms_ring := free_cell (ms_ring s), ms_consumer := MC_Idle\<rparr>)"

inductive mpsc_run :: "'a mpsc_system \<Rightarrow> 'a mpsc_event list \<Rightarrow> 'a mpsc_system \<Rightarrow> bool" where
  mrun_nil: "mpsc_run s [] s"
| mrun_step: "mpsc_run s evs s' \<Longrightarrow> mpsc_step s' ev s'' \<Longrightarrow> mpsc_run s (evs @ ev) s''"

fun claims :: "'a mpsc_event list \<Rightarrow> (nat \<times> 'a) list" where
  "claims [] = []"
| "claims (Claimed p x # evs) = (p, x) # claims evs"
| "claims (_ # evs) = claims evs"

fun delivered :: "nat \<Rightarrow> 'a mpsc_event list \<Rightarrow> 'a list" where
  "delivered p [] = []"
| "delivered p (Delivered r x # evs) = (if r = p then x # delivered p evs else delivered p evs)"
| "delivered p (_ # evs) = delivered p evs"

fun taken :: "'a mpsc_event list \<Rightarrow> 'a list" where
  "taken [] = []"
| "taken (Taken x # evs) = x # taken evs"
| "taken (_ # evs) = taken evs"

definition claims_by :: "nat \<Rightarrow> 'a mpsc_event list \<Rightarrow> 'a list" where
  "claims_by p evs = map snd (filter (\<lambda>cl. fst cl = p) (claims evs))"

fun in_flight :: "'a mpsc_point \<Rightarrow> 'a list" where
  "in_flight (M_Write x pos) = [x]"
| "in_flight (M_Publish x pos) = [x]"
| "in_flight _ = []"

lemma claims_append [simp]: "claims (xs @ ys) = claims xs @ claims ys"
  by (induction xs rule: claims.induct) auto

lemma delivered_append [simp]: "delivered p (xs @ ys) = delivered p xs @ delivered p ys"
  by (induction p xs rule: delivered.induct) auto

lemma taken_append [simp]: "taken (xs @ ys) = taken xs @ taken ys"
  by (induction xs rule: taken.induct) auto

lemma claims_by_append [simp]: "claims_by p (xs @ ys) = claims_by p xs @ claims_by p ys"
  by (simp add: claims_by_def)

subsection \<open>The invariant of the threads\<close>

text \<open>\<open>cs\<close> are the claims so far, in the order of the compare-exchanges; \<open>d\<close> of them are taken.\<close>

fun point_ok :: "nat \<Rightarrow> (nat \<times> 'a) list \<Rightarrow> nat \<Rightarrow> 'a mpsc_ring \<Rightarrow> nat \<Rightarrow> 'a mpsc_point \<Rightarrow> bool" where
  "point_ok c cs d q p (M_Check x w) \<longleftrightarrow> unat w \<le> length cs"
| "point_ok c cs d q p (M_Claim x w) \<longleftrightarrow> unat w \<le> length cs \<and> unat w < d + c"
| "point_ok c cs d q p (M_Write x w) \<longleftrightarrow> d \<le> unat w \<and> unat w < length cs \<and> cs ! unat w = (p, x) \<and>
     cell_sequence (cell_of q (unat w)) = w"
| "point_ok c cs d q p (M_Publish x w) \<longleftrightarrow> d \<le> unat w \<and> unat w < length cs \<and> cs ! unat w = (p, x) \<and>
     cell_sequence (cell_of q (unat w)) = w \<and> cell_data (cell_of q (unat w)) = x"
| "point_ok c cs d q p _ \<longleftrightarrow> True"

fun taker_ok :: "(nat \<times> 'a) list \<Rightarrow> nat \<Rightarrow> 'a mpsc_ring \<Rightarrow> 'a mpsc_consumer \<Rightarrow> bool" where
  "taker_ok cs d q MC_Idle \<longleftrightarrow> True"
| "taker_ok cs d q MC_Take \<longleftrightarrow> d < length cs \<and> cell_sequence (cell_of q d) = of_nat (Suc d)"
| "taker_ok cs d q (MC_Free x) \<longleftrightarrow> d < length cs \<and> cell_sequence (cell_of q d) = of_nat (Suc d) \<and> snd (cs ! d) = x"

definition mpsc_ok :: "nat \<Rightarrow> (nat \<times> 'a) list \<Rightarrow> nat \<Rightarrow> 'a mpsc_system \<Rightarrow> bool" where
  "mpsc_ok c cs d s \<longleftrightarrow> cells_ok c (map snd cs) d (ms_ring s) \<and>
     (\<forall>p. point_ok c cs d (ms_ring s) p (ms_producer s p)) \<and> taker_ok cs d (ms_ring s) (ms_consumer s)"

lemma mpsc_okD:
  assumes "mpsc_ok c cs d s"
  shows "cells_ok c (map snd cs) d (ms_ring s)" "point_ok c cs d (ms_ring s) p (ms_producer s p)"
    "taker_ok cs d (ms_ring s) (ms_consumer s)"
  using assms by (simp_all add: mpsc_ok_def)

lemma mpsc_ok_words:
  assumes "mpsc_ok c cs d s"
  shows "unat (mr_enqueue_pos (ms_ring s)) = length cs" "mr_dequeue_pos (ms_ring s) = of_nat d" "d \<le> length cs"
    "length cs \<le> d + c" "c + length cs < 2 ^ 63"
  using cells_okD [OF mpsc_okD(1) [OF assms]] by (simp_all add: unat_small)

lemma word_of_unat: "unat w = n \<Longrightarrow> w = of_nat n" for w :: u64
  by auto

lemma mpsc_ok_goto:
  assumes "mpsc_ok c cs d s" "point_ok c cs d (ms_ring s) p pt"
  shows "mpsc_ok c cs d (goto p pt s)"
  using assms by (simp add: mpsc_ok_def goto_def)

text \<open>A producer that holds a claimed cell may change it: no other thread relies on it.\<close>

lemma point_ok_frame:
  assumes "point_ok c cs d q r pt" "\<And>i x. d \<le> i \<Longrightarrow> i < length cs \<Longrightarrow> cs ! i = (r, x) \<Longrightarrow> cell_of q' i = cell_of q i"
  shows "point_ok c cs d q' r pt"
  using assms by (cases pt) auto

lemma taker_ok_frame:
  assumes "taker_ok cs d q t" "cell_sequence (cell_of q d) = of_nat (Suc d) \<Longrightarrow> cell_of q' d = cell_of q d"
  shows "taker_ok cs d q' t"
  using assms by (cases t) auto

lemma mpsc_ok_set_cell:
  assumes "mpsc_ok c cs d s" "d \<le> i" "i < length cs" "cs ! i = (p, x)" "cell_sequence (cell_of (ms_ring s) i) = of_nat i"
    "cell_sequence cl = of_nat i \<or> cell_sequence cl = of_nat (Suc i) \<and> cell_data cl = x"
    "point_ok c cs d (set_cell (of_nat i) cl (ms_ring s)) p pt"
  shows "mpsc_ok c cs d (goto p pt (s\<lparr>ms_ring := set_cell (of_nat i) cl (ms_ring s)\<rparr>))"
proof -
  let ?q = "ms_ring s" and ?q' = "set_cell (of_nat i) cl (ms_ring s)"
  note cells = mpsc_okD(1) [OF assms(1)] and D = cells_okD [OF mpsc_okD(1) [OF assms(1)]]
  have i: "i < 2 ^ 64" "Suc i < 2 ^ 64" "i < d + c" using assms(3) mpsc_ok_words(4,5) [OF assms(1)] by simp_all
  have cell: "cell_of ?q' j = (if j = i then cl else cell_of ?q j)" if "d \<le> j" "j < d + c" for j
    using that i assms(2) D(1,2) by (intro cell_of_set_cell) simp_all
  have "cells_ok c (map snd cs) d ?q'" using assms(2-4,6) by (intro cells_ok_set_cell [OF cells]) simp_all
  moreover have "point_ok c cs d ?q' r (ms_producer s r)" if "r \<noteq> p" for r
  proof (rule point_ok_frame [OF mpsc_okD(2) [OF assms(1)]])
    fix j y
    assume "d \<le> j" "j < length cs" "cs ! j = (r, y)"
    with that assms(4) have "j \<noteq> i" by auto
    with \<open>d \<le> j\<close> \<open>j < length cs\<close> show "cell_of ?q' j = cell_of ?q j" using D(6) cell [of j] by simp
  qed
  moreover have "taker_ok cs d ?q' (ms_consumer s)"
  proof (rule taker_ok_frame [OF mpsc_okD(3) [OF assms(1)]])
    assume "cell_sequence (cell_of ?q d) = of_nat (Suc d)"
    then have "d \<noteq> i" using assms(5) nat_word_eq [of "Suc i" i] i by auto
    then show "cell_of ?q' d = cell_of ?q d" using cell [of d] D(8) by simp
  qed
  ultimately show ?thesis using assms(7) by (simp add: mpsc_ok_def goto_def)
qed

lemma mpsc_ok_claim:
  assumes "mpsc_ok c cs d s" "unat pos < d + c" "mr_enqueue_pos (ms_ring s) = pos" "c + length cs + 1 < 2 ^ 63"
  shows "mpsc_ok c (cs @ [(p, x)]) d (goto p (M_Write x pos) (s\<lparr>ms_ring := (ms_ring s)\<lparr>mr_enqueue_pos := pos + 1\<rparr>\<rparr>))"
proof -
  let ?q' = "(ms_ring s)\<lparr>mr_enqueue_pos := pos + 1\<rparr>"
  note cells = mpsc_okD(1) [OF assms(1)] and w = mpsc_ok_words [OF assms(1)]
  have un: "unat pos = length cs" using w(1) assms(3) by simp
  note pos = word_of_unat [OF un] un
  have len: "length (map snd cs) < d + c" "c + length (map snd cs) + 1 < 2 ^ 63" using assms(2,4) pos by simp_all
  note claim = cells_ok_claim(1) [OF cells len, of x] cells_ok_claim(2) [OF cells len]
  have "point_ok c (cs @ [(p, x)]) d ?q' r pt" if "point_ok c cs d (ms_ring s) r pt" for r pt
    using that by (cases pt) (auto simp: nth_append)
  moreover have "taker_ok (cs @ [(p, x)]) d ?q' t" if "taker_ok cs d (ms_ring s) t" for t
    using that by (cases t) (auto simp: nth_append)
  moreover have "point_ok c (cs @ [(p, x)]) d ?q' p (M_Write x pos)"
    using w(3) claim(2) pos by simp
  ultimately show ?thesis
    using assms(1) claim(1) pos by (simp add: mpsc_ok_def goto_def)
qed

lemma mpsc_ok_free:
  assumes "mpsc_ok c cs d s" "ms_consumer s = MC_Free x"
  shows "mpsc_ok c cs (Suc d) (s\<lparr>ms_ring := free_cell (ms_ring s), ms_consumer := MC_Idle\<rparr>)" "snd (cs ! d) = x" "d < length cs"
proof -
  note cells = mpsc_okD(1) [OF assms(1)] and w = mpsc_ok_words [OF assms(1)]
  have t: "d < length cs" "cell_sequence (cell_of (ms_ring s) d) = of_nat (Suc d)" "snd (cs ! d) = x"
    using mpsc_okD(3) [OF assms(1)] assms(2) by simp_all
  then show "d < length cs" "snd (cs ! d) = x" by simp_all
  have ne: "(of_nat (Suc d) :: u64) \<noteq> of_nat d" using nat_word_eq [of "Suc d" d] w(3,5) by fastforce
  note take = cells_ok_take [OF cells, simplified length_map, OF t(1,2)]
  have "point_ok c cs (Suc d) (free_cell (ms_ring s)) r pt" if "point_ok c cs d (ms_ring s) r pt" for r pt
  proof -
    have late: "Suc d \<le> unat v" if "d \<le> unat v" "cell_sequence (cell_of (ms_ring s) (unat v)) = v" for v
      using that t(2) ne word_of_unat [of v d] by (cases "unat v = d") auto
    have held: "Suc d \<le> unat v \<and> cell_of (free_cell (ms_ring s)) (unat v) = cell_of (ms_ring s) (unat v)"
      if "d \<le> unat v" "unat v < length cs" "cell_sequence (cell_of (ms_ring s) (unat v)) = v" for v
      using that late [OF that(1,3)] take(3) [of "unat v"] w(4) by simp
    show ?thesis using that by (cases pt) (auto simp: held)
  qed
  then show "mpsc_ok c cs (Suc d) (s\<lparr>ms_ring := free_cell (ms_ring s), ms_consumer := MC_Idle\<rparr>)"
    using take(1) assms(1) by (simp add: mpsc_ok_def)
qed

text \<open>
  A sequence number equal to the position, however old, shows that the position is less than a
  lap ahead of the consumer; one equal to \<open>dequeue_pos_ + 1\<close> is the latest.
\<close>

lemma mpsc_ok_sequence:
  assumes "mpsc_ok c cs d s" "i < 2 ^ 64"
  obtains j where "d \<le> j" "j < d + c" "j mod c = i mod c" "cell_at (ms_ring s) (of_nat i) = cell_of (ms_ring s) j"
    "cell_sequence (cell_of (ms_ring s) j) = of_nat j \<or> cell_sequence (cell_of (ms_ring s) j) = of_nat (Suc j) \<and> j < length cs"
proof -
  note cells = mpsc_okD(1) [OF assms(1)] and D = cells_okD [OF mpsc_okD(1) [OF assms(1)]]
  define j where "j = d + (i + (c - d mod c)) mod c"
  have c: "0 < c" using D(8) by simp
  have "j mod c = (d + (i + (c - d mod c))) mod c" by (simp add: j_def mod_simps)
  also have "\<dots> = (d mod c + (i + (c - d mod c))) mod c" by (simp add: mod_simps)
  also have "d mod c + (i + (c - d mod c)) = i + c" using mod_less_divisor [OF c, of d] by linarith
  finally have j: "j mod c = i mod c" by simp
  have win: "d \<le> j" "j < d + c" using c by (simp_all add: j_def)
  have "cell_at (ms_ring s) (of_nat i) = cell_of (ms_ring s) i" using D(1,2) assms(2) by (intro cell_at_of_nat) simp_all
  also have "\<dots> = cell_of (ms_ring s) j" using j D(2) by (simp add: cell_of_def)
  finally have at: "cell_at (ms_ring s) (of_nat i) = cell_of (ms_ring s) j" .
  have "cell_sequence (cell_of (ms_ring s) j) = of_nat j \<or> cell_sequence (cell_of (ms_ring s) j) = of_nat (Suc j) \<and> j < length cs"
    using cells_ok_free [OF cells, of j] cells_ok_claimed [OF cells, of j] win by (cases "j < length cs") auto
  with win j at show thesis by (rule that)
qed

lemma position_diff_0: "position_diff a b = 0 \<longleftrightarrow> a = b"
  using sint_eq_iff_i64 [of "a - b" 0] by (simp add: position_diff_def)

lemma mpsc_ok_checked:
  assumes "mpsc_ok c cs d s" "unat pos \<le> length cs" "pos \<le> cell_sequence (cell_at (ms_ring s) pos)"
  shows "unat pos < d + c"
proof -
  note w = mpsc_ok_words [OF assms(1)] and D = cells_okD [OF mpsc_okD(1) [OF assms(1)]]
  have pos: "of_nat (unat pos) = pos" "unat pos < 2 ^ 64" using assms(2) w(5) by simp_all
  obtain j where j: "d \<le> j" "j < d + c" "j mod c = unat pos mod c" "cell_at (ms_ring s) pos = cell_of (ms_ring s) j"
    "cell_sequence (cell_of (ms_ring s) j) = of_nat j \<or> cell_sequence (cell_of (ms_ring s) j) = of_nat (Suc j) \<and> j < length cs"
    using mpsc_ok_sequence [OF assms(1) pos(2)] unfolding pos(1) by metis
  have small: "unat (of_nat j :: u64) = j" "unat (of_nat (Suc j) :: u64) = Suc j"
    using j(2) w(3,5) by (intro unat_small; simp)+
  have "unat pos \<le> Suc j"
    using assms(3) j(4,5) small by (auto simp: word_le_nat_alt)
  moreover have "unat pos \<noteq> Suc j"
  proof
    assume "unat pos = Suc j"
    then have "j mod c = Suc j mod c" using j(3) by simp
    then show False using D(8) by (simp add: mod_Suc split: if_splits)
  qed
  ultimately show ?thesis using j(2) by simp
qed

lemma mpsc_ok_ready:
  assumes "mpsc_ok c cs d s" "seq \<le> cell_sequence (cell_at (ms_ring s) (mr_dequeue_pos (ms_ring s)))" "mpsc_ready seq (ms_ring s)"
  shows "d < length cs \<and> cell_sequence (cell_of (ms_ring s) d) = of_nat (Suc d)"
proof -
  note cells = mpsc_okD(1) [OF assms(1)] and D = cells_okD [OF mpsc_okD(1) [OF assms(1)]] and w = mpsc_ok_words [OF assms(1)]
  have seq: "seq = of_nat (Suc d)" using assms(3) w(2) by (simp add: mpsc_ready_def position_diff_0)
  have at: "cell_at (ms_ring s) (mr_dequeue_pos (ms_ring s)) = cell_of (ms_ring s) d"
    using cells_ok_at(1) [OF cells, of d] w(2) D(8) by simp
  have small: "unat (of_nat d :: u64) = d" "unat (of_nat (Suc d) :: u64) = Suc d" using w(3,5) by (intro unat_small; simp)+
  have "cell_sequence (cell_of (ms_ring s) d) \<noteq> of_nat d"
    using assms(2) small unfolding at seq word_le_nat_alt by auto
  then show ?thesis using cells_ok_free [OF cells, of d] cells_ok_claimed [OF cells, of d] D(8) by (cases "d < length cs") auto
qed

subsection \<open>Every step keeps the invariant\<close>

lemma in_flight_goto: "in_flight (ms_producer (goto p pt s) r) = (if r = p then in_flight pt else in_flight (ms_producer s r))"
  by (simp add: goto_def)

lemma mpsc_step_ok:
  assumes "mpsc_step s ev s'" "mpsc_ok c cs d s" "c + length (cs @ claims ev) < 2 ^ 63"
  shows "mpsc_ok c (cs @ claims ev) (d + length (taken ev)) s'"
  using assms
proof (induction rule: mpsc_step.induct)
  case (mpush_sample s p x pos)
  then show ?case using mpsc_ok_words(1) [of c cs d s] by (simp add: mpsc_ok_goto word_le_nat_alt)
next
  case (mpush_check s p x pos seq)
  have "unat pos \<le> length cs" using mpsc_okD(2) [OF mpush_check.prems(1), of p] mpush_check.hyps by simp
  then have "point_ok c cs d (ms_ring s) p (after_check x pos seq)"
    using mpsc_ok_checked [OF mpush_check.prems(1)] mpush_check.hyps(2) by (auto simp: after_check_def position_diff_0)
  with mpush_check show ?case by (simp add: mpsc_ok_goto)
next
  case (mpush_claim s p x pos)
  then show ?case using mpsc_okD(2) [OF mpush_claim.prems(1), of p] by (simp add: mpsc_ok_claim)
next
  case (mpush_lost s p x pos pos')
  then show ?case using mpsc_ok_words(1) [of c cs d s] by (simp add: mpsc_ok_goto word_le_nat_alt)
next
  case (mpush_write s p x pos)
  note pt = mpsc_okD(2) [OF mpush_write.prems(1), of p, unfolded mpush_write.hyps, simplified]
  let ?cl = "(cell_at (ms_ring s) pos)\<lparr>cell_data := x\<rparr>"
  note w = mpsc_ok_words [OF mpush_write.prems(1)] and cells = mpsc_okD(1) [OF mpush_write.prems(1)]
  have win: "unat pos < d + c" "unat pos < 2 ^ 64" using pt w(4,5) by simp_all
  have at: "cell_at (ms_ring s) pos = cell_of (ms_ring s) (unat pos)" using cells_ok_at(1) [OF cells win(1)] by simp
  have "cell_of (set_cell (of_nat (unat pos)) ?cl (ms_ring s)) (unat pos) = ?cl"
    using cell_of_set_cell [of "ms_ring s" "unat pos" d "unat pos" ?cl] cells_okD(1,2) [OF cells] pt win by simp
  then have "mpsc_ok c cs d (goto p (M_Publish x pos) (s\<lparr>ms_ring := set_cell (of_nat (unat pos)) ?cl (ms_ring s)\<rparr>))"
    using pt at by (intro mpsc_ok_set_cell [OF mpush_write.prems(1)]) simp_all
  then show ?case by (simp add: write_cell_def)
next
  case (mpush_publish s p x pos)
  note pt = mpsc_okD(2) [OF mpush_publish.prems(1), of p, unfolded mpush_publish.hyps, simplified]
  let ?cl = "(cell_at (ms_ring s) pos)\<lparr>cell_sequence := pos + 1\<rparr>"
  note w = mpsc_ok_words [OF mpush_publish.prems(1)] and cells = mpsc_okD(1) [OF mpush_publish.prems(1)]
  have win: "unat pos < d + c" using pt w(4) by simp
  have at: "cell_at (ms_ring s) pos = cell_of (ms_ring s) (unat pos)" using cells_ok_at(1) [OF cells win] by simp
  have "mpsc_ok c cs d (goto p M_Idle (s\<lparr>ms_ring := set_cell (of_nat (unat pos)) ?cl (ms_ring s)\<rparr>))"
    using pt at by (intro mpsc_ok_set_cell [OF mpush_publish.prems(1)]) simp_all
  then show ?case by (simp add: publish_cell_def)
next
  case (mpop_ready s seq)
  then show ?case using mpsc_ok_ready [OF mpop_ready.prems(1)] by (simp add: mpsc_ok_def)
next
  case (mpop_take s)
  note cells = mpsc_okD(1) [OF mpop_take.prems(1)] and w = mpsc_ok_words [OF mpop_take.prems(1)]
  have t: "d < length cs" "cell_sequence (cell_of (ms_ring s) d) = of_nat (Suc d)"
    using mpsc_okD(3) [OF mpop_take.prems(1)] mpop_take.hyps by simp_all
  have "cell_data (cell_at (ms_ring s) (mr_dequeue_pos (ms_ring s))) = snd (cs ! d)"
    using cells_ok_take(2) [OF cells] cells_ok_at(1) [OF cells, of d] cells_okD(8) [OF cells] t w(2) by simp
  with t mpop_take.prems(1) show ?case by (simp add: mpsc_ok_def)
next
  case (mpop_free s x)
  then show ?case using mpsc_ok_free(1) [OF mpop_free.prems(1)] by simp
qed (simp_all add: mpsc_ok_goto)

lemma mpsc_step_taken:
  assumes "mpsc_step s ev s'" "mpsc_ok c cs d s"
  shows "taken ev = take (length (taken ev)) (drop d (map snd cs))"
  using assms
proof (induction rule: mpsc_step.induct)
  case (mpop_free s x)
  then show ?case using mpsc_ok_free(2,3) [OF mpop_free.prems(1)] by (simp add: take_Suc_conv_app_nth)
qed simp_all

lemma mpsc_step_delivered:
  assumes "mpsc_step s ev s'"
  shows "in_flight (ms_producer s p) @ claims_by p ev = delivered p ev @ in_flight (ms_producer s' p)"
  using assms
proof (induction rule: mpsc_step.induct)
  case (mpush_check s r x pos seq)
  then show ?case by (auto simp: in_flight_goto claims_by_def after_check_def)
qed (auto simp: in_flight_goto claims_by_def)

lemma mpsc_run_ok:
  assumes "mpsc_run s evs s'" "s = mpsc_system_init c v" "capacity_ok c" "c + length (claims evs) < 2 ^ 63"
  shows "mpsc_ok c (claims evs) (length (taken evs)) s' \<and>
    taken evs = take (length (taken evs)) (map snd (claims evs)) \<and>
    (\<forall>p. claims_by p evs = delivered p evs @ in_flight (ms_producer s' p))"
  using assms
proof (induction rule: mpsc_run.induct)
  case (mrun_nil s)
  then show ?case
    by (simp add: mpsc_ok_def mpsc_system_init_def cells_ok_init claims_by_def)
next
  case (mrun_step s evs s' ev s'')
  have ih: "mpsc_ok c (claims evs) (length (taken evs)) s'" "taken evs = take (length (taken evs)) (map snd (claims evs))"
    "\<And>p. claims_by p evs = delivered p evs @ in_flight (ms_producer s' p)"
    using mrun_step.IH mrun_step.prems by auto
  let ?n = "length (taken evs)" and ?k = "length (taken ev)"
  have "mpsc_ok c (claims evs @ claims ev) (?n + ?k) s''"
    using mrun_step.prems by (intro mpsc_step_ok [OF mrun_step.hyps(2) ih(1)]) simp
  moreover have "taken (evs @ ev) = take (?n + ?k) (map snd (claims (evs @ ev)))"
  proof -
    have t: "taken (evs @ ev) = take (?n + ?k) (map snd (claims evs))"
      using ih(2) mpsc_step_taken [OF mrun_step.hyps(2) ih(1)] by (simp add: take_add)
    have "?n + ?k \<le> length (claims evs)" using arg_cong [OF t, of length] by simp
    then show ?thesis using t by (simp del: taken_append)
  qed
  moreover have "claims_by p (evs @ ev) = delivered p (evs @ ev) @ in_flight (ms_producer s'' p)" for p
    using ih(3) [of p] mpsc_step_delivered [OF mrun_step.hyps(2), of p] by simp
  moreover have len: "length (taken (evs @ ev)) = ?n + ?k" by simp
  ultimately show ?case unfolding len claims_append by blast
qed

end
