(* ===== verification/Fan_In.thy ===== *)
theory Fan_In
  imports Spsc_Ring
begin

text \<open>
  \<open>concurrency/fan_in_sequencer.hpp\<close>: one ring per producer, drained round-robin by the
  sequencer.  The proofs use the rings only through their bounded-queue laws.
\<close>

subsection \<open>The sequencer and its operations\<close>

record 'a fan_in =
  fi_queues :: "'a spsc_ring list"
  fi_next_queue :: nat

definition producer_count :: "'a fan_in \<Rightarrow> nat" where
  "producer_count f = length (fi_queues f)"

definition fan_in_init :: "nat \<Rightarrow> nat \<Rightarrow> 'a \<Rightarrow> 'a fan_in" where
  "fan_in_init n capacity dflt = \<lparr>fi_queues = replicate n (spsc_init capacity dflt), fi_next_queue = 0\<rparr>"

definition push_from :: "nat \<Rightarrow> 'a \<Rightarrow> 'a fan_in \<Rightarrow> bool \<times> 'a fan_in" where
  "push_from producer_index item f =
     (let (ok, q) = spsc_try_push item (fi_queues f ! producer_index)
      in (ok, f\<lparr>fi_queues := (fi_queues f)[producer_index := q]\<rparr>))"

text \<open>The loop of \<open>try_drain_one\<close> with the attempts that are left.\<close>

fun drain_attempts :: "nat \<Rightarrow> 'a \<Rightarrow> nat \<Rightarrow> 'a fan_in \<Rightarrow> bool \<times> 'a \<times> nat \<times> 'a fan_in" where
  "drain_attempts 0 out source f = (False, out, source, f)"
| "drain_attempts (Suc k) out source f =
     (let idx = fi_next_queue f;
          (ok, out, q) = spsc_try_pop out (fi_queues f ! idx);
          f = f\<lparr>fi_next_queue := (fi_next_queue f + 1) mod producer_count f, fi_queues := (fi_queues f)[idx := q]\<rparr>
      in if ok then (True, out, idx, f) else drain_attempts k out source f)"

definition try_drain_one :: "'a \<Rightarrow> nat \<Rightarrow> 'a fan_in \<Rightarrow> bool \<times> 'a \<times> nat \<times> 'a fan_in" where
  "try_drain_one out source f = drain_attempts (producer_count f) out source f"

subsection \<open>One queue per producer\<close>

definition fan_in_inv :: "'a fan_in \<Rightarrow> bool" where
  "fan_in_inv f \<longleftrightarrow> fi_next_queue f < producer_count f \<and> list_all spsc_inv (fi_queues f)"

definition waiting :: "'a fan_in \<Rightarrow> nat \<Rightarrow> 'a list" where
  "waiting f i = spsc_contents (fi_queues f ! i)"

lemma fan_in_queue: "fan_in_inv f \<Longrightarrow> i < producer_count f \<Longrightarrow> spsc_inv (fi_queues f ! i)"
  by (simp add: fan_in_inv_def producer_count_def list_all_length)

lemma fan_in_init_inv:
  assumes "0 < n" "capacity_ok c"
  shows "fan_in_inv (fan_in_init n c d)" "i < n \<Longrightarrow> waiting (fan_in_init n c d) i = []" "producer_count (fan_in_init n c d) = n"
  using assms spsc_init_inv [OF assms(2), of d]
  by (simp_all add: fan_in_inv_def fan_in_init_def producer_count_def waiting_def list_all_length)

lemma fan_in_update:
  assumes "fan_in_inv f" "i < producer_count f" "spsc_inv q" "j < producer_count f"
  shows "fan_in_inv (f\<lparr>fi_next_queue := j, fi_queues := (fi_queues f)[i := q]\<rparr>)"
    "producer_count (f\<lparr>fi_next_queue := j, fi_queues := (fi_queues f)[i := q]\<rparr>) = producer_count f"
    "waiting (f\<lparr>fi_next_queue := j, fi_queues := (fi_queues f)[i := q]\<rparr>) k = (if k = i then spsc_contents q else waiting f k)"
  using assms by (auto simp: fan_in_inv_def producer_count_def waiting_def list_all_length nth_list_update)

lemma push_from_spec:
  assumes "fan_in_inv f" "i < producer_count f" "push_from i x f = (ok, f')"
  shows "fan_in_inv f'" "producer_count f' = producer_count f" "fi_next_queue f' = fi_next_queue f"
    "waiting f' k = (if k = i \<and> ok then waiting f i @ [x] else waiting f k)"
    "ok \<longleftrightarrow> length (waiting f i) < spsc_capacity (fi_queues f ! i)"
proof -
  obtain q where q: "spsc_try_push x (fi_queues f ! i) = (ok, q)" "f' = f\<lparr>fi_queues := (fi_queues f)[i := q]\<rparr>"
    using assms(3) by (auto simp: push_from_def split: prod.splits)
  note law = spsc_try_push_law [OF fan_in_queue [OF assms(1,2)] q(1)]
  have nx: "fi_next_queue f < producer_count f" using assms(1) by (simp add: fan_in_inv_def)
  have f': "f' = f\<lparr>fi_next_queue := fi_next_queue f, fi_queues := (fi_queues f)[i := q]\<rparr>" using q(2) by simp
  note upd = fan_in_update [OF assms(1,2) conjunct1 [OF law] nx]
  show "fan_in_inv f'" "producer_count f' = producer_count f" unfolding f' by (rule upd)+
  show "fi_next_queue f' = fi_next_queue f" by (simp add: f')
  show "ok \<longleftrightarrow> length (waiting f i) < spsc_capacity (fi_queues f ! i)" using law by (simp add: waiting_def)
  show "waiting f' k = (if k = i \<and> ok then waiting f i @ [x] else waiting f k)"
    unfolding f' upd(3) using law by (auto simp: waiting_def)
qed

subsection \<open>One sweep\<close>

text \<open>How many queues the sequencer visits before it comes to queue \<open>i\<close>.\<close>

definition distance :: "'a fan_in \<Rightarrow> nat \<Rightarrow> nat" where
  "distance f i = (i + producer_count f - fi_next_queue f) mod producer_count f"

lemma distance_bound: "fan_in_inv f \<Longrightarrow> distance f i < producer_count f"
  by (simp add: distance_def fan_in_inv_def)

lemma distance_eq:
  assumes "fi_next_queue f < producer_count f" "i < producer_count f"
  shows "distance f i = (if fi_next_queue f \<le> i then i - fi_next_queue f else i + producer_count f - fi_next_queue f)"
  using assms by (auto simp: distance_def le_mod_geq)

lemma distance_next:
  assumes "fan_in_inv f" "i < producer_count f"
  shows "(fi_next_queue f + distance f i) mod producer_count f = i"
    "distance f i = 0 \<longleftrightarrow> i = fi_next_queue f"
    "\<lbrakk>i \<noteq> fi_next_queue f; producer_count f' = producer_count f; fi_next_queue f' = (fi_next_queue f + 1) mod producer_count f\<rbrakk>
      \<Longrightarrow> distance f i = Suc (distance f' i)"
proof -
  let ?n = "producer_count f" and ?x = "fi_next_queue f"
  have x: "?x < ?n" using assms(1) by (simp add: fan_in_inv_def)
  note eq = distance_eq [OF x assms(2)]
  show "(?x + distance f i) mod ?n = i" "distance f i = 0 \<longleftrightarrow> i = ?x"
    using x assms(2) by (auto simp: eq)
  assume ne: "i \<noteq> ?x" and f': "producer_count f' = ?n" "fi_next_queue f' = (?x + 1) mod ?n"
  have x': "fi_next_queue f' < producer_count f'" "i < producer_count f'" using x f' assms(2) by simp_all
  show "distance f i = Suc (distance f' i)"
    unfolding eq distance_eq [OF x'] using x assms(2) f' ne by (cases "?x + 1 = ?n") auto
qed

text \<open>
  A sweep of \<open>k\<close> attempts serves the first queue within reach that is not empty; where
  there is none it changes nothing but the position.
\<close>

lemma drain_step:
  assumes "fan_in_inv f" "spsc_try_pop out (fi_queues f ! fi_next_queue f) = (ok, r, q)"
  defines "f' \<equiv> f\<lparr>fi_next_queue := (fi_next_queue f + 1) mod producer_count f,
    fi_queues := (fi_queues f)[fi_next_queue f := q]\<rparr>"
  shows "fan_in_inv f'" "producer_count f' = producer_count f" "ok \<longleftrightarrow> waiting f (fi_next_queue f) \<noteq> []"
    "fi_next_queue f' = (fi_next_queue f + 1) mod producer_count f"
    "ok \<Longrightarrow> waiting f (fi_next_queue f) = r # waiting f' (fi_next_queue f)"
    "k \<noteq> fi_next_queue f \<or> \<not> ok \<Longrightarrow> waiting f' k = waiting f k" "\<not> ok \<Longrightarrow> r = out"
proof -
  have x: "fi_next_queue f < producer_count f" "(fi_next_queue f + 1) mod producer_count f < producer_count f"
    using assms(1) by (simp_all add: fan_in_inv_def)
  note law = spsc_try_pop_law [OF fan_in_queue [OF assms(1) x(1)] assms(2)]
  note upd = fan_in_update [OF assms(1) x(1) conjunct1 [OF law] x(2), folded f'_def]
  show "fan_in_inv f'" "producer_count f' = producer_count f" by (rule upd)+
  show "fi_next_queue f' = (fi_next_queue f + 1) mod producer_count f" by (simp add: f'_def)
  show "ok \<longleftrightarrow> waiting f (fi_next_queue f) \<noteq> []" using law by (simp add: waiting_def)
  show "waiting f (fi_next_queue f) = r # waiting f' (fi_next_queue f)" if ok
    using law that by (simp add: upd(3)) (simp add: waiting_def)
  show "waiting f' k = waiting f k" if "k \<noteq> fi_next_queue f \<or> \<not> ok"
    unfolding upd(3) using law that by (auto simp: waiting_def)
  show "r = out" if "\<not> ok" using law that by simp
qed

lemma drain_attempts_spec:
  assumes "fan_in_inv f" "drain_attempts k out source f = (ok, r, i, f')"
  shows "fan_in_inv f' \<and> producer_count f' = producer_count f \<and>
    (if ok then i < producer_count f \<and> distance f i < k \<and> waiting f i = r # waiting f' i \<and>
        (\<forall>j. j \<noteq> i \<longrightarrow> waiting f' j = waiting f j) \<and> fi_next_queue f' = (i + 1) mod producer_count f \<and>
        (\<forall>j < producer_count f. distance f j < distance f i \<longrightarrow> waiting f j = [])
     else r = out \<and> i = source \<and> (\<forall>j. waiting f' j = waiting f j) \<and>
        (\<forall>j < producer_count f. distance f j < k \<longrightarrow> waiting f j = []))"
  using assms
proof (induction k arbitrary: f)
  case (Suc k)
  let ?x = "fi_next_queue f" and ?n = "producer_count f"
  obtain ok1 r1 q where pop: "spsc_try_pop out (fi_queues f ! ?x) = (ok1, r1, q)" by (rule prod_cases3)
  let ?f = "f\<lparr>fi_next_queue := (?x + 1) mod ?n, fi_queues := (fi_queues f)[?x := q]\<rparr>"
  note st = drain_step [OF Suc.prems(1) pop]
  have x: "?x < ?n" using Suc.prems(1) by (simp add: fan_in_inv_def)
  note dist = distance_next [OF Suc.prems(1)]
  show ?case
  proof (cases ok1)
    case True
    then have "ok" "r = r1" "i = ?x" "f' = ?f" using Suc.prems(2) pop by (auto simp: Let_def)
    moreover have "distance f ?x = 0" using dist(2) [OF x] by simp
    ultimately show ?thesis using st True x by simp
  next
    case False
    then have rest: "drain_attempts k out source ?f = (ok, r, i, f')" using Suc.prems(2) pop st(7) by (simp add: Let_def)
    have far: "distance f j = (if j = ?x then 0 else Suc (distance ?f j))" if "j < ?n" for j
      using dist(2) [OF that] dist(3) [OF that _ st(2,4)] by auto
    have w: "waiting ?f j = waiting f j" for j using st(6) False by simp
    have empty: "waiting f ?x = []" using st(3) False by simp
    note ih = Suc.IH [OF st(1) rest, unfolded st(2) w]
    show ?thesis
    proof (cases ok)
      case True
      with ih have i: "i < ?n" "waiting f i = r # waiting f' i" by simp_all
      with empty have "i \<noteq> ?x" by auto
      with i have di: "distance f i = Suc (distance ?f i)" using far by simp
      have "waiting f j = []" if "j < ?n" "distance f j < distance f i" for j
        using that ih True far [OF that(1)] di empty by (cases "j = ?x") auto
      with ih True di i show ?thesis by simp
    next
      case no: False
      have "waiting f j = []" if "j < ?n" "distance f j < Suc k" for j
        using that ih no far [OF that(1)] empty by (cases "j = ?x") auto
      with ih no show ?thesis by simp
    qed
  qed
qed simp

subsection \<open>Runs of the sequencer\<close>

datatype 'a fan_in_op = PushFrom nat 'a | Drain

text \<open>The items the queues accepted and the items drained, each with its producer.\<close>

fun fan_in_run :: "'a \<Rightarrow> 'a fan_in_op list \<Rightarrow> 'a fan_in \<Rightarrow> (nat \<times> 'a) list \<times> (nat \<times> 'a) list \<times> 'a fan_in" where
  "fan_in_run out [] f = ([], [], f)"
| "fan_in_run out (PushFrom i x # ops) f =
     (let (ok, f1) = push_from i x f; (acc, dr, f2) = fan_in_run out ops f1
      in ((if ok then [(i, x)] else []) @ acc, dr, f2))"
| "fan_in_run out (Drain # ops) f =
     (let (ok, r, i, f1) = try_drain_one out 0 f; (acc, dr, f2) = fan_in_run out ops f1
      in (acc, (if ok then [(i, r)] else []) @ dr, f2))"

fun op_ok :: "nat \<Rightarrow> 'a fan_in_op \<Rightarrow> bool" where
  "op_ok n (PushFrom i x) \<longleftrightarrow> i < n"
| "op_ok n Drain \<longleftrightarrow> True"

definition of_producer :: "nat \<Rightarrow> (nat \<times> 'a) list \<Rightarrow> 'a list" where
  "of_producer i xs = map snd (filter (\<lambda>ix. fst ix = i) xs)"

lemma of_producer_simps [simp]:
  "of_producer i [] = []" "of_producer i ((j, x) # xs) = (if j = i then [x] else []) @ of_producer i xs"
  by (simp_all add: of_producer_def)

lemma fan_in_run_fifo:
  assumes "fan_in_inv f" "list_all (op_ok (producer_count f)) ops" "fan_in_run out ops f = (acc, dr, f')"
  shows "fan_in_inv f' \<and> producer_count f' = producer_count f \<and>
    (\<forall>i. waiting f i @ of_producer i acc = of_producer i dr @ waiting f' i)"
  using assms
proof (induction out ops f arbitrary: acc dr f' rule: fan_in_run.induct)
  case (2 out j x ops f)
  obtain ok f1 where p: "push_from j x f = (ok, f1)" by fastforce
  obtain acc1 dr1 f2 where r: "fan_in_run out ops f1 = (acc1, dr1, f2)" by (rule prod_cases3)
  have j: "j < producer_count f" using 2(3) by simp
  note st = push_from_spec [OF 2(2) j p]
  have ih: "fan_in_inv f2 \<and> producer_count f2 = producer_count f1 \<and>
      (\<forall>i. waiting f1 i @ of_producer i acc1 = of_producer i dr1 @ waiting f2 i)"
    using 2(1) [OF p [symmetric] refl st(1) _ r] 2(3) st(2) by simp
  moreover have "acc = (if ok then [(j, x)] else []) @ acc1" "dr = dr1" "f' = f2" using 2(4) p r by simp_all
  moreover have "waiting f i @ of_producer i ((if ok then [(j, x)] else []) @ acc1) = waiting f1 i @ of_producer i acc1" for i
    using st(4) [of i] by simp
  ultimately show ?case using st(2) by simp
next
  case (3 out ops f)
  obtain ok x j f1 where p: "try_drain_one out 0 f = (ok, x, j, f1)" by (rule prod_cases4)
  obtain acc1 dr1 f2 where r: "fan_in_run out ops f1 = (acc1, dr1, f2)" by (rule prod_cases3)
  note st = drain_attempts_spec [OF 3(2) p [unfolded try_drain_one_def]]
  have "fan_in_inv f2 \<and> producer_count f2 = producer_count f1 \<and>
      (\<forall>i. waiting f1 i @ of_producer i acc1 = of_producer i dr1 @ waiting f2 i)"
    using 3(1) [OF p [symmetric] refl refl refl _ _ r] 3(3) st by simp
  moreover have "acc = acc1" "dr = (if ok then [(j, x)] else []) @ dr1" "f' = f2" using 3(4) p r by simp_all
  moreover have "waiting f i = of_producer i (if ok then [(j, x)] else []) @ waiting f1 i" for i
    using st by (cases "i = j") (simp_all split: if_splits)
  moreover have "of_producer i (xs @ ys) = of_producer i xs @ of_producer i ys" for i and xs ys :: "(nat \<times> 'a) list"
    by (simp add: of_producer_def)
  ultimately show ?case using st by simp
qed simp

text \<open>After another producer has been served, queue \<open>i\<close> is closer.\<close>

lemma distance_decreases:
  assumes "fan_in_inv f" "fan_in_inv f'" "producer_count f' = producer_count f" "i < producer_count f" "j < producer_count f"
    "i \<noteq> j" "\<not> distance f i < distance f j" "fi_next_queue f' = (j + 1) mod producer_count f"
  shows "distance f' i < distance f i"
proof -
  have x: "fi_next_queue f < producer_count f" "fi_next_queue f' < producer_count f'" "i < producer_count f'"
    using assms(1-4) by (simp_all add: fan_in_inv_def)
  note eqs = distance_eq [OF x(1) assms(4)] distance_eq [OF x(1) assms(5)] distance_eq [OF x(2,3)]
  show ?thesis
    using assms(3-7) x(1) unfolding eqs assms(8) by (cases "j + 1 = producer_count f") (auto split: if_splits)
qed

lemma fan_in_run_fair:
  assumes "fan_in_inv f" "list_all (op_ok (producer_count f)) ops" "fan_in_run out ops f = (acc, dr, f')"
    "i < producer_count f" "waiting f i = x # xs" "distance f i < length (filter (\<lambda>op. op = Drain) ops)"
  shows "(i, x) \<in> set dr"
  using assms
proof (induction out ops f arbitrary: acc dr f' xs rule: fan_in_run.induct)
  case (2 out j y ops f)
  obtain ok f1 where p: "push_from j y f = (ok, f1)" by fastforce
  obtain acc1 dr1 f2 where r: "fan_in_run out ops f1 = (acc1, dr1, f2)" by (rule prod_cases3)
  have j: "j < producer_count f" using 2(3) by simp
  note st = push_from_spec [OF 2(2) j p]
  have "\<exists>ys. waiting f1 i = x # ys" using st(4) [of i] 2(6) by (auto split: if_splits)
  then obtain ys where ys: "waiting f1 i = x # ys" ..
  have "distance f1 i = distance f i" by (simp add: distance_def st(2,3))
  then have "(i, x) \<in> set dr1" using 2(1) [OF p [symmetric] refl st(1) _ r _ ys] 2(3,5,7) st(2) by simp
  with 2(4) p r show ?case by (auto split: if_splits)
next
  case (3 out ops f)
  obtain ok y j f1 where p: "try_drain_one out 0 f = (ok, y, j, f1)" by (rule prod_cases4)
  obtain acc1 dr1 f2 where r: "fan_in_run out ops f1 = (acc1, dr1, f2)" by (rule prod_cases3)
  note st = drain_attempts_spec [OF 3(2) p [unfolded try_drain_one_def]]
  have ok: ok using st 3(5,6) distance_bound [OF 3(2), of i] by (auto split: if_splits)
  have dr: "dr = (j, y) # dr1" using 3(4) p r ok by simp
  show ?case
  proof (cases "j = i")
    case True
    with st ok 3(6) dr show ?thesis by simp
  next
    case False
    have w: "waiting f1 i = x # xs" using st ok 3(6) False by simp
    have "\<not> distance f i < distance f j" using st ok 3(5,6) by auto
    then have "distance f1 i < distance f i" using st ok False 3(2,5) by (intro distance_decreases [of f f1 i j]) auto
    then have "(i, x) \<in> set dr1"
      using 3(1) [OF p [symmetric] refl refl refl _ _ r _ w] 3(3,5,7) st by simp
    with dr show ?thesis by simp
  qed
qed simp

end
