(* ===== verification/Concurrency_Properties.thy ===== *)
theory Concurrency_Properties
  imports Spsc_Threads Mpsc_Threads Fan_In
begin

text \<open>
  The properties of the two ring buffers under every interleaving of their threads, and of the
  round-robin sequencer.
\<close>

subsection \<open>One producer, one consumer\<close>

text \<open>C4: under every interleaving of the two threads, with every value an acquire load may return, the
  consumer receives exactly the pushed items, once each and in order: what was pushed is what was
  popped followed by what is queued, at most the capacity.  While the producer is about to write a
  slot the consumer is not about to read that slot.\<close>

theorem spsc_fifo:
  assumes "capacity_ok c" "spsc_run (spsc_system_init c d) evs s"
  shows "pushed evs = popped evs @ spsc_contents (ss_ring s) \<and> length (spsc_contents (ss_ring s)) \<le> c \<and>
    (ss_producer s = P_Write x \<longrightarrow> ss_consumer s = C_Read \<longrightarrow>
      ring_slot c (sr_head (ss_ring s)) \<noteq> ring_slot c (sr_tail (ss_ring s)))"
proof -
  note init = spsc_system_init_ok [OF assms(1), of d]
  note run = spsc_run_ok [OF assms(2) init(1)]
  have cap: "spsc_capacity (ss_ring s) = c" using run init(3) by simp
  have "length (spsc_contents (ss_ring s)) \<le> c"
    using spsc_contents_bound [of "ss_ring s"] run cap by (simp add: system_ok_def)
  with run init(2) spsc_slots_apart [of s x] cap show ?thesis by simp
qed

lemma demo_capacity: "capacity_ok 2"
  unfolding capacity_ok_def by (rule bexI [of _ 1]) simp_all

theorem spsc_fifo_witness:
  "\<exists>s. spsc_run (spsc_system_init 2 (0::nat)) [Pushed 5] s \<and> spsc_contents (ss_ring s) = [5]"
proof -
  let ?s = "spsc_system_init 2 (0::nat)"
  have "fst (spsc_try_push 5 (ss_ring ?s))"
    using spsc_try_push_law [of "ss_ring ?s" 5] spsc_init_inv [OF demo_capacity, of "0::nat"]
    by (cases "spsc_try_push 5 (ss_ring ?s)") (simp add: spsc_system_init_def)
  moreover have "ss_producer ?s = P_Idle" by (simp add: spsc_system_init_def)
  ultimately have run: "spsc_run ?s [Pushed 5] (?s\<lparr>ss_ring := snd (spsc_try_push 5 (ss_ring ?s))\<rparr>)"
    using push_call_run [of ?s 5] by simp
  then show ?thesis using spsc_fifo [OF demo_capacity run] by auto
qed

text \<open>C29: both operations are wait-free.  A thread that is inside a call always has a step to take that
  does not depend on the other thread, every step of its own brings the call closer to its return, at
  most three steps away, and no step of the other thread moves it back.\<close>

theorem spsc_wait_free:
  "push_steps_left (ss_producer s) \<le> 3 \<and> pop_steps_left (ss_consumer s) \<le> 3 \<and>
   (ss_producer s \<noteq> P_Idle \<longrightarrow> (\<exists>ev s'. spsc_step s ev s' \<and> push_steps_left (ss_producer s') < push_steps_left (ss_producer s))) \<and>
   (ss_consumer s \<noteq> C_Idle \<longrightarrow> (\<exists>ev s'. spsc_step s ev s' \<and> pop_steps_left (ss_consumer s') < pop_steps_left (ss_consumer s))) \<and>
   (spsc_step s ev s' \<longrightarrow>
     (ss_producer s = P_Idle \<or> push_steps_left (ss_producer s') < push_steps_left (ss_producer s)) \<and> ss_consumer s' = ss_consumer s \<or>
     (ss_consumer s = C_Idle \<or> pop_steps_left (ss_consumer s') < pop_steps_left (ss_consumer s)) \<and> ss_producer s' = ss_producer s)"
proof -
  have "push_steps_left (ss_producer s) \<le> 3" by (cases "ss_producer s") auto
  moreover have "pop_steps_left (ss_consumer s) \<le> 3" by (cases "ss_consumer s") auto
  ultimately show ?thesis using push_advances [of s] pop_advances [of s] spsc_step_progress [of s ev s'] by blast
qed

theorem spsc_wait_free_witness:
  "\<exists>ev s'. spsc_step ((spsc_system_init 2 (0::nat))\<lparr>ss_producer := P_Refresh 5\<rparr>) ev s' \<and> push_steps_left (ss_producer s') < 3"
  using spsc_wait_free [of "(spsc_system_init 2 (0::nat))\<lparr>ss_producer := P_Refresh 5\<rparr>" "[]" "spsc_system_init 2 0"] by simp

text \<open>Called from one thread, the ring is a bounded queue: a push succeeds exactly if fewer items than
  the capacity are queued and then appends its item, a pop returns the oldest item or, on an empty
  ring, leaves its argument alone.  This holds for all index values, also across their wrap-around.\<close>

theorem spsc_bounded_queue:
  assumes "spsc_inv q"
  shows "(\<exists>q1. spsc_try_push x q = (length (spsc_contents q) < spsc_capacity q, q1) \<and> spsc_inv q1 \<and>
      spsc_contents q1 = (if length (spsc_contents q) < spsc_capacity q then spsc_contents q @ [x] else spsc_contents q)) \<and>
    (\<exists>q2. spsc_inv q2 \<and> (case spsc_contents q of
        [] \<Rightarrow> spsc_try_pop out q = (False, out, q2) \<and> spsc_contents q2 = []
      | y # ys \<Rightarrow> spsc_try_pop out q = (True, y, q2) \<and> spsc_contents q2 = ys))"
proof -
  obtain ok q1 where push: "spsc_try_push x q = (ok, q1)" by fastforce
  obtain ok' r q2 where pop: "spsc_try_pop out q = (ok', r, q2)" by (rule prod_cases3)
  show ?thesis
    using spsc_try_push_law [OF assms push] spsc_try_pop_law [OF assms pop] push pop
    by (auto split: list.splits if_splits)
qed

definition wrapping_ring :: "nat spsc_ring" where
  "wrapping_ring = spsc_at 2 (- 1) 2 1 0 [7, 8]"

theorem spsc_bounded_queue_witness:
  "spsc_inv wrapping_ring \<and> sr_head wrapping_ring = 1 \<and> sr_tail wrapping_ring = - 1 \<and>
   (\<exists>q. spsc_try_push 9 wrapping_ring = (False, q)) \<and> (\<exists>q. spsc_try_pop 0 wrapping_ring = (True, 8, q) \<and> spsc_contents q = [7])"
proof -
  have inv: "spsc_inv wrapping_ring" "spsc_capacity wrapping_ring = 2"
    unfolding wrapping_ring_def by (rule spsc_at_inv; simp add: demo_capacity)+
  have "ring_slot 2 (- 1) = 1" "ring_slot 2 0 = 0" by (simp_all add: ring_slot_def ring_mask_def)
  then have "spsc_contents wrapping_ring = [8, 7]"
    unfolding wrapping_ring_def by (subst spsc_at_contents) (simp_all add: demo_capacity upt_rec)
  moreover have "sr_head wrapping_ring = 1" "sr_tail wrapping_ring = - 1" by (simp_all add: wrapping_ring_def spsc_at_def)
  ultimately show ?thesis using spsc_bounded_queue [OF inv(1), of 9 0] inv by auto
qed

subsection \<open>Many producers, one consumer\<close>

text \<open>C5: under every interleaving of any number of producers with the consumer, with loads that may return
  old values and compare-exchanges that may fail spuriously, the consumer receives the items in the
  order in which their positions were claimed, once each; at most the capacity is outstanding; and
  what a producer has claimed is what its calls have delivered, in its order, and the item it is
  writing.  The run must be short of the point where a 64-bit counter could wrap around.\<close>

theorem mpsc_fifo:
  assumes "capacity_ok c" "mpsc_run (mpsc_system_init c d) evs s" "c + length (claims evs) < 2 ^ 63"
  shows "taken evs = take (length (taken evs)) (map snd (claims evs)) \<and>
    length (claims evs) \<le> length (taken evs) + c \<and>
    claims_by p evs = delivered p evs @ in_flight (ms_producer s p)"
  using mpsc_run_ok [OF assms(2) refl assms(1,3)] mpsc_ok_words(4) [of c "claims evs" "length (taken evs)" s] by blast

text \<open>A run of one push by producer 3.\<close>

lemma mpsc_push_run:
  fixes x d :: 'a
  defines "s \<equiv> mpsc_system_init 2 d"
  shows "\<exists>s'. mpsc_run s [Claimed 3 x, Delivered 3 x] s'"
proof -
  have cell: "cell_sequence (cell_at (ms_ring s) 0) = 0" "mr_enqueue_pos (ms_ring s) = 0" "ms_producer s 3 = M_Idle"
    by (simp_all add: s_def mpsc_system_init_def cell_at_def mpsc_init_def ring_slot_def mpsc_capacity_def upt_rec)
  let ?s1 = "goto 3 (M_Sample x) s" let ?s2 = "goto 3 (M_Check x 0) ?s1" let ?s3 = "goto 3 (M_Claim x 0) ?s2"
  let ?s4 = "goto 3 (M_Write x 0) (?s3\<lparr>ms_ring := (ms_ring ?s3)\<lparr>mr_enqueue_pos := 0 + 1\<rparr>\<rparr>)"
  let ?s5 = "goto 3 (M_Publish x 0) (?s4\<lparr>ms_ring := write_cell 0 x (ms_ring ?s4)\<rparr>)"
  let ?s6 = "goto 3 M_Idle (?s5\<lparr>ms_ring := publish_cell 0 (ms_ring ?s5)\<rparr>)"
  have s1: "mpsc_step s [] ?s1" by (intro mpush_call) (rule cell)
  have s2: "mpsc_step ?s1 [] ?s2" using cell by (intro mpush_sample) (simp_all add: goto_def)
  have "mpsc_step ?s2 (if position_diff 0 0 < 0 then [Rejected 3 x] else []) (goto 3 (after_check x 0 0) ?s2)"
    using cell by (intro mpush_check) (simp_all add: goto_def)
  then have s3: "mpsc_step ?s2 [] ?s3" by (simp add: position_diff_def after_check_def)
  have s4: "mpsc_step ?s3 [Claimed 3 x] ?s4" using cell by (intro mpush_claim) (simp_all add: goto_def)
  have s5: "mpsc_step ?s4 [] ?s5" by (intro mpush_write) (simp add: goto_def)
  have s6: "mpsc_step ?s5 [Delivered 3 x] ?s6" by (intro mpush_publish) (simp add: goto_def)
  show ?thesis
    using mrun_step [OF mrun_step [OF mrun_step [OF mrun_step [OF mrun_step [OF mrun_step [OF mrun_nil s1] s2] s3] s4] s5] s6]
    by auto
qed

theorem mpsc_fifo_witness:
  "\<exists>s. mpsc_run (mpsc_system_init 2 (0::nat)) [Claimed 3 7, Delivered 3 7] s \<and> in_flight (ms_producer s 3) = []"
proof -
  obtain s where run: "mpsc_run (mpsc_system_init 2 (0::nat)) [Claimed 3 7, Delivered 3 7] s"
    using mpsc_push_run [of 0 7] by blast
  then show ?thesis using mpsc_fifo [OF demo_capacity run, of 3] by (auto simp: claims_by_def)
qed

text \<open>With no push under way, \<open>try_push\<close> returns: it appends the item if there is room and otherwise
  reports a full ring and changes nothing; \<open>try_pop\<close> returns the items in order.\<close>

theorem mpsc_bounded_queue:
  assumes "quiescent c xs k q" "c + length xs + 1 < 2 ^ 63"
  shows "(if length xs < k + c then \<exists>q'. mpsc_try_push x q = Some (True, q') \<and> quiescent c (xs @ [x]) k q'
      else mpsc_try_push x q = Some (False, q)) \<and>
    (if k < length xs then \<exists>q'. mpsc_try_pop out q = (True, xs ! k, q') \<and> quiescent c xs (Suc k) q'
      else mpsc_try_pop out q = (False, out, q))"
proof -
  have "length xs \<le> k + c" using assms(1) cells_okD(6) [of c xs k q] by (simp add: quiescent_def)
  then show ?thesis
    using mpsc_try_push_room [OF assms(1) _ assms(2), of x] mpsc_try_push_full [OF assms(1), of x] mpsc_try_pop_law [OF assms(1), of out]
    by auto
qed

theorem mpsc_bounded_queue_witness:
  "\<exists>q. mpsc_try_push 7 (mpsc_init 2 (0::nat)) = Some (True, q) \<and> quiescent 2 [7] 0 q"
  using mpsc_bounded_queue [OF quiescent_init [OF demo_capacity, of "0::nat"], of 7 0] by simp

subsection \<open>The sequencer\<close>

text \<open>C18: over any sequence of pushes and drains, per producer, nothing is lost, duplicated or reordered: what
  was waiting and what was accepted is what was drained and what still waits.  No producer starves:
  an item at the front of its queue is drained within as many drains as there are producers,
  whatever the other producers push.\<close>

theorem fan_in_fair_fifo:
  assumes "fan_in_inv f" "list_all (op_ok (producer_count f)) ops" "fan_in_run out ops f = (acc, dr, f')"
  shows "waiting f i @ of_producer i acc = of_producer i dr @ waiting f' i \<and>
    (i < producer_count f \<longrightarrow> waiting f i = x # xs \<longrightarrow> producer_count f \<le> length (filter (\<lambda>op. op = Drain) ops) \<longrightarrow> (i, x) \<in> set dr)"
  using fan_in_run_fifo [OF assms] fan_in_run_fair [OF assms, of i x xs] distance_bound [OF assms(1), of i] by auto

theorem fan_in_fair_fifo_witness:
  "\<exists>f acc dr f'. push_from 1 (5::nat) (fan_in_init 2 2 0) = (True, f) \<and> waiting f 1 = [5] \<and>
     fan_in_run 0 [PushFrom 0 6, Drain, Drain] f = (acc, dr, f') \<and> (1, 5) \<in> set dr"
proof -
  have init: "fan_in_inv (fan_in_init 2 2 (0::nat))" "waiting (fan_in_init 2 2 (0::nat)) 1 = []" "producer_count (fan_in_init 2 2 (0::nat)) = 2"
    by (rule fan_in_init_inv; simp add: demo_capacity)+
  obtain ok f where push: "push_from 1 (5::nat) (fan_in_init 2 2 0) = (ok, f)" by fastforce
  have one: "1 < producer_count (fan_in_init 2 2 (0::nat))" using init by simp
  note st = push_from_spec [OF init(1) one push]
  have "spsc_capacity (fi_queues (fan_in_init 2 2 (0::nat)) ! 1) = 2"
    using spsc_init_inv(3) [OF demo_capacity, of "0::nat"] by (simp add: fan_in_init_def)
  with st(5) init(2) have ok: ok by simp
  then have w: "waiting f 1 = [5]" using st(4) [of 1] init(2) by simp
  obtain acc dr f' where run: "fan_in_run 0 [PushFrom 0 6, Drain, Drain] f = (acc, dr, f')" by (rule prod_cases3)
  have "(1, 5) \<in> set dr"
    using fan_in_fair_fifo [OF st(1) _ run, of 1 5 "[]"] w st(2) init(3) by simp
  moreover have "push_from 1 (5::nat) (fan_in_init 2 2 0) = (True, f)" using push ok by simp
  ultimately show ?thesis using w run by blast
qed

end
