(* ===== verification/Metrics.thy ===== *)
theory Metrics
  imports Complex_Main Bitmap
begin

text \<open>
  \<open>metrics/histogram.hpp\<close> and \<open>metrics/counters.hpp\<close>.

  A \<open>double\<close> is the real number it stands for, and \<open>fl\<close>, a parameter, is the rounding
  of a result to a \<open>double\<close>, applied after every arithmetic operation and conversion; what
  the proofs use of it is \<open>ieee\<close>: rounding is monotone and leaves a half-integer of at most
  53 bits alone.
\<close>

subsection \<open>Floating point\<close>

definition ieee :: "(real \<Rightarrow> real) \<Rightarrow> bool" where
  "ieee fl \<longleftrightarrow> mono fl \<and> (\<forall>k::int. \<bar>k\<bar> \<le> 2 ^ 53 \<longrightarrow> fl (of_int k / 2) = of_int k / 2)"

lemma ieeeD:
  assumes "ieee fl"
  shows "x \<le> y \<Longrightarrow> fl x \<le> fl y" "fl 0 = 0" "n \<le> 2 ^ 52 \<Longrightarrow> fl (real n) = real n" "fl (- (1 / 2)) = - (1 / 2)" "fl (1 / 2) = 1 / 2"
proof -
  have half: "fl (of_int k / 2) = of_int k / 2" if "\<bar>k\<bar> \<le> 2 ^ 53" for k :: int
    using assms that by (simp add: ieee_def)
  show "x \<le> y \<Longrightarrow> fl x \<le> fl y" using assms by (simp add: ieee_def monoD)
  show "fl 0 = 0" "fl (- (1 / 2)) = - (1 / 2)" "fl (1 / 2) = 1 / 2" using half [of 0] half [of "- 1"] half [of 1] by simp_all
  show "fl (real n) = real n" if "n \<le> 2 ^ 52" using that half [of "2 * int n"] by simp
qed

lemma ieee_exact: "ieee (\<lambda>x. x)"
  by (simp add: ieee_def mono_def)

subsection \<open>The histogram\<close>

definition kLinearRangeNs :: nat where
  "kLinearRangeNs = 8192"

definition kLinearRangeBits :: nat where
  "kLinearRangeBits = 13"

definition kSubBucketsPerOctave :: nat where
  "kSubBucketsPerOctave = 64"

definition kMaxOctaves :: nat where
  "kMaxOctaves = 40"

definition kNumBuckets :: nat where
  "kNumBuckets = kLinearRangeNs + kSubBucketsPerOctave * kMaxOctaves"

lemmas histogram_constants = kLinearRangeNs_def kLinearRangeBits_def kSubBucketsPerOctave_def

record histogram =
  hg_counts :: "u64 list"
  hg_count :: u64
  hg_sum :: i64
  hg_min :: i64
  hg_max :: i64

definition histogram_init :: histogram where
  "histogram_init = \<lparr>hg_counts = replicate kNumBuckets 0, hg_count = 0, hg_sum = 0, hg_min = 0, hg_max = 0\<rparr>"

definition bucket_index :: "i64 \<Rightarrow> nat" where
  "bucket_index nanos =
     (if sint nanos < int kLinearRangeNs then unat nanos
      else let v = nanos; msb = 63 - countl_zero v; octave_start = push_bit msb (1 :: u64);
               octave_number = msb - kLinearRangeBits;
               sub_width = octave_start div of_nat kSubBucketsPerOctave;
               sub_index = (v - octave_start) div sub_width
        in kLinearRangeNs + octave_number * kSubBucketsPerOctave + unat sub_index)"

definition bucket_lower_bound :: "nat \<Rightarrow> i64" where
  "bucket_lower_bound idx =
     (if idx < kLinearRangeNs then of_nat idx
      else let log_idx = idx - kLinearRangeNs; octave_number = log_idx div kSubBucketsPerOctave;
               sub_index = log_idx mod kSubBucketsPerOctave; msb = kLinearRangeBits + octave_number;
               octave_start = push_bit msb (1 :: u64); sub_width = octave_start div of_nat kSubBucketsPerOctave
        in octave_start + of_nat sub_index * sub_width)"

definition hist_record :: "i64 \<Rightarrow> histogram \<Rightarrow> histogram" where
  "hist_record nanos h =
     (let nanos = (if sint nanos < 0 then 0 else nanos); idx = min (bucket_index nanos) (kNumBuckets - 1)
      in h\<lparr>hg_counts := (hg_counts h)[idx := hg_counts h ! idx + 1],
           hg_min := (if hg_count h = 0 then nanos else if sint nanos < sint (hg_min h) then nanos else hg_min h),
           hg_max := (if sint (hg_max h) < sint nanos then nanos else hg_max h),
           hg_sum := hg_sum h + nanos, hg_count := hg_count h + 1\<rparr>)"

text \<open>The double expression of \<open>percentile\<close> and its conversion to an integer.\<close>

definition percentile_target :: "(real \<Rightarrow> real) \<Rightarrow> real \<Rightarrow> u64 \<Rightarrow> u64" where
  "percentile_target fl p n =
     word_of_int \<lceil>fl (fl (fl (p / 100) * fl (real (unat n))) - fl (1 / 10 ^ 9))\<rceil>"

text \<open>The loop of \<open>percentile\<close> from bucket \<open>i\<close> on; \<open>None\<close> if it runs out of buckets.\<close>

fun percentile_scan :: "u64 \<Rightarrow> nat \<Rightarrow> u64 \<Rightarrow> u64 list \<Rightarrow> i64 option" where
  "percentile_scan target i cumulative [] = None"
| "percentile_scan target i cumulative (n # ns) =
     (let cumulative = cumulative + n
      in if target \<le> cumulative then Some (bucket_lower_bound i) else percentile_scan target (i + 1) cumulative ns)"

definition percentile :: "(real \<Rightarrow> real) \<Rightarrow> real \<Rightarrow> histogram \<Rightarrow> i64" where
  "percentile fl p h =
     (if hg_count h = 0 then 0 else if p \<le> 0 then hg_min h else if 100 \<le> p then hg_max h
      else case percentile_scan (percentile_target fl p (hg_count h)) 0 0 (hg_counts h) of
        Some v \<Rightarrow> v | None \<Rightarrow> hg_max h)"

definition hist_min :: "histogram \<Rightarrow> i64" where
  "hist_min h = (if hg_count h \<noteq> 0 then hg_min h else 0)"

definition hist_mean :: "(real \<Rightarrow> real) \<Rightarrow> histogram \<Rightarrow> real" where
  "hist_mean fl h = (if hg_count h \<noteq> 0 then fl (fl (of_int (sint (hg_sum h))) / fl (real (unat (hg_count h)))) else 0)"

subsection \<open>The throughput counter\<close>

record throughput_counter =
  tc_start :: i64
  tc_last :: i64
  tc_count :: u64

definition counter_init :: "i64 \<Rightarrow> throughput_counter" where
  "counter_init start = \<lparr>tc_start = start, tc_last = start, tc_count = 0\<rparr>"

definition counter_record :: "i64 \<Rightarrow> u64 \<Rightarrow> throughput_counter \<Rightarrow> throughput_counter" where
  "counter_record now n c = c\<lparr>tc_count := tc_count c + n, tc_last := now\<rparr>"

definition ops_per_second :: "(real \<Rightarrow> real) \<Rightarrow> throughput_counter \<Rightarrow> real" where
  "ops_per_second fl c =
     (let elapsed_ns = sint (tc_last c - tc_start c)
      in if elapsed_ns \<le> 0 then 0 else fl (fl (fl (real (unat (tc_count c))) * 10 ^ 9) / fl (of_int elapsed_ns)))"

definition counter_reset :: "i64 \<Rightarrow> throughput_counter \<Rightarrow> throughput_counter" where
  "counter_reset now c = c\<lparr>tc_count := 0, tc_start := now, tc_last := now\<rparr>"

subsection \<open>Buckets\<close>

lemma unat_push_bit_1:
  assumes "k < 64"
  shows "unat (push_bit k (1 :: u64)) = 2 ^ k"
proof -
  have "(2::nat) ^ k < 2 ^ 64" using assms by (intro power_strict_increasing) auto
  then show ?thesis using unat_of_nat [of "2 ^ k", where 'a = 64] by simp
qed

text \<open>The most significant bit.\<close>

lemma msb_bounds:
  fixes v :: u64
  assumes "v \<noteq> 0"
  shows "2 ^ (63 - countl_zero v) \<le> unat v" "unat v < 2 ^ Suc (63 - countl_zero v)" "63 - countl_zero v < 64"
proof -
  let ?k = "63 - countl_zero v"
  have k: "bit (unat v) ?k" "\<And>j. ?k < j \<Longrightarrow> \<not> bit (unat v) j"
    using countl_zero_spec [OF assms] by (auto simp: bit_unsigned_iff)
  show "?k < 64" by simp
  show "2 ^ ?k \<le> unat v" using k(1) by (metis bit_nat_def even_zero div_less not_le bit_iff_odd)
  have "n \<le> ?k" if "bit (unat v) n" for n using that k(2) [of n] by (meson not_le)
  then have "take_bit (Suc ?k) (unat v) = unat v" by (intro bit_eqI) (auto simp: bit_take_bit_iff less_Suc_eq_le)
  then show "unat v < 2 ^ Suc ?k" by (metis take_bit_nat_less_exp)
qed

text \<open>The bucket of a value below \<open>2 ^ 63\<close>, in natural numbers.\<close>

lemma unat_sint:
  fixes n :: i64
  assumes "0 \<le> sint n"
  shows "unat n = nat (sint n)" "int (unat n) = sint n" "unat n < 2 ^ 63"
proof -
  have "sint (of_nat (nat (sint n)) :: i64) = int (nat (sint n))"
    using assms sint_i64_bounds [of n] by (intro sint_of_nat_i64) simp
  then have "of_nat (nat (sint n)) = n" using assms by (simp add: sint_eq_iff_i64 [symmetric])
  then have "unat n = nat (sint n) mod 2 ^ 64" using unat_of_nat [of "nat (sint n)", where 'a = 64] by simp
  moreover have "nat (sint n) < 2 ^ 64" "nat (sint n) < 2 ^ 63" using sint_i64_bounds [of n] by simp_all
  ultimately show "unat n = nat (sint n)" "int (unat n) = sint n" "unat n < 2 ^ 63" using assms by simp_all
qed

lemma msb_unique:
  fixes k j n :: nat
  assumes "2 ^ k \<le> n" "n < 2 ^ Suc k" "2 ^ j \<le> n" "n < 2 ^ Suc j"
  shows "k = j"
proof -
  have less: "i < Suc l" if "(2::nat) ^ i \<le> n" "n < 2 ^ Suc l" for i l
    by (rule power_less_imp_less_exp [of "2::nat"], simp, rule le_less_trans [OF that])
  have "k < Suc j" "j < Suc k" using less assms by blast+
  then show ?thesis by simp
qed

lemma bucket_index_linear:
  assumes "0 \<le> sint n" "unat n < 8192"
  shows "bucket_index n = unat n"
proof -
  have "sint n < 8192" using unat_sint(2) [OF assms(1)] assms(2) by linarith
  then show ?thesis by (simp add: bucket_index_def kLinearRangeNs_def)
qed

lemma bucket_index_octave:
  assumes "0 \<le> sint n" "2 ^ k \<le> unat n" "unat n < 2 ^ Suc k" "13 \<le> k"
  shows "bucket_index n = 8192 + (k - 13) * 64 + (unat n - 2 ^ k) div 2 ^ (k - 6)" "k < 63"
proof -
  have "(2::nat) ^ k < 2 ^ 63" using assms(2) unat_sint(3) [OF assms(1)] by (rule le_less_trans)
  then show k: "k < 63" by (rule power_less_imp_less_exp [rotated]) simp
  have "(2::nat) ^ 13 \<le> 2 ^ k" using assms(4) by (intro power_increasing) auto
  then have big: "8192 \<le> unat n" using assms(2) by simp
  then have nz: "n \<noteq> 0" by auto
  have not_small: "\<not> sint n < 8192" using big unat_sint(2) [OF assms(1)] by linarith
  have msb: "63 - countl_zero n = k" using msb_unique msb_bounds [OF nz] assms(2,3) by blast
  have os: "unat (push_bit k (1 :: u64)) = 2 ^ k" using k by (simp add: unat_push_bit_1 del: push_bit_of_1)
  have "unat (push_bit k (1 :: u64) div of_nat 64) = 2 ^ k div 64" by (simp only: unat_div os) simp
  also have "(2::nat) ^ k div 64 = 2 ^ (k - 6)" using assms(4) power_diff [of "2::nat" 6 k] by simp
  finally have sw: "unat (push_bit k (1 :: u64) div of_nat 64) = 2 ^ (k - 6)" .
  have "unat (n - push_bit k 1) = unat n - 2 ^ k" using assms(2) os by (subst unat_sub) (simp_all add: word_le_nat_alt del: push_bit_of_1)
  then have "unat ((n - push_bit k 1) div (push_bit k 1 div of_nat 64)) = (unat n - 2 ^ k) div 2 ^ (k - 6)"
    by (simp only: unat_div [of "n - push_bit k 1"] sw)
  then show "bucket_index n = 8192 + (k - 13) * 64 + (unat n - 2 ^ k) div 2 ^ (k - 6)"
    using not_small by (simp only: bucket_index_def Let_def histogram_constants msb) simp
qed

lemma octave_exists:
  fixes n :: i64
  assumes "8192 \<le> unat n"
  obtains k where "2 ^ k \<le> unat n" "unat n < 2 ^ Suc k" "13 \<le> k"
proof -
  have nz: "n \<noteq> 0" using assms by auto
  let ?k = "63 - countl_zero n"
  have "(2::nat) ^ 13 < 2 ^ Suc ?k" by (rule le_less_trans [OF _ msb_bounds(2) [OF nz]]) (use assms in simp)
  then have "13 < Suc ?k" by (rule power_less_imp_less_exp [rotated]) simp
  then show thesis using that [of ?k] msb_bounds(1,2) [OF nz] by simp
qed

lemma sub_bucket_bound:
  fixes m :: nat
  assumes "m < 2 ^ k" "13 \<le> k"
  shows "m div 2 ^ (k - 6) < 64"
proof -
  have "(2::nat) ^ k = 64 * 2 ^ (k - 6)" using assms(2) power_add [of "2::nat" 6 "k - 6"] by simp
  then show ?thesis using assms(1) by (simp add: less_mult_imp_div_less)
qed

lemma bucket_lower_bound_octave:
  assumes "13 \<le> k" "k < 63" "i < 64"
  shows "unat (bucket_lower_bound (8192 + (k - 13) * 64 + i)) = 2 ^ k + i * 2 ^ (k - 6)"
proof -
  let ?x = "8192 + (k - 13) * 64 + i"
  have parts: "\<not> ?x < 8192" "(?x - 8192) div 64 = k - 13" "(?x - 8192) mod 64 = i" using assms(3) by simp_all
  have os: "unat (push_bit k (1 :: u64)) = 2 ^ k" using assms(2) by (simp add: unat_push_bit_1 del: push_bit_of_1)
  have "unat (push_bit k (1 :: u64) div of_nat 64) = 2 ^ k div 64" by (simp only: unat_div os) simp
  also have "(2::nat) ^ k div 64 = 2 ^ (k - 6)" using assms(1) power_diff [of "2::nat" 6 k] by simp
  finally have sw: "unat (push_bit k (1 :: u64) div of_nat 64) = 2 ^ (k - 6)" .
  have "(2::nat) ^ k = 64 * 2 ^ (k - 6)" using assms(1) power_add [of "2::nat" 6 "k - 6"] by simp
  then have "i * 2 ^ (k - 6) < (2::nat) ^ k" using assms(3) by simp
  moreover have "(2::nat) ^ k \<le> 2 ^ 62" using assms(2) by (intro power_increasing) auto
  ultimately have fits: "2 ^ k + i * 2 ^ (k - 6) < (2::nat) ^ 64" "i * 2 ^ (k - 6) < (2::nat) ^ 64" by simp_all
  have "unat (of_nat i :: u64) = i" using assms(3) by (simp add: unat_of_nat)
  then have "unat (push_bit k 1 + of_nat i * (push_bit k 1 div of_nat 64) :: u64) = 2 ^ k + i * 2 ^ (k - 6)"
    using fits by (simp only: unat_word_ariths(1,2) os sw len_of_numeral_defs mod_less) simp
  then show ?thesis
    using parts assms(1) by (simp only: bucket_lower_bound_def Let_def histogram_constants) simp
qed

lemma bucket_lower_bound_linear: "i < 8192 \<Longrightarrow> unat (bucket_lower_bound i) = i"
  by (simp add: bucket_lower_bound_def kLinearRangeNs_def unat_of_nat)

text \<open>The lower bound of a value's bucket is below the value by less than a 64th of it.\<close>

lemma bucket_error:
  assumes "0 \<le> sint n"
  shows "unat (bucket_lower_bound (bucket_index n)) \<le> unat n"
    "64 * (unat n - unat (bucket_lower_bound (bucket_index n))) \<le> unat n"
    "unat n < 8192 \<Longrightarrow> unat (bucket_lower_bound (bucket_index n)) = unat n"
proof -
  have "unat (bucket_lower_bound (bucket_index n)) \<le> unat n \<and>
      64 * (unat n - unat (bucket_lower_bound (bucket_index n))) \<le> unat n" if big: "8192 \<le> unat n"
  proof -
    obtain k where k: "2 ^ k \<le> unat n" "unat n < 2 ^ Suc k" "13 \<le> k" using big by (rule octave_exists)
    let ?i = "(unat n - 2 ^ k) div 2 ^ (k - 6)"
    note idx = bucket_index_octave [OF assms k]
    have "unat n - 2 ^ k < 2 ^ k" using k(2) by simp
    then have "?i < 64" using k(3) by (rule sub_bucket_bound)
    then have low: "unat (bucket_lower_bound (bucket_index n)) = 2 ^ k + ?i * 2 ^ (k - 6)"
      using bucket_lower_bound_octave [OF k(3) idx(2)] idx(1) by simp
    have "unat n - 2 ^ k = ?i * 2 ^ (k - 6) + (unat n - 2 ^ k) mod 2 ^ (k - 6)" by (rule div_mult_mod_eq [symmetric])
    moreover have "(unat n - 2 ^ k) mod 2 ^ (k - 6) < 2 ^ (k - 6)" by simp
    moreover have "(2::nat) ^ k = 64 * 2 ^ (k - 6)" using k(3) power_add [of "2::nat" 6 "k - 6"] by simp
    ultimately show ?thesis using k(1) low by linarith
  qed
  moreover have "unat (bucket_lower_bound (bucket_index n)) = unat n" if "unat n < 8192"
    using that assms by (simp add: bucket_index_linear bucket_lower_bound_linear)
  ultimately show "unat (bucket_lower_bound (bucket_index n)) \<le> unat n"
    "64 * (unat n - unat (bucket_lower_bound (bucket_index n))) \<le> unat n"
    "unat n < 8192 \<Longrightarrow> unat (bucket_lower_bound (bucket_index n)) = unat n"
    by (cases "unat n < 8192"; simp)+
qed

lemma bucket_index_mono:
  assumes "0 \<le> sint n" "0 \<le> sint m" "unat n \<le> unat m"
  shows "bucket_index n \<le> bucket_index m"
proof (cases "unat m < 8192")
  case True
  then show ?thesis using assms by (simp add: bucket_index_linear)
next
  case False
  then have "8192 \<le> unat m" by simp
  then obtain j where j: "2 ^ j \<le> unat m" "unat m < 2 ^ Suc j" "13 \<le> j" by (rule octave_exists)
  note im = bucket_index_octave(1) [OF assms(2) j]
  show ?thesis
  proof (cases "unat n < 8192")
    case True
    then show ?thesis using assms(1) im by (simp add: bucket_index_linear)
  next
    case big: False
    then have "8192 \<le> unat n" by simp
    then obtain k where k: "2 ^ k \<le> unat n" "unat n < 2 ^ Suc k" "13 \<le> k" by (rule octave_exists)
    note ik = bucket_index_octave(1) [OF assms(1) k]
    have "(2::nat) ^ k < 2 ^ Suc j" using k(1) j(2) assms(3) by linarith
    then have "k < Suc j" by (rule power_less_imp_less_exp [rotated]) simp
    then consider "k = j" | "k < j" by linarith
    then show ?thesis
    proof cases
      case 1
      then show ?thesis using ik im assms(3) by (simp add: div_le_mono diff_le_mono)
    next
      case 2
      have "(unat n - 2 ^ k) div 2 ^ (k - 6) < 64" using k(2,3) by (intro sub_bucket_bound) auto
      moreover have "(k - 13) * 64 + 64 \<le> (j - 13) * 64" using 2 k(3) by linarith
      ultimately show ?thesis using ik im by linarith
    qed
  qed
qed

end
