(* ===== verification/Histogram_Spec.thy ===== *)
theory Histogram_Spec
  imports Metrics "HOL-Library.Multiset"
begin

text \<open>
  The histogram against the list of samples recorded in it: the counts are the numbers of
  samples per bucket, and \<open>percentile\<close> finds the bucket of the sample of the rank asked for.
\<close>

subsection \<open>Samples and buckets\<close>

definition clamp :: "i64 \<Rightarrow> i64" where
  "clamp n = (if sint n < 0 then 0 else n)"

definition sample_bucket :: "i64 \<Rightarrow> nat" where
  "sample_bucket n = min (bucket_index n) (kNumBuckets - 1)"

definition in_bucket :: "i64 list \<Rightarrow> nat \<Rightarrow> nat" where
  "in_bucket xs i = length (filter (\<lambda>x. sample_bucket x = i) xs)"

definition below_bucket :: "i64 list \<Rightarrow> nat \<Rightarrow> nat" where
  "below_bucket xs i = length (filter (\<lambda>x. sample_bucket x < i) xs)"

definition recorded :: "i64 list \<Rightarrow> histogram" where
  "recorded ns = fold hist_record ns histogram_init"

lemma clamp_nonneg: "0 \<le> sint (clamp n)"
  by (simp add: clamp_def)

lemma kNumBuckets_pos: "0 < kNumBuckets"
  by (simp add: kNumBuckets_def kLinearRangeNs_def)

lemma sample_bucket_bound: "sample_bucket n < kNumBuckets"
  using kNumBuckets_pos by (simp add: sample_bucket_def)

lemma below_bucket_0 [simp]: "below_bucket xs 0 = 0"
  by (simp add: below_bucket_def)

lemma below_bucket_Suc: "below_bucket xs (Suc i) = below_bucket xs i + in_bucket xs i"
  by (induction xs) (auto simp: below_bucket_def in_bucket_def)

lemma below_bucket_all: "below_bucket xs kNumBuckets = length xs"
  by (induction xs) (auto simp: below_bucket_def sample_bucket_bound)

lemma below_bucket_le: "below_bucket xs i \<le> length xs"
  by (simp add: below_bucket_def)

subsection \<open>Recording\<close>

definition hist_rep :: "i64 list \<Rightarrow> histogram \<Rightarrow> bool" where
  "hist_rep xs h \<longleftrightarrow> hg_counts h = map (\<lambda>i. of_nat (in_bucket xs i)) [0..<kNumBuckets] \<and>
     hg_count h = of_nat (length xs) \<and> hg_sum h = sum_list xs \<and>
     (if xs = [] then hg_max h = 0 else hg_min h \<in> set xs \<and> hg_max h \<in> set xs) \<and>
     (\<forall>x \<in> set xs. 0 \<le> sint x \<and> sint (hg_min h) \<le> sint x \<and> sint x \<le> sint (hg_max h))"

lemma hist_rep_init: "hist_rep [] histogram_init"
  by (simp add: hist_rep_def histogram_init_def in_bucket_def map_replicate_const)

lemma of_nat_u64_eq_0: "n < 2 ^ 64 \<Longrightarrow> (of_nat n :: u64) = 0 \<longleftrightarrow> n = 0"
proof -
  assume n: "n < 2 ^ 64"
  then have "unat (of_nat n :: u64) = n" by (simp add: unat_of_nat)
  then show ?thesis using unat_eq_zero [of "of_nat n :: u64"] by (simp del: unat_eq_zero)
qed

lemma hist_rep_record:
  assumes "hist_rep xs h" "length xs < 2 ^ 64"
  shows "hist_rep (xs @ [clamp n]) (hist_record n h)"
proof -
  let ?x = "clamp n" and ?h = "hist_record n h"
  let ?b = "sample_bucket ?x"
  have "hg_counts ?h = (hg_counts h)[?b := hg_counts h ! ?b + 1]"
    by (simp add: hist_record_def Let_def sample_bucket_def clamp_def)
  also have "\<dots> = map (\<lambda>i. of_nat (in_bucket (xs @ [?x]) i)) [0..<kNumBuckets]"
  proof (rule nth_equalityI)
    show "length ((hg_counts h)[?b := hg_counts h ! ?b + 1]) = length (map (\<lambda>i. of_nat (in_bucket (xs @ [?x]) i)) [0..<kNumBuckets] :: u64 list)"
      using assms(1) by (simp add: hist_rep_def)
    fix i
    assume "i < length ((hg_counts h)[?b := hg_counts h ! ?b + 1])"
    then show "(hg_counts h)[?b := hg_counts h ! ?b + 1] ! i = map (\<lambda>i. of_nat (in_bucket (xs @ [?x]) i)) [0..<kNumBuckets] ! i"
      using assms(1) by (auto simp: hist_rep_def nth_list_update in_bucket_def)
  qed
  finally have counts: "hg_counts ?h = map (\<lambda>i. of_nat (in_bucket (xs @ [?x]) i)) [0..<kNumBuckets]" .
  have fields: "hg_count ?h = of_nat (length (xs @ [?x]))" "hg_sum ?h = sum_list (xs @ [?x])"
    "hg_min ?h = (if xs = [] then ?x else if sint ?x < sint (hg_min h) then ?x else hg_min h)"
    "hg_max ?h = (if sint (hg_max h) < sint ?x then ?x else hg_max h)"
    using assms of_nat_u64_eq_0 [OF assms(2)] by (simp_all add: hist_rep_def hist_record_def Let_def clamp_def)
  have zero: "hg_max h = 0 \<and> \<not> sint (hg_max h) < sint ?x \<longrightarrow> ?x = 0"
    using clamp_nonneg [of n] sint_eq_iff_i64 [of ?x 0] by auto
  show ?thesis
  proof (cases "xs = []")
    case True
    then have "hg_max h = 0" using assms(1) by (simp add: hist_rep_def)
    with True counts fields zero clamp_nonneg [of n] show ?thesis by (auto simp: hist_rep_def)
  next
    case False
    with assms(1) have h: "hg_min h \<in> set xs" "hg_max h \<in> set xs"
      "\<forall>x \<in> set xs. 0 \<le> sint x \<and> sint (hg_min h) \<le> sint x \<and> sint x \<le> sint (hg_max h)" by (simp_all add: hist_rep_def)
    with False counts fields clamp_nonneg [of n] show ?thesis by (auto simp: hist_rep_def)
  qed
qed

lemma recorded_rep:
  assumes "length ns < 2 ^ 64"
  shows "hist_rep (map clamp ns) (recorded ns)"
  using assms
proof (induction ns rule: rev_induct)
  case Nil
  then show ?case by (simp add: recorded_def hist_rep_init)
next
  case (snoc n ns)
  then show ?case using hist_rep_record [of "map clamp ns" "recorded ns" n] by (simp add: recorded_def)
qed

subsection \<open>Finding a rank\<close>

lemma of_nat_u64_le: "a < 2 ^ 64 \<Longrightarrow> b < 2 ^ 64 \<Longrightarrow> (of_nat a :: u64) \<le> of_nat b \<longleftrightarrow> a \<le> b"
  by (simp add: word_le_nat_alt unat_of_nat)

text \<open>The scan stops at the bucket that takes the cumulative count to the target.\<close>

lemma percentile_scan_spec:
  assumes "length xs < 2 ^ 64" "t \<le> length xs" "below_bucket xs i < t" "i \<le> kNumBuckets"
  shows "\<exists>b < kNumBuckets. below_bucket xs b < t \<and> t \<le> below_bucket xs (Suc b) \<and>
    percentile_scan (of_nat t) i (of_nat (below_bucket xs i)) (map (\<lambda>j. of_nat (in_bucket xs j)) [i..<kNumBuckets]) =
      Some (bucket_lower_bound b)"
  using assms
proof (induction "kNumBuckets - i" arbitrary: i)
  case 0
  then show ?case using below_bucket_all [of xs] by simp
next
  case (Suc k)
  then have i: "i < kNumBuckets" by simp
  then have upt: "[i..<kNumBuckets] = i # [Suc i..<kNumBuckets]" by (rule upt_conv_Cons)
  have cum: "of_nat (below_bucket xs i) + of_nat (in_bucket xs i) = (of_nat (below_bucket xs (Suc i)) :: u64)"
    by (simp add: below_bucket_Suc)
  have le: "(of_nat t :: u64) \<le> of_nat (below_bucket xs (Suc i)) \<longleftrightarrow> t \<le> below_bucket xs (Suc i)"
    using Suc.prems(1,2) below_bucket_le [of xs "Suc i"] by (intro of_nat_u64_le) auto
  show ?case
  proof (cases "t \<le> below_bucket xs (Suc i)")
    case True
    with i Suc.prems(3) le show ?thesis by (intro exI [of _ i]) (simp add: upt cum Let_def)
  next
    case False
    then have "\<exists>b < kNumBuckets. below_bucket xs b < t \<and> t \<le> below_bucket xs (Suc b) \<and>
      percentile_scan (of_nat t) (Suc i) (of_nat (below_bucket xs (Suc i))) (map (\<lambda>j. of_nat (in_bucket xs j)) [Suc i..<kNumBuckets]) =
        Some (bucket_lower_bound b)"
      using Suc i by (intro Suc.hyps(1)) auto
    with False le show ?thesis by (simp add: upt cum Let_def)
  qed
qed

text \<open>The bucket found is that of the sample with the target's rank.\<close>

lemma length_filter_sort_key: "length (filter P (sort_key f xs)) = length (filter P xs)"
proof -
  have "mset (filter P (sort_key f xs)) = mset (filter P xs)" by simp
  then show ?thesis by (rule mset_eq_length)
qed

lemma sorted_rank:
  assumes "sorted (map f ys)" "1 \<le> t" "t \<le> length ys" "length (filter (\<lambda>y. f y < b) ys) < t" "t \<le> length (filter (\<lambda>y. f y \<le> b) ys)"
  shows "f (ys ! (t - 1)) = (b :: nat)"
proof -
  have lt: "t - 1 < length ys" using assms(2,3) by simp
  have nth: "f (ys ! i) \<le> f (ys ! j)" if "i \<le> j" "j < length ys" for i j
    using sorted_nth_mono [OF assms(1), of i j] that by simp
  have "\<not> f (ys ! (t - 1)) < b"
  proof
    assume low: "f (ys ! (t - 1)) < b"
    have "f y < b" if y: "y \<in> set (take t ys)" for y
    proof -
      obtain i where i: "i < t" "y = ys ! i" using y by (auto simp: in_set_conv_nth)
      then have "f (ys ! i) \<le> f (ys ! (t - 1))" using lt by (intro nth) auto
      then show ?thesis using low i by simp
    qed
    then have "filter (\<lambda>y. f y < b) (take t ys) = take t ys" by (simp add: filter_True)
    then have "t \<le> length (filter (\<lambda>y. f y < b) (take t ys @ drop t ys))" using assms(3) by (simp only: filter_append) simp
    with assms(4) show False by simp
  qed
  moreover have "\<not> b < f (ys ! (t - 1))"
  proof
    assume high: "b < f (ys ! (t - 1))"
    have "\<not> f y \<le> b" if y: "y \<in> set (drop (t - 1) ys)" for y
    proof -
      obtain i where i: "i < length ys - (t - 1)" "y = ys ! (t - 1 + i)" using y by (auto simp: in_set_conv_nth)
      then have "f (ys ! (t - 1)) \<le> f (ys ! (t - 1 + i))" using lt by (intro nth) auto
      then show ?thesis using high i by simp
    qed
    then have "filter (\<lambda>y. f y \<le> b) (drop (t - 1) ys) = []" by (simp add: filter_empty_conv)
    then have "length (filter (\<lambda>y. f y \<le> b) (take (t - 1) ys @ drop (t - 1) ys)) \<le> t - 1"
      using length_filter_le [of "\<lambda>y. f y \<le> b" "take (t - 1) ys"] by (simp only: filter_append) simp
    with assms(2,5) show False by simp
  qed
  ultimately show ?thesis by simp
qed

lemma sample_bucket_mono: "0 \<le> sint x \<Longrightarrow> sint x \<le> sint y \<Longrightarrow> sample_bucket x \<le> sample_bucket y"
  using bucket_index_mono [of x y] unat_sint(1) [of x] unat_sint(1) [of y] by (simp add: sample_bucket_def min.coboundedI1)

lemma bucket_of_rank:
  assumes "\<forall>x \<in> set xs. 0 \<le> sint x" "1 \<le> t" "t \<le> length xs" "below_bucket xs b < t" "t \<le> below_bucket xs (Suc b)"
  shows "sample_bucket (sort_key sint xs ! (t - 1)) = b"
proof (rule sorted_rank)
  have "sorted_wrt (\<lambda>x y. sint x \<le> sint y) (sort_key sint xs)"
    using sorted_sort_key [of sint xs] by (simp add: sorted_map)
  then have "sorted_wrt (\<lambda>x y. sample_bucket x \<le> sample_bucket y) (sort_key sint xs)"
    by (rule sorted_wrt_mono_rel [rotated]) (use assms(1) in \<open>simp add: sample_bucket_mono\<close>)
  then show "sorted (map sample_bucket (sort_key sint xs))" by (simp add: sorted_map)
  show "length (filter (\<lambda>y. sample_bucket y < b) (sort_key sint xs)) < t"
    "t \<le> length (filter (\<lambda>y. sample_bucket y \<le> b) (sort_key sint xs))"
    using assms(4,5) by (simp_all add: length_filter_sort_key below_bucket_def less_Suc_eq_le)
qed (use assms in simp_all)

subsection \<open>The percentile\<close>

lemma percentile_target_bounds:
  assumes "ieee fl" "0 \<le> p" "p \<le> 100" "n \<le> 2 ^ 52"
  defines "x \<equiv> fl (fl (fl (p / 100) * fl (real n)) - fl (1 / 10 ^ 9))"
  shows "unat (percentile_target fl p (of_nat n)) = nat \<lceil>x\<rceil>" "0 \<le> \<lceil>x\<rceil>" "nat \<lceil>x\<rceil> \<le> n"
proof -
  note fl = ieeeD [OF assms(1)]
  have n: "fl (real n) = real n" "unat (of_nat n :: u64) = n" using assms(4) fl(3) by (simp_all add: unat_of_nat)
  have q: "0 \<le> fl (p / 100)" "fl (p / 100) \<le> 1"
    using fl(1) [of 0 "p / 100"] fl(2) fl(1) [of "p / 100" 1] fl(3) [of 1] assms(2,3) by simp_all
  have e: "0 \<le> fl (1 / 10 ^ 9)" "fl (1 / 10 ^ 9) \<le> 1 / 2"
    using fl(1) [of 0 "1 / 10 ^ 9"] fl(2) fl(1) [of "1 / 10 ^ 9" "1 / 2"] fl(5) by simp_all
  have m: "0 \<le> fl (fl (p / 100) * real n)" "fl (fl (p / 100) * real n) \<le> real n"
    using fl(1) [of 0 "fl (p / 100) * real n"] fl(2) fl(1) [of "fl (p / 100) * real n" "real n"] n(1) q
    by (simp_all add: mult_left_le_one_le)
  have lo: "- (1 / 2) \<le> x"
    using fl(1) [of "- (1 / 2)" "fl (fl (p / 100) * real n) - fl (1 / 10 ^ 9)"] fl(4) m(1) e(2) by (simp add: x_def n(1))
  have hi: "x \<le> real n"
    using fl(1) [of "fl (fl (p / 100) * real n) - fl (1 / 10 ^ 9)" "real n"] n(1) m(2) e(1) by (simp add: x_def)
  show ceil: "0 \<le> \<lceil>x\<rceil>" using lo by linarith
  have ub: "\<lceil>x\<rceil> \<le> int n" using hi by (simp add: ceiling_le_iff)
  then show le: "nat \<lceil>x\<rceil> \<le> n" by (simp only: nat_le_iff)
  have "n < 2 ^ 64" using assms(4) by simp
  with le have "nat \<lceil>x\<rceil> < 2 ^ 64" by (rule le_less_trans)
  moreover have "percentile_target fl p (of_nat n) = of_nat (nat \<lceil>x\<rceil>)"
    using ceil by (simp add: percentile_target_def x_def n)
  ultimately show "unat (percentile_target fl p (of_nat n)) = nat \<lceil>x\<rceil>" by (simp only: unat_of_nat) simp
qed

text \<open>
  The value of \<open>percentile\<close> for a target \<open>t\<close>: the lower bound of the bucket of the sample of
  rank \<open>t\<close>, and 0 for the target 0.
\<close>

lemma percentile_value:
  assumes "ns \<noteq> []" "length ns < 2 ^ 64" "0 < p" "p < 100" "t \<le> length ns"
    "percentile_target fl p (of_nat (length ns)) = of_nat t"
  shows "percentile fl p (recorded ns) =
    (if t = 0 then 0 else bucket_lower_bound (sample_bucket (sort_key sint (map clamp ns) ! (t - 1))))"
proof -
  let ?xs = "map clamp ns"
  have rep: "hist_rep ?xs (recorded ns)" using assms(2) by (rule recorded_rep)
  have nonneg: "\<forall>x \<in> set ?xs. 0 \<le> sint x" by (simp add: clamp_nonneg)
  have eq: "percentile fl p (recorded ns) = (case percentile_scan (of_nat t) 0 0 (map (\<lambda>i. of_nat (in_bucket ?xs i)) [0..<kNumBuckets]) of
      Some v \<Rightarrow> v | None \<Rightarrow> hg_max (recorded ns))"
    using rep assms(1,3,4,6) of_nat_u64_eq_0 [OF assms(2)] by (simp add: percentile_def hist_rep_def)
  show ?thesis
  proof (cases "t = 0")
    case True
    have "[0..<kNumBuckets] = 0 # [1..<kNumBuckets]" using kNumBuckets_pos by (simp add: upt_conv_Cons)
    then show ?thesis using eq True by (simp add: bucket_lower_bound_def kLinearRangeNs_def)
  next
    case False
    then obtain b where b: "below_bucket ?xs b < t" "t \<le> below_bucket ?xs (Suc b)"
      "percentile_scan (of_nat t) 0 0 (map (\<lambda>i. of_nat (in_bucket ?xs i)) [0..<kNumBuckets]) = Some (bucket_lower_bound b)"
      using percentile_scan_spec [of ?xs t 0] assms(2,5) by auto
    moreover have "sample_bucket (sort_key sint ?xs ! (t - 1)) = b"
      using bucket_of_rank [OF nonneg _ _ b(1,2)] False assms(5) by simp
    ultimately show ?thesis using eq False by simp
  qed
qed

text \<open>Below the clamped range, that bound is off by at most a 64th of the sample.\<close>

lemma sample_bucket_error:
  assumes "0 \<le> sint x" "sint x < 2 ^ 53"
  shows "sint (bucket_lower_bound (sample_bucket x)) \<le> sint x"
    "64 * (sint x - sint (bucket_lower_bound (sample_bucket x))) \<le> sint x"
proof -
  let ?l = "bucket_lower_bound (bucket_index x)"
  have small: "unat x < 2 ^ 53" using unat_sint(1) [OF assms(1)] assms(2) by simp
  have "bucket_index x < kNumBuckets"
  proof (cases "unat x < 8192")
    case True
    then show ?thesis using assms(1) by (simp add: bucket_index_linear kNumBuckets_def kLinearRangeNs_def)
  next
    case False
    then have "8192 \<le> unat x" by simp
    then obtain k where k: "2 ^ k \<le> unat x" "unat x < 2 ^ Suc k" "13 \<le> k" by (rule octave_exists)
    have "(2::nat) ^ k < 2 ^ 53" using k(1) small by (rule le_less_trans)
    then have "k < 53" by (rule power_less_imp_less_exp [rotated]) simp
    moreover have "(unat x - 2 ^ k) div 2 ^ (k - 6) < 64" using k(2,3) by (intro sub_bucket_bound) auto
    moreover have "(k - 13) * 64 \<le> 39 * 64" using \<open>k < 53\<close> by simp
    ultimately show ?thesis
      unfolding bucket_index_octave(1) [OF assms(1) k] kNumBuckets_def kLinearRangeNs_def kSubBucketsPerOctave_def kMaxOctaves_def
      by linarith
  qed
  then have bucket: "sample_bucket x = bucket_index x" by (simp add: sample_bucket_def)
  note err = bucket_error(1,2) [OF assms(1)]
  have l: "sint ?l = int (unat ?l)"
  proof -
    have "unat ?l < 2 ^ 63" using err(1) small by simp
    then show ?thesis using sint_of_nat_i64 [of "unat ?l"] by simp
  qed
  have "int (64 * (unat x - unat ?l)) \<le> int (unat x)" using err(2) by (simp only: of_nat_le_iff)
  then have rel: "64 * (int (unat x) - int (unat ?l)) \<le> int (unat x)"
    by (simp only: of_nat_mult of_nat_numeral of_nat_diff [OF err(1)])
  show "sint (bucket_lower_bound (sample_bucket x)) \<le> sint x"
    "64 * (sint x - sint (bucket_lower_bound (sample_bucket x))) \<le> sint x"
    using err(1) rel unfolding bucket l unat_sint(2) [OF assms(1), symmetric] by linarith+
qed

end
