(* ===== verification/Metrics_Properties.thy ===== *)
theory Metrics_Properties
  imports Histogram_Spec
begin

text \<open>The property of the latency histogram.\<close>

lemma recorded_extremes:
  assumes "ns \<noteq> []" "length ns < 2 ^ 64"
  shows "hg_min (recorded ns) \<in> clamp ` set ns" "hg_max (recorded ns) \<in> clamp ` set ns"
    "n \<in> set ns \<Longrightarrow> sint (hg_min (recorded ns)) \<le> sint (clamp n) \<and> sint (clamp n) \<le> sint (hg_max (recorded ns))"
    "hg_count (recorded ns) \<noteq> 0"
  using recorded_rep [OF assms(2)] assms(1) of_nat_u64_eq_0 [OF assms(2)] by (simp_all add: hist_rep_def)

subsection \<open>Percentiles in order\<close>

text \<open>Lower bounds grow with the bucket.\<close>

lemma bucket_lower_bound_Suc:
  assumes "b < 11391"
  shows "unat (bucket_lower_bound b) \<le> unat (bucket_lower_bound (Suc b))"
proof -
  consider "Suc b < 8192" | "b = 8191" | "8192 \<le> b" by linarith
  then show ?thesis
  proof cases
    case 1
    then show ?thesis by (simp add: bucket_lower_bound_linear)
  next
    case 2
    then show ?thesis using bucket_lower_bound_octave [of 13 0] by (simp add: bucket_lower_bound_linear)
  next
    case 3
    define k where "k = 13 + (b - 8192) div 64"
    define i where "i = (b - 8192) mod 64"
    have k: "13 \<le> k" "k < 63" "i < 64" "b = 8192 + (k - 13) * 64 + i" using 3 assms by (auto simp: k_def i_def)
    show ?thesis
    proof (cases "i = 63")
      case True
      have next_octave: "Suc b = 8192 + (Suc k - 13) * 64 + 0" using k True by simp
      have "Suc k < 63" using assms k True by linarith
      then have "unat (bucket_lower_bound (Suc b)) = 2 ^ Suc k"
        using bucket_lower_bound_octave [of "Suc k" 0] k(1) unfolding next_octave by simp
      moreover have "(2::nat) ^ k = 64 * 2 ^ (k - 6)" using k(1) power_add [of "2::nat" 6 "k - 6"] by simp
      ultimately show ?thesis using bucket_lower_bound_octave [OF k(1-3)] k True by simp
    next
      case False
      then have "Suc i < 64" using k by simp
      then show ?thesis
        using bucket_lower_bound_octave [OF k(1-3)] bucket_lower_bound_octave [OF k(1,2), of "Suc i"] k(4) by simp
    qed
  qed
qed

lemma bucket_lower_bound_mono:
  assumes "b \<le> c" "c \<le> 11391"
  shows "unat (bucket_lower_bound b) \<le> unat (bucket_lower_bound c)"
  using assms
proof (induction c rule: dec_induct)
  case (step c)
  then show ?case using bucket_lower_bound_Suc [of c] by simp
qed simp

lemma bucket_index_bound: "0 \<le> sint n \<Longrightarrow> bucket_index n \<le> 11391"
proof (cases "unat n < 8192")
  case False
  assume n: "0 \<le> sint n"
  from False have "8192 \<le> unat n" by simp
  then obtain k where k: "2 ^ k \<le> unat n" "unat n < 2 ^ Suc k" "13 \<le> k" by (rule octave_exists)
  have "(unat n - 2 ^ k) div 2 ^ (k - 6) < 64" using k(2,3) by (intro sub_bucket_bound) auto
  then show ?thesis using bucket_index_octave [OF n k] by linarith
qed (simp add: bucket_index_linear)

text \<open>Also for a value whose bucket was clamped to the last one.\<close>

lemma sample_bound:
  assumes "0 \<le> sint x"
  shows "sint (bucket_lower_bound (sample_bucket x)) \<le> sint x" "0 \<le> sint (bucket_lower_bound (sample_bucket x))"
    "sint (bucket_lower_bound (sample_bucket x)) = int (unat (bucket_lower_bound (sample_bucket x)))"
proof -
  let ?l = "bucket_lower_bound (sample_bucket x)"
  have "unat ?l \<le> unat (bucket_lower_bound (bucket_index x))"
    by (rule bucket_lower_bound_mono [OF _ bucket_index_bound [OF assms]]) (simp add: sample_bucket_def)
  also have "\<dots> \<le> unat x" by (rule bucket_error(1) [OF assms])
  finally have le: "unat ?l \<le> unat x" .
  then have "unat ?l < 2 ^ 63" using unat_sint(3) [OF assms] by linarith
  then show eq: "sint ?l = int (unat ?l)" using sint_of_nat_i64 [of "unat ?l"] by simp
  show "sint ?l \<le> sint x" using le unat_sint(2) [OF assms] unfolding eq by linarith
  show "0 \<le> sint ?l" by (simp add: eq)
qed

lemma sample_bound_mono:
  assumes "0 \<le> sint x" "sint x \<le> sint y"
  shows "sint (bucket_lower_bound (sample_bucket x)) \<le> sint (bucket_lower_bound (sample_bucket y))"
proof -
  have y: "0 \<le> sint y" using assms by simp
  have "sample_bucket x \<le> sample_bucket y" using assms by (rule sample_bucket_mono)
  moreover have "sample_bucket y \<le> 11391" using bucket_index_bound [OF y] by (simp add: sample_bucket_def)
  ultimately have "unat (bucket_lower_bound (sample_bucket x)) \<le> unat (bucket_lower_bound (sample_bucket y))"
    by (rule bucket_lower_bound_mono)
  then show ?thesis unfolding sample_bound(3) [OF assms(1)] sample_bound(3) [OF y] by (simp only: of_nat_le_iff)
qed

lemma percentile_target_mono:
  assumes "ieee fl" "0 < p" "p \<le> q" "q < 100" "n \<le> 2 ^ 52"
  obtains t u where "percentile_target fl p (of_nat n) = of_nat t" "percentile_target fl q (of_nat n) = of_nat u"
    "t \<le> u" "u \<le> n"
proof -
  note fl = ieeeD [OF assms(1)]
  let ?x = "\<lambda>p. fl (fl (fl (p / 100) * fl (real n)) - fl (1 / 10 ^ 9))"
  have "0 \<le> fl (real n)" using fl(3) [OF assms(5)] by simp
  then have "?x p \<le> ?x q" by (intro fl(1) diff_mono mult_right_mono) (use assms(3) in simp_all)
  then have "nat \<lceil>?x p\<rceil> \<le> nat \<lceil>?x q\<rceil>" by (intro nat_mono ceiling_mono)
  moreover note b = percentile_target_bounds [OF assms(1) _ _ assms(5)]
  have "percentile_target fl p (of_nat n) = of_nat (nat \<lceil>?x p\<rceil>)" "percentile_target fl q (of_nat n) = of_nat (nat \<lceil>?x q\<rceil>)"
    using b(1) [of p, symmetric] b(1) [of q, symmetric] assms(2-4) by simp_all
  moreover have "nat \<lceil>?x q\<rceil> \<le> n" using b(3) [of q] assms(2-4) by simp
  ultimately show ?thesis using that by blast
qed

lemma percentile_inner_mono:
  assumes "ieee fl" "0 < p" "p \<le> q" "q < 100" "ns \<noteq> []" "length ns \<le> 2 ^ 52"
  shows "sint (percentile fl p (recorded ns)) \<le> sint (percentile fl q (recorded ns))"
    "sint (percentile fl q (recorded ns)) \<le> sint (hg_max (recorded ns))"
    "0 \<le> sint (percentile fl p (recorded ns))"
proof -
  have len: "length ns < 2 ^ 64" using assms(6) by simp
  obtain t u where t: "percentile_target fl p (of_nat (length ns)) = of_nat t" "percentile_target fl q (of_nat (length ns)) = of_nat u"
    "t \<le> u" "u \<le> length ns" using percentile_target_mono [OF assms(1-4,6)] .
  let ?xs = "sort_key sint (map clamp ns)" and ?v = "\<lambda>t. bucket_lower_bound (sample_bucket (sort_key sint (map clamp ns) ! (t - 1)))"
  have vp: "percentile fl p (recorded ns) = (if t = 0 then 0 else ?v t)"
    by (rule percentile_value [OF assms(5) len _ _ _ t(1)]) (use assms(2-4) t(3,4) in linarith)+
  have vq: "percentile fl q (recorded ns) = (if u = 0 then 0 else ?v u)"
    by (rule percentile_value [OF assms(5) len _ _ _ t(2)]) (use assms(2-4) t(3,4) in linarith)+
  have mem: "?xs ! (k - 1) \<in> clamp ` set ns" if "0 < k" "k \<le> length ns" for k
    using nth_mem [of "k - 1" ?xs] that by simp
  have clamped: "0 \<le> sint x" if "x \<in> clamp ` set ns" for x using that by (elim imageE) (simp add: clamp_nonneg)
  note nonneg = clamped [OF mem]
  have "sorted (map sint ?xs)" by simp
  then have "sint (?xs ! (t - 1)) \<le> sint (?xs ! (u - 1))" if "0 < t"
    using that t sorted_nth_mono [of "map sint ?xs" "t - 1" "u - 1"] by simp
  then show "sint (percentile fl p (recorded ns)) \<le> sint (percentile fl q (recorded ns))"
    unfolding vp vq using t nonneg [of t] nonneg [of u] sample_bound_mono sample_bound(2) by simp
  show "0 \<le> sint (percentile fl p (recorded ns))" unfolding vp using t nonneg [of t] sample_bound(2) by simp
  note ext = recorded_extremes(2,3) [OF assms(5) len]
  have "0 \<le> sint (hg_max (recorded ns))" using ext(1) by (rule clamped)
  moreover have "sint (?xs ! (u - 1)) \<le> sint (hg_max (recorded ns))" if "0 < u" using mem [OF that t(4)] ext(2) by auto
  ultimately show "sint (percentile fl q (recorded ns)) \<le> sint (hg_max (recorded ns))"
    unfolding vq using t(4) nonneg [of u] sample_bound(1) by (smt (verit) neq0_conv signed_0)
qed

lemma percentile_mono:
  assumes "ieee fl" "0 < p" "p \<le> q" "q \<le> 100" "ns \<noteq> []" "length ns \<le> 2 ^ 52"
  shows "sint (percentile fl p (recorded ns)) \<le> sint (percentile fl q (recorded ns))"
    "sint (percentile fl q (recorded ns)) \<le> sint (hg_max (recorded ns))"
    "0 \<le> sint (percentile fl p (recorded ns))"
proof -
  have len: "length ns < 2 ^ 64" using assms(6) by simp
  have top: "percentile fl 100 (recorded ns) = hg_max (recorded ns)"
    using recorded_extremes(4) [OF assms(5) len] by (simp add: percentile_def)
  have "0 \<le> sint (hg_max (recorded ns))" using recorded_extremes(2) [OF assms(5) len] by (elim imageE) (simp add: clamp_nonneg)
  then show "sint (percentile fl p (recorded ns)) \<le> sint (percentile fl q (recorded ns))"
    "sint (percentile fl q (recorded ns)) \<le> sint (hg_max (recorded ns))" "0 \<le> sint (percentile fl p (recorded ns))"
    using percentile_inner_mono [OF assms(1-3) _ assms(5,6)] percentile_inner_mono(2,3) [OF assms(1,2) order_refl _ assms(5,6)] assms(3,4) top
    by (cases "q = 100"; cases "p = 100"; simp)+
qed

subsection \<open>The percentile against the samples\<close>

text \<open>From 2^53 nanoseconds on every value is counted in the last bucket.\<close>

lemma sample_bucket_clamped:
  assumes "2 ^ 53 \<le> sint x"
  shows "sint (bucket_lower_bound (sample_bucket x)) = 127 * 2 ^ 46"
proof -
  have x: "0 \<le> sint x" using assms by simp
  have "int (2 ^ 53) \<le> int (unat x)" using assms unfolding unat_sint(2) [OF x] by simp
  then have big: "2 ^ 53 \<le> unat x" by (simp only: of_nat_le_iff)
  then have "8192 \<le> unat x" by simp
  then obtain k where k: "2 ^ k \<le> unat x" "unat x < 2 ^ Suc k" "13 \<le> k" by (rule octave_exists)
  from big k(2) have "(2::nat) ^ 53 < 2 ^ Suc k" by (rule le_less_trans)
  then have "53 < Suc k" by (rule power_less_imp_less_exp [rotated]) simp
  then have "8192 + (53 - 13) * 64 \<le> bucket_index x" unfolding bucket_index_octave(1) [OF x k] by simp
  then have last: "sample_bucket x = 8192 + (52 - 13) * 64 + 63"
    by (simp add: sample_bucket_def kNumBuckets_def kLinearRangeNs_def kSubBucketsPerOctave_def kMaxOctaves_def)
  have "unat (bucket_lower_bound (sample_bucket x)) = 2 ^ 52 + 63 * 2 ^ (52 - 6)"
    unfolding last by (rule bucket_lower_bound_octave) simp_all
  then show ?thesis unfolding sample_bound(3) [OF x] by simp
qed

lemma sample_bucket_exact:
  assumes "0 \<le> sint x" "sint x < 8192"
  shows "bucket_lower_bound (sample_bucket x) = x"
proof -
  have small: "unat x < 8192" using assms unat_sint(1) [OF assms(1)] by simp
  then have "sample_bucket x = bucket_index x"
    using assms(1) by (simp add: sample_bucket_def bucket_index_linear kNumBuckets_def kLinearRangeNs_def kSubBucketsPerOctave_def kMaxOctaves_def)
  then show ?thesis using small bucket_error(3) [OF assms(1)] by (simp add: word_unat_eq_iff)
qed

text \<open>C26: the percentile of a histogram that has recorded at least one and at most 2^52 samples, of any
  size, with any rounding that obeys \<open>ieee\<close>.  At 0 and 100 it is the exact
  minimum and maximum of the samples (a negative sample counts as 0).  In between it computes a target
  rank of at most the number of samples.  For the rank 0, which a small enough \<open>p\<close> gives, it returns 0 whatever
  the samples are.  For a rank \<open>t\<close> from 1 on let \<open>x\<close> be the \<open>t\<close>-th smallest sample: the percentile is never more
  than \<open>x\<close>, it is exactly \<open>x\<close> below 8192 nanoseconds, it is less than \<open>x\<close> by at most a 64th of \<open>x\<close> below 2^53
  nanoseconds, and from 2^53 on it is 127 * 2^46 (about 103 days) however large \<open>x\<close> is, because the bucket
  index is clamped: there is then no bound on the relative error.\<close>

theorem percentile_correct:
  fixes p :: real
  assumes "ieee fl" "ns \<noteq> []" "length ns \<le> 2 ^ 52"
  defines "t \<equiv> unat (percentile_target fl p (of_nat (length ns)))"
    and "v \<equiv> percentile fl p (recorded ns)" and "xs \<equiv> sort_key sint (map clamp ns)"
  shows "(p \<le> 0 \<longrightarrow> v \<in> clamp ` set ns \<and> (\<forall>n \<in> set ns. sint v \<le> sint (clamp n))) \<and>
    (100 \<le> p \<longrightarrow> v \<in> clamp ` set ns \<and> (\<forall>n \<in> set ns. sint (clamp n) \<le> sint v)) \<and>
    (0 < p \<and> p < 100 \<longrightarrow> t \<le> length ns \<and> (t = 0 \<longrightarrow> v = 0) \<and>
      (0 < t \<longrightarrow> sint v \<le> sint (xs ! (t - 1)) \<and> (sint (xs ! (t - 1)) < 8192 \<longrightarrow> v = xs ! (t - 1)) \<and>
        (sint (xs ! (t - 1)) < 2 ^ 53 \<longrightarrow> 64 * (sint (xs ! (t - 1)) - sint v) \<le> sint (xs ! (t - 1))) \<and>
        (2 ^ 53 \<le> sint (xs ! (t - 1)) \<longrightarrow> sint v = 127 * 2 ^ 46)))"
proof -
  have len: "length ns < 2 ^ 64" using assms(3) by simp
  note ext = recorded_extremes [OF assms(2) len]
  have rank: "t \<le> length ns \<and> (t = 0 \<longrightarrow> v = 0) \<and>
      (0 < t \<longrightarrow> v = bucket_lower_bound (sample_bucket (xs ! (t - 1))) \<and> 0 \<le> sint (xs ! (t - 1)))" if p: "0 < p" "p < 100"
  proof -
    note bounds = percentile_target_bounds(1,3) [OF assms(1) less_imp_le [OF p(1)] less_imp_le [OF p(2)] assms(3)]
    have t: "t \<le> length ns" using bounds by (simp add: t_def)
    have "percentile_target fl p (of_nat (length ns)) = of_nat t" by (simp add: t_def)
    note val = percentile_value [OF assms(2) len p t this, folded v_def xs_def]
    have "0 \<le> sint (xs ! (t - 1))" if "0 < t"
    proof -
      have "t - 1 < length xs" using t that by (simp add: xs_def)
      then have "xs ! (t - 1) \<in> set xs" by (rule nth_mem)
      then have "xs ! (t - 1) \<in> clamp ` set ns" by (simp add: xs_def)
      then show ?thesis by (elim imageE) (simp add: clamp_nonneg)
    qed
    with t val show ?thesis by simp
  qed
  have "v = hg_min (recorded ns)" if "p \<le> 0" using that ext(4) by (simp add: v_def percentile_def)
  moreover have "v = hg_max (recorded ns)" if "100 \<le> p" using that ext(4) by (simp add: v_def percentile_def)
  moreover have "0 < p \<and> p < 100 \<longrightarrow> t \<le> length ns \<and> (t = 0 \<longrightarrow> v = 0) \<and>
      (0 < t \<longrightarrow> sint v \<le> sint (xs ! (t - 1)) \<and> (sint (xs ! (t - 1)) < 8192 \<longrightarrow> v = xs ! (t - 1)) \<and>
        (sint (xs ! (t - 1)) < 2 ^ 53 \<longrightarrow> 64 * (sint (xs ! (t - 1)) - sint v) \<le> sint (xs ! (t - 1))) \<and>
        (2 ^ 53 \<le> sint (xs ! (t - 1)) \<longrightarrow> sint v = 127 * 2 ^ 46))"
    using rank sample_bound(1) sample_bucket_exact sample_bucket_error(2) sample_bucket_clamped by simp
  ultimately show ?thesis using ext by simp
qed

theorem percentile_correct_witness:
  "percentile (\<lambda>x. x) (1 / 10 ^ 9) (recorded [5000]) = 0 \<and> percentile (\<lambda>x. x) 0 (recorded [5000]) = 5000 \<and>
   percentile (\<lambda>x. x) 50 (recorded [5000]) = 5000 \<and> sint (percentile (\<lambda>x. x) 50 (recorded [2 ^ 60])) = 127 * 2 ^ 46"
proof -
  have tiny: "percentile_target (\<lambda>x. x) (1 / 10 ^ 9) 1 = 0" "percentile_target (\<lambda>x. x) 50 1 = 1"
    by (simp_all add: percentile_target_def ceiling_eq_iff)
  show ?thesis
    using percentile_correct [OF ieee_exact, of "[5000]" "1 / 10 ^ 9"] percentile_correct [OF ieee_exact, of "[5000]" 0]
      percentile_correct [OF ieee_exact, of "[5000]" 50] percentile_correct [OF ieee_exact, of "[2 ^ 60]" 50] tiny
    by (simp add: clamp_def)
qed

end
