(* ===== verification/Strategies.thy ===== *)
theory Strategies
  imports Messages Metrics
begin

text \<open>
  \<open>strategy/market_maker.hpp\<close>, \<open>strategy/arbitrage.hpp\<close> and \<open>strategy/vwap.hpp\<close>: pure decision
  logic that turns what a strategy sees into wire messages.  Each class is a record, each method
  a function that returns the messages and the updated record.  The floating-point arithmetic of
  the volume curve is as in theory \<open>Metrics\<close>, with the library's cosine a further parameter.
\<close>

subsection \<open>The market maker\<close>

record market_maker_config =
  mmc_symbol :: symbol_id
  mmc_client :: client_id
  mmc_half_spread_ticks :: i64
  mmc_quote_size :: i64
  mmc_max_inventory :: i64
  mmc_initial_reference_price :: price

record market_maker_action =
  mma_new_bid :: "new_order_message option"
  mma_new_ask :: "new_order_message option"
  mma_replace_bid :: "replace_order_message option"
  mma_replace_ask :: "replace_order_message option"
  mma_cancel_bid :: "cancel_order_message option"
  mma_cancel_ask :: "cancel_order_message option"

record market_maker =
  mm_config :: market_maker_config
  mm_next_order_id :: u64
  mm_resting_bid_id :: "order_id option"
  mm_resting_ask_id :: "order_id option"
  mm_last_quoted_bid :: price
  mm_last_quoted_ask :: price

definition market_maker_init :: "market_maker_config \<Rightarrow> u64 \<Rightarrow> market_maker" where
  "market_maker_init cfg first_order_id = \<lparr>mm_config = cfg, mm_next_order_id = first_order_id,
     mm_resting_bid_id = None, mm_resting_ask_id = None, mm_last_quoted_bid = 0, mm_last_quoted_ask = 0\<rparr>"

definition no_action :: market_maker_action where
  "no_action = \<lparr>mma_new_bid = None, mma_new_ask = None, mma_replace_bid = None, mma_replace_ask = None,
     mma_cancel_bid = None, mma_cancel_ask = None\<rparr>"

text \<open>Signed division by two truncates towards zero.\<close>

definition half :: "i64 \<Rightarrow> i64" where
  "half v = word_of_int (if sint v < 0 then - ((- sint v) div 2) else sint v div 2)"

definition compute_mid :: "market_maker_config \<Rightarrow> price option \<Rightarrow> price option \<Rightarrow> price" where
  "compute_mid cfg best_bid best_ask =
     (case (best_bid, best_ask) of
        (Some b, Some a) \<Rightarrow> half (b + a)
      | (Some b, None) \<Rightarrow> b + mmc_half_spread_ticks cfg
      | (None, Some a) \<Rightarrow> a - mmc_half_spread_ticks cfg
      | (None, None) \<Rightarrow> mmc_initial_reference_price cfg)"

definition mm_make_new_order :: "market_maker \<Rightarrow> side \<Rightarrow> price \<Rightarrow> new_order_message \<times> market_maker" where
  "mm_make_new_order m s price =
     (\<lparr>nom_order_id = mm_next_order_id m, nom_price = price, nom_quantity = mmc_quote_size (mm_config m),
        nom_client_id = mmc_client (mm_config m), nom_symbol_id = mmc_symbol (mm_config m), nom_side = s,
        nom_order_type = Limit, nom_time_in_force = Day\<rparr>,
      m\<lparr>mm_next_order_id := mm_next_order_id m + 1\<rparr>)"

definition mm_make_replace :: "market_maker \<Rightarrow> order_id \<Rightarrow> price \<Rightarrow> replace_order_message" where
  "mm_make_replace m oid new_price = \<lparr>rom_order_id = oid, rom_new_price = new_price,
     rom_new_quantity = mmc_quote_size (mm_config m), rom_client_id = mmc_client (mm_config m),
     rom_symbol_id = mmc_symbol (mm_config m)\<rparr>"

definition mm_make_cancel :: "market_maker \<Rightarrow> order_id \<Rightarrow> cancel_order_message" where
  "mm_make_cancel m oid = \<lparr>com_order_id = oid, com_client_id = mmc_client (mm_config m), com_symbol_id = mmc_symbol (mm_config m)\<rparr>"

text \<open>The halves of \<open>on_tick\<close> for the bid and for the ask.\<close>

definition quote_bid :: "bool \<Rightarrow> price \<Rightarrow> market_maker_action \<Rightarrow> market_maker \<Rightarrow> market_maker_action \<times> market_maker" where
  "quote_bid allowed target act m =
     (if allowed then
        (case mm_resting_bid_id m of
           None \<Rightarrow>
             let (msg, m) = mm_make_new_order m Buy target
             in (act\<lparr>mma_new_bid := Some msg\<rparr>, m\<lparr>mm_resting_bid_id := Some (nom_order_id msg), mm_last_quoted_bid := target\<rparr>)
         | Some oid \<Rightarrow>
             if target \<noteq> mm_last_quoted_bid m
             then (act\<lparr>mma_replace_bid := Some (mm_make_replace m oid target)\<rparr>, m\<lparr>mm_last_quoted_bid := target\<rparr>)
             else (act, m))
      else (case mm_resting_bid_id m of
           Some oid \<Rightarrow> (act\<lparr>mma_cancel_bid := Some (mm_make_cancel m oid)\<rparr>, m\<lparr>mm_resting_bid_id := None\<rparr>)
         | None \<Rightarrow> (act, m)))"

definition quote_ask :: "bool \<Rightarrow> price \<Rightarrow> market_maker_action \<Rightarrow> market_maker \<Rightarrow> market_maker_action \<times> market_maker" where
  "quote_ask allowed target act m =
     (if allowed then
        (case mm_resting_ask_id m of
           None \<Rightarrow>
             let (msg, m) = mm_make_new_order m Sell target
             in (act\<lparr>mma_new_ask := Some msg\<rparr>, m\<lparr>mm_resting_ask_id := Some (nom_order_id msg), mm_last_quoted_ask := target\<rparr>)
         | Some oid \<Rightarrow>
             if target \<noteq> mm_last_quoted_ask m
             then (act\<lparr>mma_replace_ask := Some (mm_make_replace m oid target)\<rparr>, m\<lparr>mm_last_quoted_ask := target\<rparr>)
             else (act, m))
      else (case mm_resting_ask_id m of
           Some oid \<Rightarrow> (act\<lparr>mma_cancel_ask := Some (mm_make_cancel m oid)\<rparr>, m\<lparr>mm_resting_ask_id := None\<rparr>)
         | None \<Rightarrow> (act, m)))"

definition on_tick :: "market_maker \<Rightarrow> price option \<Rightarrow> price option \<Rightarrow> quantity \<Rightarrow> market_maker_action \<times> market_maker" where
  "on_tick m best_bid best_ask inventory =
     (let cfg = mm_config m; mid = compute_mid cfg best_bid best_ask;
          target_bid = mid - mmc_half_spread_ticks cfg; target_ask = mid + mmc_half_spread_ticks cfg;
          (act, m) = quote_bid (sint inventory < sint (mmc_max_inventory cfg)) target_bid no_action m
      in quote_ask (sint (- mmc_max_inventory cfg) < sint inventory) target_ask act m)"

definition notify_order_gone :: "order_id \<Rightarrow> market_maker \<Rightarrow> market_maker" where
  "notify_order_gone oid m =
     (let m = (if mm_resting_bid_id m = Some oid then m\<lparr>mm_resting_bid_id := None\<rparr> else m)
      in if mm_resting_ask_id m = Some oid then m\<lparr>mm_resting_ask_id := None\<rparr> else m)"

subsection \<open>Arbitrage between two symbols\<close>

record arbitrage_config =
  ac_symbol_a :: symbol_id
  ac_symbol_b :: symbol_id
  ac_client :: client_id
  ac_clip_size :: i64
  ac_min_edge_ticks :: i64

record arbitrage_action =
  aa_buy_leg :: new_order_message
  aa_sell_leg :: new_order_message
  aa_edge_ticks :: i64

record arbitrage =
  arb_config :: arbitrage_config
  arb_next_order_id :: u64

definition arbitrage_init :: "arbitrage_config \<Rightarrow> u64 \<Rightarrow> arbitrage" where
  "arbitrage_init cfg first_order_id = \<lparr>arb_config = cfg, arb_next_order_id = first_order_id\<rparr>"

definition make_leg :: "arbitrage \<Rightarrow> symbol_id \<Rightarrow> side \<Rightarrow> price \<Rightarrow> new_order_message \<times> arbitrage" where
  "make_leg s symbol sd price =
     (\<lparr>nom_order_id = arb_next_order_id s, nom_price = price, nom_quantity = ac_clip_size (arb_config s),
        nom_client_id = ac_client (arb_config s), nom_symbol_id = symbol, nom_side = sd,
        nom_order_type = Limit, nom_time_in_force = IOC\<rparr>,
      s\<lparr>arb_next_order_id := arb_next_order_id s + 1\<rparr>)"

definition make_action :: "arbitrage \<Rightarrow> symbol_id \<Rightarrow> price \<Rightarrow> symbol_id \<Rightarrow> price \<Rightarrow> i64 \<Rightarrow> arbitrage_action \<times> arbitrage" where
  "make_action s buy_symbol buy_price sell_symbol sell_price edge =
     (let (buy, s) = make_leg s buy_symbol Buy buy_price; (sell, s) = make_leg s sell_symbol Sell sell_price
      in (\<lparr>aa_buy_leg = buy, aa_sell_leg = sell, aa_edge_ticks = edge\<rparr>, s))"

text \<open>Buying the first symbol at its ask and selling the second at its bid, where that pays.\<close>

definition edge_between :: "arbitrage \<Rightarrow> price option \<Rightarrow> price option \<Rightarrow> i64 option" where
  "edge_between s bid ask =
     (case (bid, ask) of
        (Some b, Some a) \<Rightarrow> if sint (ac_min_edge_ticks (arb_config s)) \<le> sint (b - a) then Some (b - a) else None
      | _ \<Rightarrow> None)"

definition arbitrage_check :: "arbitrage \<Rightarrow> price option \<Rightarrow> price option \<Rightarrow> price option \<Rightarrow> price option \<Rightarrow>
    arbitrage_action option \<times> arbitrage" where
  "arbitrage_check s a_best_bid a_best_ask b_best_bid b_best_ask =
     (let cfg = arb_config s
      in case edge_between s b_best_bid a_best_ask of
        Some edge \<Rightarrow>
          let (act, s) = make_action s (ac_symbol_a cfg) (the a_best_ask) (ac_symbol_b cfg) (the b_best_bid) edge in (Some act, s)
      | None \<Rightarrow>
          (case edge_between s a_best_bid b_best_ask of
             Some edge \<Rightarrow>
               let (act, s) = make_action s (ac_symbol_b cfg) (the b_best_ask) (ac_symbol_a cfg) (the a_best_bid) edge in (Some act, s)
           | None \<Rightarrow> (None, s)))"

subsection \<open>Slicing a parent order\<close>

record vwap_config =
  vc_symbol :: symbol_id
  vc_client :: client_id
  vc_side :: side
  vc_total_quantity :: i64
  vc_num_slices :: nat
  vc_limit_price :: price

text \<open>\<open>std::llround\<close>: to the nearest integer, halves away from zero.\<close>

definition llround :: "real \<Rightarrow> int" where
  "llround x = (if 0 \<le> x then \<lfloor>x + 1 / 2\<rfloor> else - \<lfloor>1 / 2 - x\<rfloor>)"

definition slice_weight :: "(real \<Rightarrow> real) \<Rightarrow> (real \<Rightarrow> real) \<Rightarrow> nat \<Rightarrow> nat \<Rightarrow> real" where
  "slice_weight fl cosine n i =
     (let t = (if 1 < n then fl (fl (real i) / fl (real (n - 1))) else 0)
      in fl (1 + cosine (fl (fl (2 * fl pi) * t))))"

definition slice_weight_sum :: "(real \<Rightarrow> real) \<Rightarrow> (real \<Rightarrow> real) \<Rightarrow> nat \<Rightarrow> real" where
  "slice_weight_sum fl cosine n = foldl (\<lambda>sum i. fl (sum + slice_weight fl cosine n i)) 0 [0..<n]"

definition slice_size :: "(real \<Rightarrow> real) \<Rightarrow> (real \<Rightarrow> real) \<Rightarrow> vwap_config \<Rightarrow> nat \<Rightarrow> i64" where
  "slice_size fl cosine cfg i =
     word_of_int (llround (fl (fl (of_int (sint (vc_total_quantity cfg))) *
       fl (slice_weight fl cosine (vc_num_slices cfg) i / slice_weight_sum fl cosine (vc_num_slices cfg)))))"

definition build_slice_sizes :: "(real \<Rightarrow> real) \<Rightarrow> (real \<Rightarrow> real) \<Rightarrow> vwap_config \<Rightarrow> i64 list" where
  "build_slice_sizes fl cosine cfg =
     (let sizes = map (slice_size fl cosine cfg) [0..<vc_num_slices cfg - 1]; allocated = foldl (+) 0 sizes
      in sizes @ [vc_total_quantity cfg - allocated])"

record vwap_executor =
  ve_config :: vwap_config
  ve_next_order_id :: u64
  ve_slice_sizes :: "i64 list"
  ve_slices_sent :: nat

definition vwap_init :: "(real \<Rightarrow> real) \<Rightarrow> (real \<Rightarrow> real) \<Rightarrow> vwap_config \<Rightarrow> u64 \<Rightarrow> vwap_executor" where
  "vwap_init fl cosine cfg first_order_id = \<lparr>ve_config = cfg, ve_next_order_id = first_order_id,
     ve_slice_sizes = build_slice_sizes fl cosine cfg, ve_slices_sent = 0\<rparr>"

definition vwap_done :: "vwap_executor \<Rightarrow> bool" where
  "vwap_done v \<longleftrightarrow> length (ve_slice_sizes v) \<le> ve_slices_sent v"

definition next_slice :: "vwap_executor \<Rightarrow> new_order_message option \<times> vwap_executor" where
  "next_slice v =
     (if vwap_done v then (None, v)
      else (Some \<lparr>nom_order_id = ve_next_order_id v, nom_price = vc_limit_price (ve_config v),
               nom_quantity = ve_slice_sizes v ! ve_slices_sent v, nom_client_id = vc_client (ve_config v),
               nom_symbol_id = vc_symbol (ve_config v), nom_side = vc_side (ve_config v),
               nom_order_type = Limit, nom_time_in_force = IOC\<rparr>,
            v\<lparr>ve_slices_sent := ve_slices_sent v + 1, ve_next_order_id := ve_next_order_id v + 1\<rparr>))"

end
