(* ===== verification/Strategy_Properties.thy ===== *)
theory Strategy_Properties
  imports Strategies
begin

text \<open>The properties of the three strategies.\<close>

subsection \<open>The market maker's quotes\<close>

text \<open>
  The quotes of a market maker as the exchange sees them: the live orders with their sides, and
  all ids used so far.  An action is sound if it opens a quote only under a fresh id and on a side
  that has none, and replaces and cancels live quotes only.
\<close>

type_synonym quotes = "(order_id \<times> side) set"

definition quoted :: "order_id option \<Rightarrow> side \<Rightarrow> quotes" where
  "quoted oid s = (case oid of None \<Rightarrow> {} | Some i \<Rightarrow> {(i, s)})"

definition side_sound :: "order_id set \<Rightarrow> quotes \<Rightarrow> side \<Rightarrow> new_order_message option \<Rightarrow> replace_order_message option \<Rightarrow>
    cancel_order_message option \<Rightarrow> bool" where
  "side_sound used live s new rep can \<longleftrightarrow>
     (\<forall>n. new = Some n \<longrightarrow> nom_order_id n \<notin> used \<and> nom_side n = s \<and> (\<forall>i. (i, s) \<notin> live)) \<and>
     (\<forall>r. rep = Some r \<longrightarrow> (rom_order_id r, s) \<in> live) \<and> (\<forall>c. can = Some c \<longrightarrow> (com_order_id c, s) \<in> live)"

definition action_sound :: "order_id set \<Rightarrow> quotes \<Rightarrow> market_maker_action \<Rightarrow> bool" where
  "action_sound used live a \<longleftrightarrow>
     side_sound used live Buy (mma_new_bid a) (mma_replace_bid a) (mma_cancel_bid a) \<and>
     side_sound (used \<union> nom_order_id ` set_option (mma_new_bid a)) live Sell (mma_new_ask a) (mma_replace_ask a) (mma_cancel_ask a)"

definition live_after :: "market_maker_action \<Rightarrow> quotes \<Rightarrow> quotes" where
  "live_after a live = live - quoted (map_option com_order_id (mma_cancel_bid a)) Buy
       - quoted (map_option com_order_id (mma_cancel_ask a)) Sell \<union>
     quoted (map_option nom_order_id (mma_new_bid a)) Buy \<union> quoted (map_option nom_order_id (mma_new_ask a)) Sell"

definition used_after :: "market_maker_action \<Rightarrow> order_id set \<Rightarrow> order_id set" where
  "used_after a used = used \<union> nom_order_id ` set_option (mma_new_bid a) \<union> nom_order_id ` set_option (mma_new_ask a)"

datatype maker_event = Tick "price option" "price option" quantity | Gone order_id

text \<open>Whether all actions were sound, the market maker, its live quotes and the ids used.\<close>

fun maker_run :: "maker_event list \<Rightarrow> market_maker \<Rightarrow> quotes \<Rightarrow> order_id set \<Rightarrow> bool \<times> market_maker \<times> quotes \<times> order_id set" where
  "maker_run [] m live used = (True, m, live, used)"
| "maker_run (Tick bid ask position # evs) m live used =
     (let (a, m') = on_tick m bid ask position; (ok, r) = maker_run evs m' (live_after a live) (used_after a used)
      in (action_sound used live a \<and> ok, r))"
| "maker_run (Gone oid # evs) m live used =
     maker_run evs (notify_order_gone oid m) (live - {(oid, Buy), (oid, Sell)}) used"

definition tracked :: "market_maker \<Rightarrow> quotes" where
  "tracked m = quoted (mm_resting_bid_id m) Buy \<union> quoted (mm_resting_ask_id m) Sell"

definition ids_below :: "order_id set \<Rightarrow> market_maker \<Rightarrow> bool" where
  "ids_below used m \<longleftrightarrow> (\<forall>i \<in> used. unat i < unat (mm_next_order_id m))"

lemma next_id: "unat (mm_next_order_id m) + 1 < 2 ^ 64 \<Longrightarrow> unat (mm_next_order_id m + 1) = unat (mm_next_order_id m) + 1"
  by (simp add: unat_word_ariths)

lemma mm_make_new_order_simps [simp]:
  "nom_order_id (fst (mm_make_new_order m s p)) = mm_next_order_id m" "nom_side (fst (mm_make_new_order m s p)) = s"
  "nom_price (fst (mm_make_new_order m s p)) = p" "nom_quantity (fst (mm_make_new_order m s p)) = mmc_quote_size (mm_config m)"
  "snd (mm_make_new_order m s p) = m\<lparr>mm_next_order_id := mm_next_order_id m + 1\<rparr>"
  by (simp_all add: mm_make_new_order_def)

text \<open>What one tick does, side by side.\<close>

lemma quote_bid_cases:
  "al \<and> mm_resting_bid_id m = None \<and> quote_bid al tg a m = (a\<lparr>mma_new_bid := Some (fst (mm_make_new_order m Buy tg))\<rparr>,
       m\<lparr>mm_next_order_id := mm_next_order_id m + 1, mm_resting_bid_id := Some (mm_next_order_id m), mm_last_quoted_bid := tg\<rparr>) \<or>
   (\<exists>oid. al \<and> mm_resting_bid_id m = Some oid \<and> tg \<noteq> mm_last_quoted_bid m \<and>
       quote_bid al tg a m = (a\<lparr>mma_replace_bid := Some (mm_make_replace m oid tg)\<rparr>, m\<lparr>mm_last_quoted_bid := tg\<rparr>)) \<or>
   al \<and> mm_resting_bid_id m \<noteq> None \<and> tg = mm_last_quoted_bid m \<and> quote_bid al tg a m = (a, m) \<or>
   (\<exists>oid. \<not> al \<and> mm_resting_bid_id m = Some oid \<and>
       quote_bid al tg a m = (a\<lparr>mma_cancel_bid := Some (mm_make_cancel m oid)\<rparr>, m\<lparr>mm_resting_bid_id := None\<rparr>)) \<or>
   \<not> al \<and> mm_resting_bid_id m = None \<and> quote_bid al tg a m = (a, m)"
  by (cases al; cases "mm_resting_bid_id m"; cases "tg = mm_last_quoted_bid m")
    (simp_all add: quote_bid_def mm_make_new_order_def)

lemma quote_ask_cases:
  "al \<and> mm_resting_ask_id m = None \<and> quote_ask al tg a m = (a\<lparr>mma_new_ask := Some (fst (mm_make_new_order m Sell tg))\<rparr>,
       m\<lparr>mm_next_order_id := mm_next_order_id m + 1, mm_resting_ask_id := Some (mm_next_order_id m), mm_last_quoted_ask := tg\<rparr>) \<or>
   (\<exists>oid. al \<and> mm_resting_ask_id m = Some oid \<and> tg \<noteq> mm_last_quoted_ask m \<and>
       quote_ask al tg a m = (a\<lparr>mma_replace_ask := Some (mm_make_replace m oid tg)\<rparr>, m\<lparr>mm_last_quoted_ask := tg\<rparr>)) \<or>
   al \<and> mm_resting_ask_id m \<noteq> None \<and> tg = mm_last_quoted_ask m \<and> quote_ask al tg a m = (a, m) \<or>
   (\<exists>oid. \<not> al \<and> mm_resting_ask_id m = Some oid \<and>
       quote_ask al tg a m = (a\<lparr>mma_cancel_ask := Some (mm_make_cancel m oid)\<rparr>, m\<lparr>mm_resting_ask_id := None\<rparr>)) \<or>
   \<not> al \<and> mm_resting_ask_id m = None \<and> quote_ask al tg a m = (a, m)"
  by (cases al; cases "mm_resting_ask_id m"; cases "tg = mm_last_quoted_ask m")
    (simp_all add: quote_ask_def mm_make_new_order_def)

lemma ids_below_next:
  assumes "ids_below used m" "unat (mm_next_order_id m) + 1 < 2 ^ 64"
  shows "mm_next_order_id m \<notin> used" "mm_next_order_id m' = mm_next_order_id m + 1 \<Longrightarrow> ids_below (insert (mm_next_order_id m) used) m'"
    "mm_next_order_id m' = mm_next_order_id m \<Longrightarrow> ids_below used m'"
  using assms next_id [OF assms(2)] by (auto simp: ids_below_def)

lemmas quote_defs = side_sound_def quoted_def no_action_def mm_make_replace_def mm_make_cancel_def

lemma quote_bid_sound:
  assumes "quote_bid al tg no_action m = (a, m')" "ids_below used m" "unat (mm_next_order_id m) + 1 < 2 ^ 64"
  shows "side_sound used (tracked m) Buy (mma_new_bid a) (mma_replace_bid a) (mma_cancel_bid a) \<and>
    mm_resting_ask_id m' = mm_resting_ask_id m \<and> ids_below (used \<union> nom_order_id ` set_option (mma_new_bid a)) m' \<and>
    quoted (mm_resting_bid_id m) Buy - quoted (map_option com_order_id (mma_cancel_bid a)) Buy \<union>
       quoted (map_option nom_order_id (mma_new_bid a)) Buy = quoted (mm_resting_bid_id m') Buy \<and>
    unat (mm_next_order_id m') \<le> unat (mm_next_order_id m) + 1 \<and>
    mma_new_ask a = None \<and> mma_replace_ask a = None \<and> mma_cancel_ask a = None"
proof -
  note ids = ids_below_next [OF assms(2,3)] and nx = next_id [OF assms(3)]
  have tr: "(i, Buy) \<in> tracked m \<longleftrightarrow> mm_resting_bid_id m = Some i" for i by (auto simp: tracked_def quoted_def split: option.splits)
  show ?thesis
    using quote_bid_cases [of al m tg no_action] assms(1) by (elim disjE exE conjE) (simp_all add: ids nx tr quote_defs)
qed

lemma quote_ask_sound:
  assumes "quote_ask al tg a0 m = (a, m')" "ids_below used m" "unat (mm_next_order_id m) + 1 < 2 ^ 64"
    "mma_new_ask a0 = None" "mma_replace_ask a0 = None" "mma_cancel_ask a0 = None"
    "\<And>i. (i, Sell) \<in> live \<longleftrightarrow> mm_resting_ask_id m = Some i"
  shows "side_sound used live Sell (mma_new_ask a) (mma_replace_ask a) (mma_cancel_ask a) \<and>
    mm_resting_bid_id m' = mm_resting_bid_id m \<and> ids_below (used \<union> nom_order_id ` set_option (mma_new_ask a)) m' \<and>
    quoted (mm_resting_ask_id m) Sell - quoted (map_option com_order_id (mma_cancel_ask a)) Sell \<union>
       quoted (map_option nom_order_id (mma_new_ask a)) Sell = quoted (mm_resting_ask_id m') Sell \<and>
    unat (mm_next_order_id m') \<le> unat (mm_next_order_id m) + 1 \<and>
    mma_new_bid a = mma_new_bid a0 \<and> mma_replace_bid a = mma_replace_bid a0 \<and> mma_cancel_bid a = mma_cancel_bid a0"
proof -
  note ids = ids_below_next [OF assms(2,3)] and nx = next_id [OF assms(3)]
  show ?thesis
    using quote_ask_cases [of al m tg a0] assms(1) by (elim disjE exE conjE) (simp_all add: ids nx assms(4-7) quote_defs)
qed

lemma on_tick_sound:
  assumes "on_tick m bid ask position = (a, m')" "ids_below used m" "unat (mm_next_order_id m) + 2 < 2 ^ 64"
  shows "action_sound used (tracked m) a \<and> live_after a (tracked m) = tracked m' \<and> ids_below (used_after a used) m' \<and>
    unat (mm_next_order_id m') \<le> unat (mm_next_order_id m) + 2"
proof -
  let ?mid = "compute_mid (mm_config m) bid ask"
  obtain a1 m1 where b: "quote_bid (sint position < sint (mmc_max_inventory (mm_config m))) (?mid - mmc_half_spread_ticks (mm_config m))
      no_action m = (a1, m1)" by fastforce
  have k: "quote_ask (sint (- mmc_max_inventory (mm_config m)) < sint position) (?mid + mmc_half_spread_ticks (mm_config m)) a1 m1 = (a, m')"
    using assms(1) by (simp add: on_tick_def Let_def b)
  have room: "unat (mm_next_order_id m) + 1 < 2 ^ 64" using assms(3) by simp
  note s1 = quote_bid_sound [OF b assms(2) room]
  have tr: "(i, Sell) \<in> tracked m \<longleftrightarrow> mm_resting_ask_id m1 = Some i" for i
    using s1 by (auto simp: tracked_def quoted_def split: option.splits)
  let ?used = "used \<union> nom_order_id ` set_option (mma_new_bid a1)"
  have s2: "side_sound ?used (tracked m) Sell (mma_new_ask a) (mma_replace_ask a) (mma_cancel_ask a) \<and>
    mm_resting_bid_id m' = mm_resting_bid_id m1 \<and> ids_below (?used \<union> nom_order_id ` set_option (mma_new_ask a)) m' \<and>
    quoted (mm_resting_ask_id m1) Sell - quoted (map_option com_order_id (mma_cancel_ask a)) Sell \<union>
       quoted (map_option nom_order_id (mma_new_ask a)) Sell = quoted (mm_resting_ask_id m') Sell \<and>
    unat (mm_next_order_id m') \<le> unat (mm_next_order_id m1) + 1 \<and>
    mma_new_bid a = mma_new_bid a1 \<and> mma_replace_bid a = mma_replace_bid a1 \<and> mma_cancel_bid a = mma_cancel_bid a1"
    using s1 assms(3) tr by (intro quote_ask_sound [OF k]) auto
  have "live_after a (tracked m) =
      (quoted (mm_resting_bid_id m) Buy - quoted (map_option com_order_id (mma_cancel_bid a)) Buy \<union> quoted (map_option nom_order_id (mma_new_bid a)) Buy) \<union>
      (quoted (mm_resting_ask_id m) Sell - quoted (map_option com_order_id (mma_cancel_ask a)) Sell \<union> quoted (map_option nom_order_id (mma_new_ask a)) Sell)"
    by (auto simp: live_after_def tracked_def quoted_def split: option.splits)
  also have "\<dots> = tracked m'" using s1 s2 by (simp add: tracked_def)
  finally show ?thesis using s1 s2 by (auto simp: action_sound_def used_after_def)
qed

lemma gone_tracked: "tracked (notify_order_gone oid m) = tracked m - {(oid, Buy), (oid, Sell)}"
  "mm_next_order_id (notify_order_gone oid m) = mm_next_order_id m"
  by (auto simp: notify_order_gone_def tracked_def quoted_def split: option.splits if_splits)

lemma maker_run_sound:
  assumes "maker_run evs m (tracked m) used = (ok, m', live, used')" "ids_below used m"
    "unat (mm_next_order_id m) + 2 * length evs < 2 ^ 64"
  shows "ok \<and> live = tracked m'"
  using assms
proof (induction evs arbitrary: m used ok)
  case (Cons ev evs)
  show ?case
  proof (cases ev)
    case (Tick bid ask position)
    obtain a m1 where t: "on_tick m bid ask position = (a, m1)" by fastforce
    obtain ok1 r where r: "maker_run evs m1 (live_after a (tracked m)) (used_after a used) = (ok1, r)" by (metis surj_pair)
    have "unat (mm_next_order_id m) + 2 < 2 ^ 64" using Cons.prems(3) by simp
    note st = on_tick_sound [OF t Cons.prems(2) this]
    have "r = (m', live, used')" "ok = (action_sound used (tracked m) a \<and> ok1)" using Cons.prems(1) t r by (simp_all add: Tick)
    with r st have "maker_run evs m1 (tracked m1) (used_after a used) = (ok1, m', live, used')" by simp
    then have "ok1 \<and> live = tracked m'" using st Cons.prems(3) by (intro Cons.IH) auto
    with st \<open>ok = _\<close> show ?thesis by simp
  next
    case (Gone oid)
    then have "maker_run evs (notify_order_gone oid m) (tracked (notify_order_gone oid m)) used = (ok, m', live, used')"
      using Cons.prems(1) by (simp add: gone_tracked)
    then show ?thesis
    proof (rule Cons.IH)
      show "ids_below used (notify_order_gone oid m)" using Cons.prems(2) by (simp add: ids_below_def gone_tracked)
      show "unat (mm_next_order_id (notify_order_gone oid m)) + 2 * length evs < 2 ^ 64" using Cons.prems(3) by (simp add: gone_tracked)
    qed
  qed
qed simp

lemma tracked_init: "tracked (market_maker_init cfg first) = {}"
  by (simp add: tracked_def market_maker_init_def quoted_def)

text \<open>C21: a market maker never loses track of its quotes.  Over any sequence of ticks and notices that an
  order is gone it opens a quote only under a fresh order id and only on a side where it has none,
  replaces and cancels only orders that are live, and its live orders are exactly the at most two it
  tracks.\<close>

theorem market_maker_tracks_quotes:
  assumes "unat first + 2 * length evs < 2 ^ 64" "maker_run evs (market_maker_init cfg first) {} {} = (ok, m, live, used)"
  shows "ok \<and> live = quoted (mm_resting_bid_id m) Buy \<union> quoted (mm_resting_ask_id m) Sell"
  using maker_run_sound [of evs "market_maker_init cfg first" "{}" ok m live used] assms
  by (simp add: tracked_init ids_below_def) (simp add: tracked_def market_maker_init_def)

definition demo_maker :: market_maker_config where
  "demo_maker = \<lparr>mmc_symbol = 1, mmc_client = 9, mmc_half_spread_ticks = 5, mmc_quote_size = 10, mmc_max_inventory = 500,
     mmc_initial_reference_price = 1000\<rparr>"

theorem market_maker_tracks_quotes_witness:
  "\<exists>m live used. maker_run [Tick None None 0, Tick (Some 990) (Some 1020) 500, Gone 101] (market_maker_init demo_maker 100) {} {} =
     (True, m, live, used) \<and> mm_resting_bid_id m = None \<and> live = {}"
proof -
  obtain ok m live used where run: "maker_run [Tick None None 0, Tick (Some 990) (Some 1020) 500, Gone 101]
      (market_maker_init demo_maker 100) {} {} = (ok, m, live, used)" by (rule prod_cases4)
  have "mm_resting_bid_id m = None \<and> mm_resting_ask_id m = None"
    using run by (auto simp: on_tick_def quote_bid_def quote_ask_def market_maker_init_def demo_maker_def mm_make_new_order_def
        notify_order_gone_def Let_def compute_mid_def half_def)
  then show ?thesis
    using market_maker_tracks_quotes [OF _ run] run by (simp add: quoted_def)
qed

subsection \<open>The market maker's prices\<close>

definition bid_prices :: "market_maker_action \<Rightarrow> price set" where
  "bid_prices a = nom_price ` set_option (mma_new_bid a) \<union> rom_new_price ` set_option (mma_replace_bid a)"

definition ask_prices :: "market_maker_action \<Rightarrow> price set" where
  "ask_prices a = nom_price ` set_option (mma_new_ask a) \<union> rom_new_price ` set_option (mma_replace_ask a)"

lemma half_between:
  assumes "sint b < sint a" "- (2 ^ 61) \<le> sint b" "sint a \<le> 2 ^ 61"
  shows "sint b \<le> sint (half (b + a))" "sint (half (b + a)) \<le> sint a"
proof -
  let ?k = "sint b + sint a"
  have k: "sint (b + a) = ?k" using assms by (intro sint_plus_i64) simp_all
  let ?h = "if ?k < 0 then - ((- ?k) div 2) else ?k div 2"
  have h: "sint b \<le> ?h" "?h \<le> sint a" using assms(1) by (auto split: if_splits)
  have "half (b + a) = word_of_int ?h" unfolding half_def k by (rule refl)
  moreover have "- (2 ^ 63) \<le> ?h" by (rule order_trans [OF _ h(1)]) (use assms in simp)
  moreover have "?h < 2 ^ 63" by (rule le_less_trans [OF h(2)]) (use assms in simp)
  ultimately have "sint (half (b + a)) = ?h" by (rule sint_i64_eqI)
  with h show "sint b \<le> sint (half (b + a))" "sint (half (b + a)) \<le> sint a" by simp_all
qed

lemma quote_bid_prices:
  assumes "quote_bid al tg no_action m = (a, m')"
  shows "bid_prices a \<subseteq> {tg}" "al \<Longrightarrow> mm_resting_bid_id m' \<noteq> None \<and> mm_last_quoted_bid m' = tg"
    "\<not> al \<Longrightarrow> bid_prices a = {} \<and> mm_resting_bid_id m' = None" "mma_new_ask a = None" "mma_replace_ask a = None" "mm_config m' = mm_config m"
  using quote_bid_cases [of al m tg no_action] assms
  by (auto simp: bid_prices_def no_action_def mm_make_replace_def)

lemma quote_ask_prices:
  assumes "quote_ask al tg a0 m = (a, m')" "mma_new_ask a0 = None" "mma_replace_ask a0 = None"
  shows "ask_prices a \<subseteq> {tg}" "al \<Longrightarrow> mm_resting_ask_id m' \<noteq> None \<and> mm_last_quoted_ask m' = tg"
    "\<not> al \<Longrightarrow> ask_prices a = {} \<and> mm_resting_ask_id m' = None" "bid_prices a = bid_prices a0"
    "mm_resting_bid_id m' = mm_resting_bid_id m" "mm_last_quoted_bid m' = mm_last_quoted_bid m"
  using quote_ask_cases [of al m tg a0] assms
  by (auto simp: ask_prices_def bid_prices_def mm_make_replace_def)

text \<open>The market maker quotes passively and within its inventory limit.  In a market that is not crossed
  every bid it sends is half a spread below the middle and below the best ask, every ask half a spread
  above it and above the best bid.  A side is quoted, at its target, exactly while the inventory is
  inside the limit for that side; outside, its quote is withdrawn and none is sent.\<close>

theorem market_maker_passive:
  assumes "on_tick m (Some b) (Some a) position = (act, m')" "sint b < sint a" "- (2 ^ 61) \<le> sint b" "sint a \<le> 2 ^ 61"
    "0 < sint (mmc_half_spread_ticks (mm_config m))" "sint (mmc_half_spread_ticks (mm_config m)) \<le> 2 ^ 61"
  defines "mid \<equiv> sint (half (b + a))" and "spread \<equiv> sint (mmc_half_spread_ticks (mm_config m))"
    and "limit \<equiv> sint (mmc_max_inventory (mm_config m))"
  shows "(\<forall>p \<in> bid_prices act. sint p = mid - spread \<and> sint p < sint a) \<and>
    (\<forall>p \<in> ask_prices act. sint p = mid + spread \<and> sint b < sint p) \<and>
    (if sint position < limit then mm_resting_bid_id m' \<noteq> None \<and> sint (mm_last_quoted_bid m') = mid - spread
     else bid_prices act = {} \<and> mm_resting_bid_id m' = None) \<and>
    (if sint (- mmc_max_inventory (mm_config m)) < sint position
     then mm_resting_ask_id m' \<noteq> None \<and> sint (mm_last_quoted_ask m') = mid + spread
     else ask_prices act = {} \<and> mm_resting_ask_id m' = None)"
proof -
  let ?h = "mmc_half_spread_ticks (mm_config m)"
  let ?tb = "half (b + a) - ?h" and ?ta = "half (b + a) + ?h"
  note mid = half_between [OF assms(2-4), folded mid_def]
  have tb: "sint ?tb = mid - spread"
    using sint_i64_eqI [of ?tb "mid - spread"] mid assms(3-6) by (simp add: mid_def spread_def)
  have ta: "sint ?ta = mid + spread"
    using sint_i64_eqI [of ?ta "mid + spread"] mid assms(3-6) by (simp add: mid_def spread_def)
  obtain a1 m1 where q1: "quote_bid (sint position < limit) ?tb no_action m = (a1, m1)" by fastforce
  then have q2: "quote_ask (sint (- mmc_max_inventory (mm_config m)) < sint position) ?ta a1 m1 = (act, m')"
    using assms(1) by (simp add: on_tick_def Let_def compute_mid_def limit_def)
  note bid = quote_bid_prices [OF q1]
  note ask = quote_ask_prices [OF q2 bid(4,5)]
  have in_range: "mid - spread < sint a" "sint b < mid + spread" using mid assms(2,5) by (simp_all add: spread_def)
  have "\<forall>p \<in> bid_prices act. sint p = mid - spread \<and> sint p < sint a"
    using bid(1) ask(4) tb in_range(1) by auto
  moreover have "\<forall>p \<in> ask_prices act. sint p = mid + spread \<and> sint b < sint p" using ask(1) ta in_range(2) by auto
  moreover have "if sint position < limit then mm_resting_bid_id m' \<noteq> None \<and> sint (mm_last_quoted_bid m') = mid - spread
     else bid_prices act = {} \<and> mm_resting_bid_id m' = None"
    using bid(2,3) ask(4-6) tb by simp
  moreover have "if sint (- mmc_max_inventory (mm_config m)) < sint position
     then mm_resting_ask_id m' \<noteq> None \<and> sint (mm_last_quoted_ask m') = mid + spread
     else ask_prices act = {} \<and> mm_resting_ask_id m' = None"
    using ask(2,3) ta by simp
  ultimately show ?thesis by blast
qed

theorem market_maker_passive_witness:
  "\<exists>act m'. on_tick (market_maker_init demo_maker 100) (Some 990) (Some 1020) 500 = (act, m') \<and>
     (\<forall>p \<in> ask_prices act. sint p = 1010) \<and> mm_resting_ask_id m' \<noteq> None \<and> bid_prices act = {} \<and> mm_resting_bid_id m' = None"
proof -
  obtain act m' where t: "on_tick (market_maker_init demo_maker 100) (Some 990) (Some 1020) 500 = (act, m')" by fastforce
  have cfg: "mm_config (market_maker_init demo_maker 100) = demo_maker" by (simp add: market_maker_init_def)
  have h: "sint (half (990 + 1020) :: i64) = 1005" by (simp add: half_def)
  show ?thesis
    using market_maker_passive [OF t] t h unfolding cfg by (simp add: demo_maker_def)
qed

subsection \<open>Arbitrage legs\<close>

lemma arbitrage_check_Some:
  assumes "arbitrage_check s a_bid a_ask b_bid b_ask = (Some act, s')"
  obtains pb ps where
    "a_ask = Some pb \<and> b_bid = Some ps \<and> nom_symbol_id (aa_buy_leg act) = ac_symbol_a (arb_config s) \<and>
       nom_symbol_id (aa_sell_leg act) = ac_symbol_b (arb_config s) \<or>
     b_ask = Some pb \<and> a_bid = Some ps \<and> nom_symbol_id (aa_buy_leg act) = ac_symbol_b (arb_config s) \<and>
       nom_symbol_id (aa_sell_leg act) = ac_symbol_a (arb_config s)"
    "nom_price (aa_buy_leg act) = pb" "nom_price (aa_sell_leg act) = ps" "aa_edge_ticks act = ps - pb"
    "sint (ac_min_edge_ticks (arb_config s)) \<le> sint (ps - pb)"
    "nom_side (aa_buy_leg act) = Buy" "nom_side (aa_sell_leg act) = Sell"
    "nom_order_type (aa_buy_leg act) = Limit" "nom_order_type (aa_sell_leg act) = Limit"
    "nom_time_in_force (aa_buy_leg act) = IOC" "nom_time_in_force (aa_sell_leg act) = IOC"
    "nom_quantity (aa_buy_leg act) = ac_clip_size (arb_config s)" "nom_quantity (aa_sell_leg act) = ac_clip_size (arb_config s)"
    "nom_order_id (aa_buy_leg act) = arb_next_order_id s" "nom_order_id (aa_sell_leg act) = arb_next_order_id s + 1"
    "s' = s\<lparr>arb_next_order_id := arb_next_order_id s + 2\<rparr>"
proof (cases "edge_between s b_bid a_ask")
  case (Some edge)
  then obtain pb ps where "a_ask = Some pb" "b_bid = Some ps" "edge = ps - pb" "sint (ac_min_edge_ticks (arb_config s)) \<le> sint (ps - pb)"
    by (auto simp: edge_between_def split: option.splits if_splits)
  with assms Some show thesis
    by (intro that [of pb ps]) (auto simp: arbitrage_check_def make_action_def make_leg_def Let_def)
next
  case None
  then obtain edge where "edge_between s a_bid b_ask = Some edge" using assms by (auto simp: arbitrage_check_def Let_def split: option.splits)
  moreover from this obtain pb ps where "b_ask = Some pb" "a_bid = Some ps" "edge = ps - pb"
      "sint (ac_min_edge_ticks (arb_config s)) \<le> sint (ps - pb)"
    by (auto simp: edge_between_def split: option.splits if_splits)
  ultimately show thesis
    using assms None by (intro that [of pb ps]) (auto simp: arbitrage_check_def make_action_def make_leg_def Let_def)
qed

end
