(* ===== verification/Vwap_Properties.thy ===== *)
theory Vwap_Properties
  imports Strategies Matching_Engine
begin

text \<open>The properties of the volume-weighted slicing of a parent order.\<close>

subsection \<open>All slices together\<close>

fun vwap_drive :: "nat \<Rightarrow> vwap_executor \<Rightarrow> new_order_message list \<times> vwap_executor" where
  "vwap_drive 0 v = ([], v)"
| "vwap_drive (Suc k) v =
     (case next_slice v of (None, v) \<Rightarrow> ([], v) | (Some msg, v) \<Rightarrow> let (msgs, v) = vwap_drive k v in (msg # msgs, v))"

lemma foldl_plus: "foldl (+) s xs = s + sum_list (xs :: i64 list)"
  by (induction xs arbitrary: s) (simp_all add: ac_simps)

lemma build_slice_sizes_total:
  assumes "0 < vc_num_slices cfg"
  shows "length (build_slice_sizes fl cosine cfg) = vc_num_slices cfg"
    "sum_list (build_slice_sizes fl cosine cfg) = vc_total_quantity cfg"
  using assms by (simp_all add: build_slice_sizes_def Let_def foldl_plus)

lemma vwap_drive_spec:
  assumes "vwap_drive k v = (msgs, v')" "ve_slices_sent v \<le> length (ve_slice_sizes v)" "length (ve_slice_sizes v) \<le> ve_slices_sent v + k"
  shows "map nom_quantity msgs = drop (ve_slices_sent v) (ve_slice_sizes v) \<and> vwap_done v' \<and>
    map nom_order_id msgs = map (\<lambda>i. ve_next_order_id v + of_nat i) [0..<length msgs] \<and>
    (\<forall>msg \<in> set msgs. nom_price msg = vc_limit_price (ve_config v) \<and> nom_side msg = vc_side (ve_config v) \<and>
      nom_order_type msg = Limit \<and> nom_time_in_force msg = IOC)"
  using assms
proof (induction k arbitrary: v msgs)
  case 0
  then show ?case by (simp add: vwap_done_def)
next
  case (Suc k)
  show ?case
  proof (cases "vwap_done v")
    case True
    then show ?thesis using Suc.prems by (simp add: next_slice_def vwap_done_def)
  next
    case False
    then have more: "ve_slices_sent v < length (ve_slice_sizes v)" by (simp add: vwap_done_def)
    obtain msg v1 where ns: "next_slice v = (Some msg, v1)" using False by (simp add: next_slice_def)
    then have v1: "v1 = v\<lparr>ve_slices_sent := ve_slices_sent v + 1, ve_next_order_id := ve_next_order_id v + 1\<rparr>"
      and msg: "nom_quantity msg = ve_slice_sizes v ! ve_slices_sent v" "nom_order_id msg = ve_next_order_id v"
        "nom_price msg = vc_limit_price (ve_config v)" "nom_side msg = vc_side (ve_config v)"
        "nom_order_type msg = Limit" "nom_time_in_force msg = IOC"
      using False by (auto simp: next_slice_def)
    obtain ms v2 where rest: "vwap_drive k v1 = (ms, v2)" by fastforce
    have out: "msgs = msg # ms" "v' = v2" using Suc.prems(1) ns rest by simp_all
    have ih: "map nom_quantity ms = drop (ve_slices_sent v1) (ve_slice_sizes v1) \<and> vwap_done v' \<and>
      map nom_order_id ms = map (\<lambda>i. ve_next_order_id v1 + of_nat i) [0..<length ms] \<and>
      (\<forall>msg \<in> set ms. nom_price msg = vc_limit_price (ve_config v1) \<and> nom_side msg = vc_side (ve_config v1) \<and>
        nom_order_type msg = Limit \<and> nom_time_in_force msg = IOC)"
      using rest out(2) more Suc.prems(3) by (intro Suc.IH) (simp_all add: v1)
    have "map (\<lambda>i. ve_next_order_id v + of_nat i) [0..<length msgs] =
        ve_next_order_id v # map (\<lambda>i. ve_next_order_id v1 + of_nat i) [0..<length ms]"
      by (simp add: out v1 upt_conv_Cons map_Suc_upt [symmetric] comp_def ac_simps del: upt_Suc)
    with ih more msg out v1 show ?thesis by (simp add: Cons_nth_drop_Suc [symmetric])
  qed
qed

text \<open>C27: driven to its end the executor sends exactly \<open>num_slices\<close> immediate-or-cancel orders at the limit
  price with consecutive ids, whose quantities add up to the parent quantity whatever the rounding of
  the volume curve does, and then none.\<close>

theorem vwap_sends_total:
  assumes "0 < vc_num_slices cfg" "vc_num_slices cfg \<le> k" "vwap_drive k (vwap_init fl cosine cfg first) = (msgs, v)"
  shows "length msgs = vc_num_slices cfg \<and> sum_list (map nom_quantity msgs) = vc_total_quantity cfg \<and>
    map nom_order_id msgs = map (\<lambda>i. first + of_nat i) [0..<vc_num_slices cfg] \<and>
    (\<forall>msg \<in> set msgs. nom_price msg = vc_limit_price cfg \<and> nom_side msg = vc_side cfg \<and>
      nom_order_type msg = Limit \<and> nom_time_in_force msg = IOC) \<and> next_slice v = (None, v)"
proof -
  note sizes = build_slice_sizes_total [OF assms(1), of fl cosine]
  have spec: "map nom_quantity msgs = build_slice_sizes fl cosine cfg \<and> vwap_done v \<and>
    map nom_order_id msgs = map (\<lambda>i. first + of_nat i) [0..<length msgs] \<and>
    (\<forall>msg \<in> set msgs. nom_price msg = vc_limit_price cfg \<and> nom_side msg = vc_side cfg \<and>
      nom_order_type msg = Limit \<and> nom_time_in_force msg = IOC)"
    using vwap_drive_spec [OF assms(3)] sizes(1) assms(2) by (simp add: vwap_init_def)
  then have "length msgs = vc_num_slices cfg" using sizes(1) by (metis length_map)
  with spec sizes(2) show ?thesis by (simp add: next_slice_def)
qed

definition demo_parent :: vwap_config where
  "demo_parent = \<lparr>vc_symbol = 1, vc_client = 9, vc_side = Buy, vc_total_quantity = 20, vc_num_slices = 49, vc_limit_price = 100\<rparr>"

theorem vwap_sends_total_witness:
  "\<exists>msgs v. vwap_drive 49 (vwap_init (\<lambda>x. x) cos demo_parent 1) = (msgs, v) \<and> length msgs = 49 \<and> sum_list (map nom_quantity msgs) = 20"
proof -
  obtain msgs v where "vwap_drive 49 (vwap_init (\<lambda>x. x) cos demo_parent 1) = (msgs, v)" by fastforce
  then show ?thesis using vwap_sends_total [of demo_parent 49 "\<lambda>x. x" cos 1 msgs v] by (simp add: demo_parent_def)
qed

subsection \<open>The accuracy of the weights\<close>

text \<open>What is assumed of the double arithmetic and of \<open>std::cos\<close>: an absolute error of at most \<open>eps\<close> on the
  values that occur.  The spacing of doubles below 128 is 2^-46, so that both hold with a wide margin.\<close>

definition eps :: real where
  "eps = 1 / 10 ^ 9"

definition accurate_rounding :: "(real \<Rightarrow> real) \<Rightarrow> bool" where
  "accurate_rounding fl \<longleftrightarrow> (\<forall>x. \<bar>x\<bar> \<le> 100 \<longrightarrow> \<bar>fl x - x\<bar> \<le> eps)"

definition accurate_cosine :: "(real \<Rightarrow> real) \<Rightarrow> bool" where
  "accurate_cosine cosine \<longleftrightarrow> (\<forall>x. \<bar>x\<bar> \<le> 9 \<longrightarrow> \<bar>cosine x - cos x\<bar> \<le> eps)"

lemma eps_small: "0 < eps" "eps \<le> 1 / 1000000"
  by (simp_all add: eps_def)

lemma accurate_exact: "accurate_rounding (\<lambda>x. x)" "accurate_cosine cos"
  by (simp_all add: accurate_rounding_def accurate_cosine_def eps_def)

lemma accurate_roundingD: "accurate_rounding fl \<Longrightarrow> \<bar>x\<bar> \<le> 100 \<Longrightarrow> \<bar>fl x - x\<bar> \<le> eps"
  by (simp add: accurate_rounding_def)

lemma rounded_near:
  assumes "accurate_rounding fl" "\<bar>x - y\<bar> \<le> d" "\<bar>y\<bar> + d \<le> 100"
  shows "\<bar>fl x - y\<bar> \<le> d + eps"
  using accurate_roundingD [OF assms(1), of x] assms(2,3) by linarith

lemma cos_lipschitz: "\<bar>cos x - cos y\<bar> \<le> \<bar>x - y\<bar>" for x y :: real
proof -
  have "\<bar>cos x - cos y\<bar> = 2 * \<bar>sin ((x + y) / 2)\<bar> * \<bar>sin ((y - x) / 2)\<bar>"
    by (simp add: cos_diff_cos abs_mult)
  also have "\<dots> \<le> 2 * 1 * \<bar>(y - x) / 2\<bar>"
    by (intro mult_mono abs_sin_x_le_abs_x) simp_all
  finally show ?thesis by simp
qed

lemma product_near:
  fixes a b x y :: real
  assumes "\<bar>a - x\<bar> \<le> d" "\<bar>b - y\<bar> \<le> e" "\<bar>x\<bar> \<le> X" "\<bar>b\<bar> \<le> B"
  shows "\<bar>a * b - x * y\<bar> \<le> d * B + X * e"
proof -
  have "a * b - x * y = (a - x) * b + x * (b - y)" by (simp add: algebra_simps)
  also have "\<bar>\<dots>\<bar> \<le> \<bar>a - x\<bar> * \<bar>b\<bar> + \<bar>x\<bar> * \<bar>b - y\<bar>" by (simp add: abs_triangle_ineq flip: abs_mult)
  also have "\<dots> \<le> d * B + X * e" using assms by (intro add_mono mult_mono) linarith+
  finally show ?thesis .
qed

lemma quotient_near:
  fixes a b x y :: real
  assumes "\<bar>a * y - x * b\<bar> \<le> d" "0 < y" "0 < l" "l \<le> b"
  shows "\<bar>a / b - x / y\<bar> \<le> d / (y * l)"
proof -
  have "a / b - x / y = (a * y - x * b) / (y * b)" using assms(2-4) by (simp add: field_simps)
  also have "\<bar>\<dots>\<bar> = \<bar>a * y - x * b\<bar> / (y * b)" using assms(2-4) by (simp add: abs_mult)
  also have "\<dots> \<le> d / (y * l)" using assms by (intro frac_le mult_left_mono) simp_all
  finally show ?thesis .
qed

text \<open>The angle of slice \<open>i\<close> of 49 and the weight of its exact cosine.\<close>

definition angle :: "nat \<Rightarrow> real" where
  "angle i = 2 * pi * (real i / 48)"

definition exact_weight :: "nat \<Rightarrow> real" where
  "exact_weight i = 1 + cos (angle i)"

lemma fraction_near:
  assumes "accurate_rounding fl" "i \<le> 48"
  shows "\<bar>fl (fl (real i) / fl 48) - real i / 48\<bar> \<le> 2 * eps"
proof -
  have i: "\<bar>fl (real i) - real i\<bar> \<le> eps" using assms by (intro accurate_roundingD) simp_all
  have n: "\<bar>fl 48 - 48\<bar> \<le> eps" using assms(1) by (rule accurate_roundingD) simp
  then have pos: "47 \<le> fl 48" using eps_small by linarith
  have "\<bar>fl (real i) * 48 - real i * fl 48\<bar> \<le> eps * 48 + 48 * eps"
    using i n assms(2) by (intro product_near) simp_all
  then have "\<bar>fl (real i) / fl 48 - real i / 48\<bar> \<le> (eps * 48 + 48 * eps) / (48 * 47)"
    using pos by (intro quotient_near) simp_all
  also have "\<dots> \<le> eps" by (simp add: eps_def)
  finally have "\<bar>fl (fl (real i) / fl 48) - real i / 48\<bar> \<le> eps + eps"
    using assms by (intro rounded_near) (simp_all add: eps_def)
  then show ?thesis by simp
qed

lemma angle_near:
  assumes "accurate_rounding fl" "i \<le> 48"
  shows "\<bar>fl (fl (2 * fl pi) * fl (fl (real i) / fl 48)) - angle i\<bar> \<le> 21 * eps" "\<bar>angle i\<bar> \<le> 8"
proof -
  let ?t = "fl (fl (real i) / fl 48)"
  have pi: "0 < pi" "pi < 4" using pi_less_4 by simp_all
  have "\<bar>fl pi - pi\<bar> \<le> eps" using pi by (intro accurate_roundingD [OF assms(1)]) simp
  then have "\<bar>2 * fl pi - 2 * pi\<bar> \<le> 2 * eps" by linarith
  then have two: "\<bar>fl (2 * fl pi) - 2 * pi\<bar> \<le> 2 * eps + eps"
    using pi by (intro rounded_near [OF assms(1)]) (simp_all add: eps_def)
  note t = fraction_near [OF assms]
  have frac: "0 \<le> real i / 48" "real i / 48 \<le> 1" using assms(2) by simp_all
  then have bound: "\<bar>?t\<bar> \<le> 11 / 10" using t eps_small by linarith
  have "angle i \<le> 2 * pi * 1" unfolding angle_def using frac by (intro mult_left_mono) simp_all
  moreover have "0 \<le> angle i" unfolding angle_def using frac by simp
  ultimately show range: "\<bar>angle i\<bar> \<le> 8" using pi by simp
  have "\<bar>fl (2 * fl pi) * ?t - 2 * pi * (real i / 48)\<bar> \<le> (2 * eps + eps) * (11 / 10) + 8 * (2 * eps)"
    using two t bound pi by (intro product_near) simp_all
  then have "\<bar>fl (2 * fl pi) * ?t - angle i\<bar> \<le> 20 * eps" by (simp add: angle_def eps_def)
  then have "\<bar>fl (fl (2 * fl pi) * ?t) - angle i\<bar> \<le> 20 * eps + eps"
    using range by (intro rounded_near [OF assms(1)]) (simp_all add: eps_def)
  then show "\<bar>fl (fl (2 * fl pi) * ?t) - angle i\<bar> \<le> 21 * eps" by simp
qed

lemma exact_weight_bounds: "0 \<le> exact_weight i" "exact_weight i \<le> 2"
  unfolding exact_weight_def using cos_ge_minus_one [of "angle i"] cos_le_one [of "angle i"] by linarith+

lemma weight_near:
  assumes "accurate_rounding fl" "accurate_cosine cosine" "i \<le> 48"
  shows "\<bar>slice_weight fl cosine 49 i - exact_weight i\<bar> \<le> 23 * eps"
proof -
  let ?y = "fl (fl (2 * fl pi) * fl (fl (real i) / fl 48))"
  note y = angle_near [OF assms(1,3)]
  then have "\<bar>?y\<bar> \<le> 9" using eps_small by linarith
  then have "\<bar>cosine ?y - cos ?y\<bar> \<le> eps" using assms(2) by (simp add: accurate_cosine_def)
  moreover have "\<bar>cos ?y - cos (angle i)\<bar> \<le> 21 * eps" using cos_lipschitz [of ?y "angle i"] y(1) by linarith
  ultimately have "\<bar>(1 + cosine ?y) - exact_weight i\<bar> \<le> 22 * eps" unfolding exact_weight_def by linarith
  then have "\<bar>fl (1 + cosine ?y) - exact_weight i\<bar> \<le> 22 * eps + eps"
    using exact_weight_bounds [of i] by (intro rounded_near [OF assms(1)]) (simp_all add: eps_def)
  then show ?thesis by (simp add: slice_weight_def)
qed

text \<open>The 49 exact weights sum to 50.\<close>

lemma cosine_sum: "(\<Sum>i = 0..<48. cos (angle i)) = 0"
proof -
  define f where "f i = cos (angle i)" for i :: nat
  have flip: "f (i + 24) = - f i" for i
  proof -
    have eq: "angle (i + 24) = angle i + pi" by (simp add: angle_def field_simps)
    show ?thesis unfolding f_def eq by (rule cos_periodic_pi)
  qed
  have "sum f {0..<48} = sum f {0..<24} + sum f {24..<48}" by (simp add: sum.atLeastLessThan_concat)
  also have "sum f {24..<48} = (\<Sum>i = 0..<24. f (i + 24))" using sum.shift_bounds_nat_ivl [of f 0 24 24] by simp
  also have "\<dots> = - sum f {0..<24}" by (simp add: flip sum_negf)
  finally show ?thesis by (simp add: f_def)
qed

lemma exact_weight_sum: "sum exact_weight {0..<49} = 50"
proof -
  have "sum exact_weight {0..<49} = 49 + (\<Sum>i = 0..<Suc 48. cos (angle i))"
    by (simp add: exact_weight_def [abs_def] sum.distrib)
  also have "\<dots> = 50" unfolding sum.atLeast0_lessThan_Suc cosine_sum by (simp add: angle_def)
  finally show ?thesis .
qed

lemma partial_sum_near:
  assumes "accurate_rounding fl" "accurate_cosine cosine" "k \<le> 49"
  shows "\<bar>foldl (\<lambda>s i. fl (s + slice_weight fl cosine 49 i)) 0 [0..<k] - sum exact_weight {0..<k}\<bar> \<le> real k * (24 * eps)"
  using assms(3)
proof (induction k)
  case (Suc k)
  let ?s = "foldl (\<lambda>s i. fl (s + slice_weight fl cosine 49 i)) 0 [0..<k]" and ?e = "sum exact_weight {0..<k}"
  have ih: "\<bar>?s - ?e\<bar> \<le> real k * (24 * eps)" using Suc by simp
  have k: "k \<le> 48" "real k \<le> 48" using Suc.prems by simp_all
  have "0 \<le> ?e" "?e \<le> (\<Sum>i = 0..<k. 2)" by (intro sum_nonneg sum_mono exact_weight_bounds)+
  then have e: "0 \<le> ?e" "?e \<le> 96" using k by simp_all
  have "\<bar>(?s + slice_weight fl cosine 49 k) - (?e + exact_weight k)\<bar> \<le> real k * (24 * eps) + 23 * eps"
    using ih weight_near [OF assms(1,2) k(1)] by linarith
  then have "\<bar>fl (?s + slice_weight fl cosine 49 k) - (?e + exact_weight k)\<bar> \<le> real k * (24 * eps) + 23 * eps + eps"
    using e exact_weight_bounds [of k] k(2) by (intro rounded_near [OF assms(1)]) (simp_all add: eps_def)
  moreover have "real (Suc k) * (24 * eps) = real k * (24 * eps) + 23 * eps + eps" by (simp add: distrib_right)
  ultimately show ?case by simp
qed simp

lemma weight_sum_near:
  assumes "accurate_rounding fl" "accurate_cosine cosine"
  shows "\<bar>slice_weight_sum fl cosine 49 - 50\<bar> \<le> 1 / 100000"
  using partial_sum_near [OF assms, of 49] unfolding exact_weight_sum slice_weight_sum_def by (simp add: eps_def)

subsection \<open>The last slice\<close>

text \<open>The cosine is above a quarter up to 75 degrees and below a fifth from 82.5 degrees to 180 degrees.\<close>

lemma cos_75: "255 / 1000 \<le> cos (5 * pi / 12)"
proof -
  have "5 * pi / 12 = pi / 4 + pi / 6" by simp
  then have "cos (5 * pi / 12) = sqrt 2 / 2 * (sqrt 3 / 2) - sqrt 2 / 2 * (1 / 2)"
    by (simp only: cos_add cos_45 cos_30 sin_45 sin_30)
  also have "\<dots> = (sqrt 6 - sqrt 2) / 4" by (simp add: field_simps real_sqrt_mult [symmetric])
  finally have eq: "cos (5 * pi / 12) = (sqrt 6 - sqrt 2) / 4" .
  have "244 / 100 \<le> sqrt 6" by (rule real_le_rsqrt) (simp add: power2_eq_square)
  moreover have "sqrt 2 \<le> 142 / 100" by (rule real_le_lsqrt) (simp_all add: power2_eq_square)
  ultimately show ?thesis using eq by simp
qed

lemma cos_82: "cos (11 * pi / 24) \<le> 1 / 5"
proof -
  have "cos (11 * pi / 24) = sin (pi / 24)" using sin_cos_eq [of "pi / 24"] by (simp add: field_simps)
  also have "\<dots> \<le> pi / 24" by (rule sin_x_le_x) simp
  finally show ?thesis using pi_less_4 by simp
qed

lemma angle_mono: "i \<le> j \<Longrightarrow> angle i \<le> angle j" "0 \<le> angle i" "i \<le> 24 \<Longrightarrow> angle i \<le> pi"
proof -
  show "0 \<le> angle i" by (simp add: angle_def)
  show mono: "i \<le> j \<Longrightarrow> angle i \<le> angle j" for i j
    unfolding angle_def by (intro mult_left_mono divide_right_mono) simp_all
  show "i \<le> 24 \<Longrightarrow> angle i \<le> pi" using mono [of i 24] by (simp add: angle_def)
qed

lemma angle_reflect:
  assumes "i \<le> 48"
  shows "cos (angle (48 - i)) = cos (angle i)"
proof -
  have eq: "angle (48 - i) = 2 * pi - angle i" using assms by (simp add: angle_def of_nat_diff field_simps)
  show ?thesis unfolding eq by (simp add: cos_diff)
qed

lemma cos_angle:
  assumes "i \<le> 48"
  shows "i \<le> 10 \<or> 38 \<le> i \<Longrightarrow> 255 / 1000 \<le> cos (angle i)" "\<not> (i \<le> 10 \<or> 38 \<le> i) \<Longrightarrow> cos (angle i) \<le> 1 / 5"
proof -
  have outer: "255 / 1000 \<le> cos (angle i)" if "i \<le> 10" for i
  proof -
    have "cos (angle 10) \<le> cos (angle i)" using that by (intro cos_monotone_0_pi_le angle_mono) simp_all
    with cos_75 show ?thesis by (simp add: angle_def)
  qed
  have inner: "cos (angle i) \<le> 1 / 5" if "11 \<le> i" "i \<le> 24" for i
  proof -
    have "cos (angle i) \<le> cos (angle 11)" using that by (intro cos_monotone_0_pi_le angle_mono)
    with cos_82 show ?thesis by (simp add: angle_def)
  qed
  show "i \<le> 10 \<or> 38 \<le> i \<Longrightarrow> 255 / 1000 \<le> cos (angle i)"
    using outer [of i] outer [of "48 - i"] angle_reflect [OF assms] by (cases "i \<le> 10") simp_all
  show "\<not> (i \<le> 10 \<or> 38 \<le> i) \<Longrightarrow> cos (angle i) \<le> 1 / 5"
    using inner [of i] inner [of "48 - i"] angle_reflect [OF assms] by (cases "i \<le> 24") simp_all
qed

lemma share_near:
  assumes fl: "accurate_rounding fl" and w: "\<bar>w - e\<bar> \<le> 23 * eps" "0 \<le> e" "e \<le> 2" and s: "\<bar>s - 50\<bar> \<le> 1 / 100000"
  shows "\<bar>fl (fl 20 * fl (w / s)) - 2 * e / 5\<bar> \<le> 1 / 1000"
proof -
  have pos: "49 \<le> s" using s by linarith
  have "\<bar>w * 50 - e * s\<bar> \<le> 23 * eps * 50 + 2 * (1 / 100000)"
    using w s by (intro product_near) (simp_all add: abs_minus_commute)
  then have "\<bar>w / s - e / 50\<bar> \<le> (23 * eps * 50 + 2 * (1 / 100000)) / (50 * 49)"
    using pos by (intro quotient_near) simp_all
  also have "\<dots> \<le> 1 / 100000" by (simp add: eps_def)
  finally have q: "\<bar>fl (w / s) - e / 50\<bar> \<le> 1 / 100000 + eps"
    using w by (intro rounded_near [OF fl]) (simp_all add: eps_def)
  have "\<bar>fl 20 - 20\<bar> \<le> eps" by (rule accurate_roundingD [OF fl]) simp
  moreover have "\<bar>fl (w / s)\<bar> \<le> 1" using q w eps_small by linarith
  ultimately have "\<bar>fl 20 * fl (w / s) - 20 * (e / 50)\<bar> \<le> eps * 1 + 20 * (1 / 100000 + eps)"
    using q by (intro product_near) simp_all
  then have "\<bar>fl 20 * fl (w / s) - 2 * e / 5\<bar> \<le> 1 / 2000" by (simp add: eps_def)
  then have "\<bar>fl (fl 20 * fl (w / s)) - 2 * e / 5\<bar> \<le> 1 / 2000 + eps"
    using w by (intro rounded_near [OF fl]) simp_all
  then show ?thesis by (simp add: eps_def)
qed

lemma llround_small: "1 / 2 \<le> x \<Longrightarrow> x < 3 / 2 \<Longrightarrow> llround x = 1" "- 1 / 2 < x \<Longrightarrow> x < 1 / 2 \<Longrightarrow> llround x = 0"
  by (simp_all add: llround_def floor_eq_iff)

lemma slice_size_20_49:
  assumes "accurate_rounding fl" "accurate_cosine cosine" "vc_total_quantity cfg = 20" "vc_num_slices cfg = 49" "i \<le> 48"
  shows "slice_size fl cosine cfg i = (if i \<le> 10 \<or> 38 \<le> i then 1 else 0)"
proof -
  define x where "x = fl (fl 20 * fl (slice_weight fl cosine 49 i / slice_weight_sum fl cosine 49))"
  have "\<bar>x - 2 * exact_weight i / 5\<bar> \<le> 1 / 1000"
    unfolding x_def using weight_near [OF assms(1,2,5)] exact_weight_bounds weight_sum_near [OF assms(1,2)]
    by (rule share_near [OF assms(1)])
  then have near: "2 * exact_weight i / 5 - 1 / 1000 \<le> x" "x \<le> 2 * exact_weight i / 5 + 1 / 1000" by linarith+
  have "llround x = (if i \<le> 10 \<or> 38 \<le> i then 1 else 0)"
  proof (cases "i \<le> 10 \<or> 38 \<le> i")
    case True
    then have "1255 / 1000 \<le> exact_weight i" using cos_angle(1) [OF assms(5)] by (simp add: exact_weight_def)
    then have "1 / 2 \<le> x" "x < 3 / 2" using near exact_weight_bounds(2) [of i] by linarith+
    then show ?thesis using True by (simp add: llround_small)
  next
    case False
    then have "exact_weight i \<le> 6 / 5" using cos_angle(2) [OF assms(5)] by (simp add: exact_weight_def)
    then have "- 1 / 2 < x" "x < 1 / 2" using near exact_weight_bounds(1) [of i] by linarith+
    then show ?thesis using False by (simp add: llround_small)
  qed
  then show ?thesis unfolding slice_size_def using assms(3,4) by (simp add: x_def)
qed

lemma slices_20_49:
  assumes "accurate_rounding fl" "accurate_cosine cosine" "vc_total_quantity cfg = 20" "vc_num_slices cfg = 49"
  shows "build_slice_sizes fl cosine cfg = replicate 11 1 @ replicate 27 0 @ replicate 10 1 @ [- 1]"
proof -
  have first: "map (slice_size fl cosine cfg) [0..<48] = replicate 11 1 @ replicate 27 0 @ replicate 10 1"
    using slice_size_20_49 [OF assms] by (intro nth_equalityI) (auto simp: nth_append)
  have n: "vc_num_slices cfg - 1 = 48" using assms(4) by simp
  have "20 - sum_list (replicate 11 1 @ replicate 27 0 @ replicate 10 1 :: i64 list) = - 1" by (simp add: sum_list_replicate)
  with first assms(3,4) show ?thesis unfolding build_slice_sizes_def Let_def n foldl_plus by simp
qed

text \<open>C28: the remainder that the last slice absorbs can be negative.  For any parent order of 20 shares in 49
  slices, whatever its symbol, client, side and limit price, and for any rounding and cosine that are accurate to
  10^-9 on the values that occur, as those of doubles are, the executor sends eleven orders for one share, 27 for none, ten for one
  share, which is 21 shares in all, and a last order for minus one share.  The matching engine rejects
  an order with that quantity and leaves book and fills as they were, so that nothing takes back the extra share.\<close>

theorem vwap_last_slice_negative:
  assumes "accurate_rounding fl" "accurate_cosine cosine" "vc_total_quantity cfg = 20" "vc_num_slices cfg = 49"
    "vwap_drive 49 (vwap_init fl cosine cfg first) = (msgs, v)"
  shows "map nom_quantity msgs = replicate 11 1 @ replicate 27 0 @ replicate 10 1 @ [- 1] \<and>
    (\<Sum>msg \<leftarrow> butlast msgs. sint (nom_quantity msg)) = 21 \<and> sint (nom_quantity (last msgs)) = - 1 \<and>
    (o_quantity ord = nom_quantity (last msgs) \<and> o_symbol ord = ob_symbol (me_book e) \<longrightarrow>
      submit H e ord out = Some (\<lparr>nr_reject_reason = RejInvalidQuantity, nr_fill_count = 0, nr_rested = False,
        nr_remaining_after = - 1\<rparr>, e, out))"
proof -
  note sizes = slices_20_49 [OF assms(1-4)]
  have all: "map nom_quantity msgs = replicate 11 1 @ replicate 27 0 @ replicate 10 1 @ [- 1]"
    using vwap_drive_spec [OF assms(5)] sizes by (simp add: vwap_init_def)
  then have "msgs \<noteq> []" by auto
  then have last: "nom_quantity (last msgs) = - 1" using arg_cong [OF all, of last] by (simp add: last_map)
  have front: "map nom_quantity (butlast msgs) = replicate 11 1 @ replicate 27 0 @ replicate 10 1"
    unfolding map_butlast all by (simp only: append_assoc [symmetric] butlast_snoc)
  have "(\<Sum>msg \<leftarrow> butlast msgs. sint (nom_quantity msg)) = sum_list (map sint (map nom_quantity (butlast msgs)))"
    by (simp only: list.map_comp comp_def)
  also have "\<dots> = 21" unfolding front by (simp add: sum_list_replicate)
  finally have "(\<Sum>msg \<leftarrow> butlast msgs. sint (nom_quantity msg)) = 21" .
  with all last show ?thesis by (simp add: submit_def)
qed

theorem vwap_last_slice_negative_witness:
  "accurate_rounding (\<lambda>x. x) \<and> accurate_cosine cos \<and>
   map nom_quantity (fst (vwap_drive 49 (vwap_init (\<lambda>x. x) cos demo_parent 1))) = replicate 11 1 @ replicate 27 0 @ replicate 10 1 @ [- 1]"
proof -
  let ?d = "vwap_drive 49 (vwap_init (\<lambda>x. x) cos demo_parent 1)"
  have "map nom_quantity (fst ?d) = replicate 11 1 @ replicate 27 0 @ replicate 10 1 @ [- 1]"
    by (rule vwap_last_slice_negative [THEN conjunct1, OF accurate_exact, of demo_parent 1 _ "snd ?d"])
      (simp_all add: demo_parent_def del: vwap_drive.simps)
  with accurate_exact show ?thesis by blast
qed

end
