(* ===== verification/Synthetic.thy ===== *)
theory Synthetic
  imports Metrics Messages
begin

text \<open>
  \<open>replay/synthetic_generator.hpp\<close>.  The engine and the distributions of the standard header
  \<open>random\<close> leave their values to the implementation: the record \<open>random_ops\<close> holds them, each
  drawing a value from a generator state, and \<open>uniform_spec\<close> is the documented range of a
  uniform integer distribution.
\<close>

record 'g random_ops =
  rnd_seed :: "u64 \<Rightarrow> 'g"
  rnd_uniform :: "i64 \<Rightarrow> i64 \<Rightarrow> 'g \<Rightarrow> i64 \<times> 'g"
  rnd_bernoulli :: "real \<Rightarrow> 'g \<Rightarrow> bool \<times> 'g"
  rnd_exponential :: "real \<Rightarrow> 'g \<Rightarrow> real \<times> 'g"

definition uniform_spec :: "'g random_ops \<Rightarrow> bool" where
  "uniform_spec R \<longleftrightarrow> (\<forall>a b g. sint a \<le> sint b \<longrightarrow>
     sint a \<le> sint (fst (rnd_uniform R a b g)) \<and> sint (fst (rnd_uniform R a b g)) \<le> sint b)"

lemma uniform_specD:
  assumes "uniform_spec R" "rnd_uniform R a b g = (x, g')" "sint a \<le> sint b"
  shows "sint a \<le> sint x \<and> sint x \<le> sint b"
  using assms unfolding uniform_spec_def by (metis fst_conv)

record synthetic_config =
  sc_seed :: u64
  sc_symbol :: symbol_id
  sc_mid_price :: price
  sc_price_spread_ticks :: i64
  sc_min_quantity :: i64
  sc_max_quantity :: i64
  sc_market_order_fraction :: real
  sc_buy_fraction :: real
  sc_mean_arrival_rate_per_sec :: real

record 'g generator =
  sg_config :: synthetic_config
  sg_rng :: 'g

definition generator_init :: "'g random_ops \<Rightarrow> synthetic_config \<Rightarrow> 'g generator" where
  "generator_init R cfg = \<lparr>sg_config = cfg, sg_rng = rnd_seed R (sc_seed cfg)\<rparr>"

text \<open>The initialisers of the message draw in the order of its members.\<close>

definition next_order :: "'g random_ops \<Rightarrow> u64 \<Rightarrow> u32 \<Rightarrow> 'g generator \<Rightarrow> new_order_message \<times> 'g generator" where
  "next_order R order_id client_id s =
     (let cfg = sg_config s;
          (price, g) = rnd_uniform R (sc_mid_price cfg - sc_price_spread_ticks cfg) (sc_mid_price cfg + sc_price_spread_ticks cfg) (sg_rng s);
          (qty, g) = rnd_uniform R (sc_min_quantity cfg) (sc_max_quantity cfg) g;
          (buy, g) = rnd_bernoulli R (sc_buy_fraction cfg) g;
          (market, g) = rnd_bernoulli R (sc_market_order_fraction cfg) g
      in (\<lparr>nom_order_id = order_id, nom_price = price, nom_quantity = qty, nom_client_id = client_id,
            nom_symbol_id = sc_symbol cfg, nom_side = (if buy then Buy else Sell),
            nom_order_type = (if market then Market else Limit), nom_time_in_force = Day\<rparr>,
          s\<lparr>sg_rng := g\<rparr>))"

text \<open>The conversion to an integer truncates.\<close>

definition next_interarrival :: "'g random_ops \<Rightarrow> (real \<Rightarrow> real) \<Rightarrow> 'g generator \<Rightarrow> nanos \<times> 'g generator" where
  "next_interarrival R fl s =
     (let (seconds, g) = rnd_exponential R (sc_mean_arrival_rate_per_sec (sg_config s)) (sg_rng s);
          x = fl (seconds * 10 ^ 9)
      in (word_of_int (if 0 \<le> x then \<lfloor>x\<rfloor> else \<lceil>x\<rceil>), s\<lparr>sg_rng := g\<rparr>))"

fun generate :: "'g random_ops \<Rightarrow> (u64 \<times> u32) list \<Rightarrow> 'g generator \<Rightarrow> new_order_message list \<times> 'g generator" where
  "generate R [] s = ([], s)"
| "generate R ((oid, client) # ids) s =
     (let (msg, s) = next_order R oid client s; (msgs, s) = generate R ids s in (msg # msgs, s))"

lemma next_order_range:
  assumes "uniform_spec R" "next_order R oid client s = (msg, s')"
    "sint (sc_min_quantity (sg_config s)) \<le> sint (sc_max_quantity (sg_config s))"
    "sint (sc_mid_price (sg_config s) - sc_price_spread_ticks (sg_config s)) \<le> sint (sc_mid_price (sg_config s) + sc_price_spread_ticks (sg_config s))"
  shows "sint (sc_mid_price (sg_config s) - sc_price_spread_ticks (sg_config s)) \<le> sint (nom_price msg)"
    "sint (nom_price msg) \<le> sint (sc_mid_price (sg_config s) + sc_price_spread_ticks (sg_config s))"
    "sint (sc_min_quantity (sg_config s)) \<le> sint (nom_quantity msg)" "sint (nom_quantity msg) \<le> sint (sc_max_quantity (sg_config s))"
    "nom_symbol_id msg = sc_symbol (sg_config s)" "nom_time_in_force msg = Day" "nom_order_id msg = oid" "nom_client_id msg = client"
    "sg_config s' = sg_config s"
proof -
  note u = uniform_specD [OF assms(1)]
  show "sint (sc_mid_price (sg_config s) - sc_price_spread_ticks (sg_config s)) \<le> sint (nom_price msg)"
    "sint (nom_price msg) \<le> sint (sc_mid_price (sg_config s) + sc_price_spread_ticks (sg_config s))"
    "sint (sc_min_quantity (sg_config s)) \<le> sint (nom_quantity msg)" "sint (nom_quantity msg) \<le> sint (sc_max_quantity (sg_config s))"
    "nom_symbol_id msg = sc_symbol (sg_config s)" "nom_time_in_force msg = Day" "nom_order_id msg = oid" "nom_client_id msg = client"
    "sg_config s' = sg_config s"
    using assms(2) u [OF _ assms(3)] u [OF _ assms(4)] by (auto simp: next_order_def Let_def split: prod.splits)
qed

text \<open>A generator whose uniform distribution always returns its lower bound, for closed instances.\<close>

definition lowest_random :: "u64 random_ops" where
  "lowest_random = \<lparr>rnd_seed = (\<lambda>s. s), rnd_uniform = (\<lambda>a b g. (a, g)), rnd_bernoulli = (\<lambda>p g. (1 / 4 < p, g)),
     rnd_exponential = (\<lambda>r g. (r, g))\<rparr>"

lemma lowest_random_uniform: "uniform_spec lowest_random"
  by (simp add: uniform_spec_def lowest_random_def)

end
