(* ===== verification/Text_Format.thy ===== *)
theory Text_Format
  imports Prelude
begin

text \<open>
  The part of the standard library's text formatting the program uses: \<open>std::to_string\<close> on the integer
  types, the padded conversions of \<open>snprintf\<close>, and \<open>std::stoi\<close> and \<open>std::stoull\<close>.  A text is a list of
  bytes, an integer argument is given by its value.
\<close>

type_synonym i32 = "32 word"

lemma sint_i32_bounds:
  fixes a :: i32
  shows "- (2 ^ 31) \<le> sint a" "sint a < 2 ^ 31"
  using sint_ge [of a] sint_lt [of a] by simp_all

lemma sint_i32_eqI [word_arith]:
  fixes a :: i32
  assumes "a = word_of_int k" "- (2 ^ 31) \<le> k" "k < 2 ^ 31"
  shows "sint a = k"
proof -
  have "sint a = signed_take_bit 31 k" using assms(1) by (simp add: sint_sbintrunc')
  also have "\<dots> = k" using assms(2,3) by (intro signed_take_bit_int_eq_self) simp_all
  finally show ?thesis .
qed

lemma sint_eq_iff_i32: "sint a = sint b \<longleftrightarrow> a = b" for a b :: i32
  using word_eq_iff_signed by blast

subsection \<open>Decimal digits\<close>

definition digit_char :: "nat \<Rightarrow> char" where
  "digit_char d = char_of (48 + d)"

definition is_digit :: "char \<Rightarrow> bool" where
  "is_digit c \<longleftrightarrow> 48 \<le> (of_char c :: nat) \<and> (of_char c :: nat) < 58"

definition digit_value :: "char \<Rightarrow> nat" where
  "digit_value c = of_char c - 48"

fun decimal :: "nat \<Rightarrow> string" where
  "decimal n = (if n < 10 then [digit_char n] else decimal (n div 10) @ [digit_char (n mod 10)])"

declare decimal.simps [simp del]

definition read_decimal :: "string \<Rightarrow> nat" where
  "read_decimal = foldl (\<lambda>n c. 10 * n + digit_value c) 0"

lemma digit_char_simps [simp]:
  assumes "d < 10"
  shows "is_digit (digit_char d)" "digit_value (digit_char d) = d"
  using assms by (simp_all add: is_digit_def digit_value_def digit_char_def)

lemma digit_char_values:
  "digit_char 0 = CHR ''0''" "digit_char 1 = CHR ''1''" "digit_char 2 = CHR ''2''" "digit_char 3 = CHR ''3''"
  "digit_char 4 = CHR ''4''" "digit_char 5 = CHR ''5''" "digit_char 6 = CHR ''6''" "digit_char 7 = CHR ''7''"
  "digit_char 8 = CHR ''8''" "digit_char 9 = CHR ''9''" "digit_char (Suc 0) = CHR ''1''"
  by code_simp+

lemma decimal_nonempty [simp]: "decimal n \<noteq> []"
  by (subst decimal.simps) simp

lemma decimal_digits: "c \<in> set (decimal n) \<Longrightarrow> is_digit c"
  by (induction n rule: decimal.induct) (subst (asm) (2) decimal.simps, auto split: if_splits)

lemma read_decimal_append: "read_decimal (xs @ [c]) = 10 * read_decimal xs + digit_value c"
  by (simp add: read_decimal_def)

lemma read_decimal_decimal [simp]: "read_decimal (decimal n) = n"
proof (induction n rule: decimal.induct)
  case (1 n)
  show ?case
  proof (cases "n < 10")
    case True
    then show ?thesis by (subst decimal.simps) (simp add: read_decimal_def)
  next
    case False
    with 1 show ?thesis by (subst decimal.simps) (simp add: read_decimal_append)
  qed
qed

lemma decimal_length: "n < 10 ^ k \<Longrightarrow> 0 < k \<Longrightarrow> length (decimal n) \<le> k"
proof (induction n arbitrary: k rule: decimal.induct)
  case (1 n)
  show ?case
  proof (cases "n < 10")
    case True
    with 1 show ?thesis by (subst decimal.simps) simp
  next
    case False
    obtain j where k: "k = Suc j" using 1(3) by (cases k) auto
    have "0 < j" using False 1(2) k by (cases j) auto
    moreover have "n div 10 < 10 ^ j" using 1(2) k by (simp add: less_mult_imp_div_less mult.commute)
    ultimately have "length (decimal (n div 10)) \<le> j" using 1(1) False by blast
    with False k show ?thesis by (subst decimal.simps) simp
  qed
qed

lemma decimal_leading_zero: "hd (decimal n) = CHR ''0'' \<longleftrightarrow> n = 0"
proof (induction n rule: decimal.induct)
  case (1 n)
  show ?case
  proof (cases "n < 10")
    case True
    have "digit_char n = CHR ''0'' \<longleftrightarrow> n = 0"
      using digit_char_simps(2) [OF True] digit_char_simps(2) [of 0] digit_char_values(1) by auto
    with True show ?thesis by (subst decimal.simps) simp
  next
    case False
    with 1 have "hd (decimal (n div 10)) \<noteq> CHR ''0''" by simp
    with False show ?thesis by (subst decimal.simps) simp
  qed
qed

subsection \<open>Printing\<close>

definition to_string :: "int \<Rightarrow> string" where
  "to_string n = (if n < 0 then CHR ''-'' # decimal (nat (- n)) else decimal (nat n))"

definition pad_left :: "nat \<Rightarrow> string \<Rightarrow> string" where
  "pad_left w s = replicate (w - length s) CHR '' '' @ s"

definition pad_right :: "nat \<Rightarrow> string \<Rightarrow> string" where
  "pad_right w s = s @ replicate (w - length s) CHR '' ''"

text \<open>\<open>snprintf\<close> keeps room for the terminating zero byte.\<close>

definition snprintf :: "nat \<Rightarrow> string \<Rightarrow> string" where
  "snprintf room s = take (room - 1) s"

lemma pad_length [simp]:
  "length (pad_left w s) = max w (length s)" "length (pad_right w s) = max w (length s)"
  by (simp_all add: pad_left_def pad_right_def)

lemma to_string_length:
  assumes "- (10 ^ k) < n" "n < 10 ^ k" "0 < k"
  shows "length (to_string n) \<le> Suc k"
proof -
  have "nat \<bar>n\<bar> < 10 ^ k" using assms(1,2) by (simp add: nat_less_iff abs_less_iff)
  then have "length (decimal (nat \<bar>n\<bar>)) \<le> k" by (rule decimal_length [OF _ assms(3)])
  then show ?thesis by (cases "n < 0") (simp_all add: to_string_def)
qed

lemma to_string_length_i64: "length (to_string (sint x)) \<le> 20" for x :: i64
  using sint_i64_bounds [of x] by (intro to_string_length [of 19, simplified]) auto

lemma to_string_length_u32: "length (to_string (uint x)) \<le> 10" for x :: u32
proof -
  have "nat (uint x) < 10 ^ 10" using unsigned_less [of x, where 'a = nat] by simp
  then have "length (decimal (nat (uint x))) \<le> 10" by (rule decimal_length) simp
  then show ?thesis by (simp add: to_string_def)
qed

subsection \<open>Reading\<close>

datatype number_error = InvalidArgument | OutOfRange

definition is_space :: "char \<Rightarrow> bool" where
  "is_space c \<longleftrightarrow> c = CHR '' '' \<or> 9 \<le> (of_char c :: nat) \<and> (of_char c :: nat) \<le> 13"

text \<open>The sign and the digits after leading white space; what follows the digits is ignored.\<close>

definition scan_number :: "string \<Rightarrow> (bool \<times> nat) option" where
  "scan_number s =
     (let t = dropWhile is_space s;
          negative = (t \<noteq> [] \<and> hd t = CHR ''-'');
          u = (if t \<noteq> [] \<and> (hd t = CHR ''-'' \<or> hd t = CHR ''+'') then tl t else t);
          ds = takeWhile is_digit u
      in if ds = [] then None else Some (negative, read_decimal ds))"

definition stoi :: "string \<Rightarrow> number_error + i32" where
  "stoi s = (case scan_number s of
     None \<Rightarrow> Inl InvalidArgument
   | Some (negative, n) \<Rightarrow>
       let v = (if negative then - int n else int n)
       in if - (2 ^ 31) \<le> v \<and> v < 2 ^ 31 then Inr (word_of_int v) else Inl OutOfRange)"

text \<open>\<open>stoull\<close> accepts a minus sign and negates the value as an unsigned number.\<close>

definition stoull :: "string \<Rightarrow> number_error + u64" where
  "stoull s = (case scan_number s of
     None \<Rightarrow> Inl InvalidArgument
   | Some (negative, n) \<Rightarrow>
       if n < 2 ^ 64 then Inr (if negative then - of_nat n else of_nat n) else Inl OutOfRange)"

lemma digit_not_other:
  assumes "is_digit c"
  shows "\<not> is_space c" "c \<noteq> CHR ''-''" "c \<noteq> CHR ''+''"
  using assms by (auto simp: is_digit_def is_space_def)

lemma decimal_hd: "is_digit (hd (decimal n))"
  using decimal_digits [OF hd_in_set [OF decimal_nonempty]] .

lemma takeWhile_decimal: "takeWhile is_digit (decimal n) = decimal n"
  by (simp add: takeWhile_eq_all_conv decimal_digits)

lemma scan_number_to_string: "scan_number (to_string n) = Some (n < 0, nat \<bar>n\<bar>)"
proof -
  have d: "dropWhile is_space (decimal k) = decimal k" for k
    using digit_not_other(1) [OF decimal_hd [of k]] by (cases "decimal k") simp_all
  show ?thesis
    using digit_not_other [OF decimal_hd [of "nat n"]]
    by (cases "n < 0") (simp_all add: to_string_def scan_number_def d takeWhile_decimal is_space_def)
qed

lemma stoi_to_string: "stoi (to_string (sint x)) = Inr x"
  using sint_i32_bounds [of x] by (simp add: stoi_def scan_number_to_string)

lemma stoull_to_string: "stoull (to_string (uint x)) = Inr x"
  using unsigned_less [of x, where 'a = nat] by (simp add: stoull_def scan_number_to_string not_less)

end
