(* ===== verification/Json.thy ===== *)
theory Json
  imports Text_Format
begin

text \<open>
  A reference reader for the JSON texts the program writes.  \<open>json_text\<close> is the grammar, with white space
  between tokens, and \<open>parse_json\<close> a recursive descent parser; on a text of the grammar the parser returns
  the value the text stands for.  Numbers are integers and strings occur as member names, without escapes.
\<close>

datatype json = JNull | JNumber int | JArray "json list" | JObject "(string \<times> json) list"

definition white :: "char \<Rightarrow> bool" where
  "white c \<longleftrightarrow> c = CHR '' '' \<or> (of_char c :: nat) \<in> {9, 10, 13}"

abbreviation blank :: "string \<Rightarrow> bool" where
  "blank w \<equiv> list_all white w"

abbreviation quote :: char where
  "quote \<equiv> CHR 0x22"

subsection \<open>The grammar\<close>

inductive json_text :: "json \<Rightarrow> string \<Rightarrow> bool"
  and elements_text :: "json list \<Rightarrow> string \<Rightarrow> bool"
  and members_text :: "(string \<times> json) list \<Rightarrow> string \<Rightarrow> bool" where
  json_null: "blank w \<Longrightarrow> json_text JNull (w @ ''null'')"
| json_number: "blank w \<Longrightarrow> json_text (JNumber n) (w @ to_string n)"
| json_empty: "blank w \<Longrightarrow> blank w' \<Longrightarrow> json_text (JArray []) (w @ ''['' @ w' @ '']'')"
| json_array: "blank w \<Longrightarrow> elements_text vs s \<Longrightarrow> json_text (JArray vs) (w @ ''['' @ s)"
| json_object: "blank w \<Longrightarrow> members_text ms s \<Longrightarrow> json_text (JObject ms) (w @ ''{'' @ s)"
| last_element: "json_text v s \<Longrightarrow> blank w \<Longrightarrow> elements_text [v] (s @ w @ '']'')"
| more_elements: "json_text v s \<Longrightarrow> blank w \<Longrightarrow> elements_text vs t \<Longrightarrow> elements_text (v # vs) (s @ w @ '','' @ t)"
| last_member: "json_text v s \<Longrightarrow> quote \<notin> set k \<Longrightarrow> blank w \<Longrightarrow>
    members_text [(k, v)] ([quote] @ k @ [quote] @ '':'' @ s @ w @ ''}'')"
| more_members: "json_text v s \<Longrightarrow> quote \<notin> set k \<Longrightarrow> blank w \<Longrightarrow> members_text ms t \<Longrightarrow>
    members_text ((k, v) # ms) ([quote] @ k @ [quote] @ '':'' @ s @ w @ '','' @ t)"

subsection \<open>The parser\<close>

definition skip_white :: "string \<Rightarrow> string" where
  "skip_white = dropWhile white"

definition parse_number :: "string \<Rightarrow> (json \<times> string) option" where
  "parse_number s =
     (let u = (if s \<noteq> [] \<and> hd s = CHR ''-'' then tl s else s); ds = takeWhile is_digit u
      in if ds = [] \<or> hd ds = CHR ''0'' \<and> tl ds \<noteq> [] then None
         else Some (JNumber (if s \<noteq> u then - int (read_decimal ds) else int (read_decimal ds)), dropWhile is_digit u))"

text \<open>The first argument bounds the depth of the calls; the length of the text is always enough.\<close>

fun parse_value :: "nat \<Rightarrow> string \<Rightarrow> (json \<times> string) option"
  and parse_elements :: "nat \<Rightarrow> string \<Rightarrow> (json list \<times> string) option"
  and parse_members :: "nat \<Rightarrow> string \<Rightarrow> ((string \<times> json) list \<times> string) option" where
  "parse_value 0 s = None"
| "parse_value (Suc n) s =
     (case skip_white s of
        [] \<Rightarrow> None
      | c # r \<Rightarrow>
          if c = CHR ''['' then
            (if skip_white r \<noteq> [] \<and> hd (skip_white r) = CHR '']'' then Some (JArray [], tl (skip_white r))
             else map_option (apfst JArray) (parse_elements n r))
          else if c = CHR ''{'' then map_option (apfst JObject) (parse_members n r)
          else if c = CHR ''n'' then (if take 3 r = ''ull'' then Some (JNull, drop 3 r) else None)
          else parse_number (c # r))"
| "parse_elements 0 s = None"
| "parse_elements (Suc n) s =
     (case parse_value n s of
        None \<Rightarrow> None
      | Some (v, r) \<Rightarrow>
          (case skip_white r of
             [] \<Rightarrow> None
           | c # r' \<Rightarrow> if c = CHR '']'' then Some ([v], r')
                      else if c = CHR '','' then map_option (apfst ((#) v)) (parse_elements n r') else None))"
| "parse_members 0 s = None"
| "parse_members (Suc n) s =
     (case skip_white s of
        [] \<Rightarrow> None
      | c # r \<Rightarrow>
          if c \<noteq> quote then None
          else (let k = takeWhile (\<lambda>c. c \<noteq> quote) r; r1 = dropWhile (\<lambda>c. c \<noteq> quote) r
            in if take 2 r1 \<noteq> [quote] @ '':'' then None
               else (case parse_value n (drop 2 r1) of
                 None \<Rightarrow> None
               | Some (v, r2) \<Rightarrow>
                   (case skip_white r2 of
                      [] \<Rightarrow> None
                    | c # r' \<Rightarrow> if c = CHR ''}'' then Some ([(k, v)], r')
                               else if c = CHR '','' then map_option (apfst ((#) (k, v))) (parse_members n r') else None))))"

definition parse_json :: "string \<Rightarrow> json option" where
  "parse_json s = (case parse_value (length s) s of
     None \<Rightarrow> None | Some (v, r) \<Rightarrow> if skip_white r = [] then Some v else None)"

subsection \<open>The parser reads the grammar\<close>

lemma skip_white_blank [simp]: "blank w \<Longrightarrow> skip_white (w @ s) = skip_white s"
  by (induction w) (simp_all add: skip_white_def)

lemma skip_white_Cons: "skip_white (c # s) = (if white c then skip_white s else c # s)"
  by (simp add: skip_white_def)

lemma white_chars [simp]:
  "\<not> white CHR ''[''" "\<not> white CHR '']''" "\<not> white CHR ''{''" "\<not> white CHR ''}''" "\<not> white CHR '',''"
  "\<not> white CHR ''n''" "\<not> white CHR ''-''" "\<not> white quote"
  by (simp_all add: white_def)

abbreviation ends_number :: "string \<Rightarrow> bool" where
  "ends_number rest \<equiv> rest = [] \<or> \<not> is_digit (hd rest)"

lemma decimal_split:
  assumes "ends_number rest"
  shows "takeWhile is_digit (decimal n @ rest) = decimal n" "dropWhile is_digit (decimal n @ rest) = rest"
  using assms by (cases rest; simp add: takeWhile_append2 dropWhile_append2 decimal_digits)+

lemma decimal_canonical: "\<not> (hd (decimal n) = CHR ''0'' \<and> tl (decimal n) \<noteq> [])"
  using decimal_leading_zero [of n] by (auto simp: decimal.simps)

lemma parse_number_to_string:
  assumes "ends_number rest"
  shows "parse_number (to_string n @ rest) = Some (JNumber n, rest)"
proof -
  have "hd (decimal k @ rest) \<noteq> CHR ''-''" for k
    using digit_not_other(2) [OF decimal_hd [of k]] by simp
  then show ?thesis
    using decimal_canonical
    by (cases "n < 0") (auto simp: parse_number_def to_string_def decimal_split [OF assms] Let_def)
qed

lemma to_string_hd:
  obtains c s where "to_string n = c # s" "\<not> white c" "c \<notin> {CHR ''['', CHR ''{'', CHR ''n''}"
proof (cases "n < 0")
  case True
  then show ?thesis by (intro that [of "CHR ''-''"]) (auto simp: to_string_def)
next
  case False
  obtain c s where cs: "decimal (nat n) = c # s" by (cases "decimal (nat n)") auto
  then have "is_digit c" using decimal_hd [of "nat n"] by simp
  with cs False show ?thesis by (intro that [of c s]) (auto simp: to_string_def white_def is_digit_def)
qed

lemma not_digit [simp]:
  "\<not> is_digit CHR '']''" "\<not> is_digit CHR '',''" "\<not> is_digit CHR ''}''"
  by (simp_all add: is_digit_def)

lemma blank_ends_number: "blank w \<Longrightarrow> \<not> is_digit c \<Longrightarrow> ends_number (w @ c # s)"
  by (cases w) (auto simp: white_def is_digit_def)

lemma member_key:
  assumes "quote \<notin> set k"
  shows "takeWhile (\<lambda>c. c \<noteq> quote) (k @ quote # s) = k" "dropWhile (\<lambda>c. c \<noteq> quote) (k @ quote # s) = quote # s"
  using assms by (induction k) auto

lemma json_text_hd:
  assumes "json_text v s"
  obtains c r where "skip_white (s @ rest) = c # r" "c \<noteq> CHR '']''"
  using assms
proof (cases rule: json_text.cases)
  case (json_number w n)
  obtain c t where "to_string n = c # t" "\<not> white c" by (rule to_string_hd)
  moreover have "c \<noteq> CHR '']''"
    using \<open>to_string n = c # t\<close> decimal_hd [of "nat n"] by (auto simp: to_string_def is_digit_def split: if_splits)
  ultimately show ?thesis using json_number that [of c "t @ rest"] by (simp add: skip_white_Cons)
qed (auto simp: skip_white_Cons intro: that)

lemma elements_text_hd:
  assumes "elements_text vs s"
  obtains c r where "skip_white (s @ rest) = c # r" "c \<noteq> CHR '']''"
  using assms
proof (cases rule: elements_text.cases)
  case (last_element v t w)
  then show ?thesis using json_text_hd [of v t "w @ '']'' @ rest" thesis] that by simp
next
  case (more_elements v t w vs' u)
  then show ?thesis using json_text_hd [of v t "w @ '','' @ u @ rest" thesis] that by simp
qed

lemma parse_text:
  shows "json_text v s \<Longrightarrow> length s \<le> n \<Longrightarrow> ends_number rest \<Longrightarrow> parse_value n (s @ rest) = Some (v, rest)"
    and "elements_text vs s \<Longrightarrow> length s \<le> n \<Longrightarrow> parse_elements n (s @ rest) = Some (vs, rest)"
    and "members_text ms s \<Longrightarrow> length s \<le> n \<Longrightarrow> parse_members n (s @ rest) = Some (ms, rest)"
proof (induction arbitrary: n rest and n rest and n rest rule: json_text_elements_text_members_text.inducts)
  case (json_null w)
  then show ?case by (cases n) (simp_all add: skip_white_Cons)
next
  case (json_number w k)
  obtain c t where ct: "to_string k = c # t" "\<not> white c" "c \<notin> {CHR ''['', CHR ''{'', CHR ''n''}" by (rule to_string_hd)
  show ?case using json_number ct parse_number_to_string [of rest k]
    by (cases n) (simp_all add: skip_white_Cons)
next
  case (json_empty w w')
  then show ?case by (cases n) (simp_all add: skip_white_Cons)
next
  case (json_array w vs s)
  obtain c r where "skip_white (s @ rest) = c # r" "c \<noteq> CHR '']''" using elements_text_hd [OF json_array(2)] .
  with json_array show ?case by (cases n) (simp_all add: skip_white_Cons)
next
  case (json_object w ms s)
  then show ?case by (cases n) (simp_all add: skip_white_Cons)
next
  case (last_element v s w)
  note ih = last_element.IH [OF _ blank_ends_number [OF last_element.hyps(2), of "CHR '']''" rest]]
  show ?case using last_element.prems last_element.hyps(2) ih [of "n - 1"]
    by (cases n) (simp_all add: skip_white_Cons)
next
  case (more_elements v s w vs t)
  note ih = more_elements.IH(1) [OF _ blank_ends_number [OF more_elements.hyps(2), of "CHR '',''" "t @ rest"]]
  show ?case using more_elements.prems more_elements.hyps(2) ih [of "n - 1"] more_elements.IH(2) [of "n - 1" rest]
    by (cases n) (simp_all add: skip_white_Cons)
next
  case (last_member v s k w)
  note ih = last_member.IH [OF _ blank_ends_number [OF last_member.hyps(3), of "CHR ''}''" rest]]
  show ?case using last_member.prems last_member.hyps(3) ih [of "n - 1"] member_key [OF last_member.hyps(2)]
    by (cases n) (simp_all add: skip_white_Cons)
next
  case (more_members v s k w ms t)
  note ih = more_members.IH(1) [OF _ blank_ends_number [OF more_members.hyps(3), of "CHR '',''" "t @ rest"]]
  show ?case using more_members.prems more_members.hyps(3) ih [of "n - 1"] more_members.IH(2) [of "n - 1" rest]
    member_key [OF more_members.hyps(2)] by (cases n) (simp_all add: skip_white_Cons)
qed

lemma parse_json_text:
  assumes "json_text v s" "blank w"
  shows "parse_json (s @ w) = Some v"
proof -
  have "ends_number w" using assms(2) by (cases w) (auto simp: white_def is_digit_def)
  then have "parse_value (length (s @ w)) (s @ w) = Some (v, w)" by (intro parse_text(1) [OF assms(1)]) simp
  moreover have "skip_white w = []" using skip_white_blank [OF assms(2), of "[]"] by (simp add: skip_white_def)
  ultimately show ?thesis by (simp add: parse_json_def)
qed

end
