(* ===== verification/Book_Viewer.thy ===== *)
theory Book_Viewer
  imports Subscriber Feed_Properties Synthetic Json "HOL-Library.Signed_Division"
begin

text \<open>
  \<open>apps/bookview/main.cpp\<close>: a terminal view of the book during a synthetic session, which can also record
  its frames as JSON.  What the program prints, sleeps and writes is collected in its state.  The type \<open>int\<close>
  is a 32-bit word read with \<open>sint\<close>; the counter of the main loop wraps around, so the loop is a partial
  function.
\<close>

subsection \<open>Arguments\<close>

record viewer_args =
  va_seed :: u64
  va_orders :: i32
  va_depth :: i32
  va_interval :: i32
  va_sleep_ms :: i32
  va_record_json_path :: string
  va_quiet :: bool

definition default_args :: viewer_args where
  "default_args = \<lparr>va_seed = 42, va_orders = 5000, va_depth = 8, va_interval = 5, va_sleep_ms = 40,
     va_record_json_path = [], va_quiet = False\<rparr>"

text \<open>An argument that is not recognised ends the program with status 2; a number that cannot be read is an
  exception that nothing catches.\<close>

datatype arg_error = Unrecognized string | BadNumber number_error

definition starts_with :: "string \<Rightarrow> string \<Rightarrow> bool" where
  "starts_with s p \<longleftrightarrow> take (length p) s = p"

definition parse_arg :: "viewer_args \<Rightarrow> string \<Rightarrow> arg_error + viewer_args" where
  "parse_arg args arg =
     (if starts_with arg ''--seed='' then
        map_sum BadNumber (\<lambda>v. args\<lparr>va_seed := v\<rparr>) (stoull (drop (length ''--seed='') arg))
      else if starts_with arg ''--orders='' then
        map_sum BadNumber (\<lambda>v. args\<lparr>va_orders := v\<rparr>) (stoi (drop (length ''--orders='') arg))
      else if starts_with arg ''--depth='' then
        map_sum BadNumber (\<lambda>v. args\<lparr>va_depth := v\<rparr>) (stoi (drop (length ''--depth='') arg))
      else if starts_with arg ''--interval='' then
        map_sum BadNumber (\<lambda>v. args\<lparr>va_interval := v\<rparr>) (stoi (drop (length ''--interval='') arg))
      else if starts_with arg ''--sleep-ms='' then
        map_sum BadNumber (\<lambda>v. args\<lparr>va_sleep_ms := v\<rparr>) (stoi (drop (length ''--sleep-ms='') arg))
      else if starts_with arg ''--record-json='' then
        Inr (args\<lparr>va_record_json_path := drop (length ''--record-json='') arg\<rparr>)
      else if arg = ''--quiet'' then Inr (args\<lparr>va_quiet := True\<rparr>)
      else Inl (Unrecognized arg))"

fun parse_args_from :: "viewer_args \<Rightarrow> string list \<Rightarrow> arg_error + viewer_args" where
  "parse_args_from args [] = Inr args"
| "parse_args_from args (arg # rest) =
     (case parse_arg args arg of Inl e \<Rightarrow> Inl e | Inr args1 \<Rightarrow> parse_args_from args1 rest)"

definition parse_args :: "string list \<Rightarrow> arg_error + viewer_args" where
  "parse_args argv = parse_args_from default_args (drop 1 argv)"

subsection \<open>A frame\<close>

definition kReset :: string where "kReset = CHR 0x1B # ''[0m''"
definition kGreen :: string where "kGreen = CHR 0x1B # ''[32m''"
definition kRed :: string where "kRed = CHR 0x1B # ''[31m''"
definition kBold :: string where "kBold = CHR 0x1B # ''[1m''"
definition kDim :: string where "kDim = CHR 0x1B # ''[2m''"
definition kClearAndHome :: string where "kClearAndHome = [CHR 0x1B] @ ''[2J'' @ [CHR 0x1B] @ ''[H''"

abbreviation newline :: string where
  "newline \<equiv> [CHR 0x0A]"

record level_view =
  lv_price :: i64
  lv_qty :: i64
  lv_count :: u32

record trade_view =
  tv_price :: i64
  tv_qty :: i64

definition collect_view :: "i32 \<Rightarrow> price \<Rightarrow> price_level \<Rightarrow> level_view list \<Rightarrow> bool \<times> level_view list" where
  "collect_view depth price lvl out =
     (let out' = out @ [\<lparr>lv_price = price, lv_qty = pl_total_quantity lvl, lv_count = pl_order_count lvl\<rparr>]
      in (sint (of_nat (length out') :: i32) < sint depth, out'))"

definition collect_levels :: "'m order_book \<Rightarrow> side \<Rightarrow> i32 \<Rightarrow> level_view list" where
  "collect_levels b s depth = for_each_level b s (collect_view depth) []"

definition kBarWidth :: int where
  "kBarWidth = 24"

definition max_i64 :: "i64 \<Rightarrow> i64 \<Rightarrow> i64" where
  "max_i64 a b = (if sint a < sint b then b else a)"

definition bar :: "i64 \<Rightarrow> i64 \<Rightarrow> string" where
  "bar bar_scale qty =
     (let filled = sint (word_of_int (sint (qty * word_of_int kBarWidth) sdiv sint bar_scale) :: i32)
      in replicate (nat (max 0 (min kBarWidth filled))) CHR ''#'')"

definition level_line :: "i64 \<Rightarrow> level_view \<Rightarrow> string" where
  "level_line bar_scale lvl = snprintf 256
     (''  '' @ pad_left 8 (to_string (sint (lv_price lvl))) @ ''  '' @ pad_right 24 (bar bar_scale (lv_qty lvl)) @
      ''  qty='' @ pad_right 6 (to_string (sint (lv_qty lvl))) @ ''  n='' @ to_string (uint (lv_count lvl)))"

definition trade_line :: "trade_view \<Rightarrow> string" where
  "trade_line t = snprintf 256
     (''  last trade: '' @ to_string (sint (tv_price t)) @ '' @ qty '' @ to_string (sint (tv_qty t)))"

definition rule_line :: string where
  "rule_line = ''  --------------------------------------------------------------'' @ newline"

definition render_frame ::
    "i32 \<Rightarrow> i32 \<Rightarrow> level_view list \<Rightarrow> level_view list \<Rightarrow> trade_view option \<Rightarrow> i64 \<Rightarrow> string" where
  "render_frame order_index total_orders bids asks last_trade max_qty_seen =
     (let bar_scale = max_i64 1 max_qty_seen
      in kClearAndHome @ kBold @
         ''JANE '' @ [CHR 0xE2, CHR 0x80, CHR 0x94] @ '' live order book (synthetic session)'' @ newline @ kReset @ kDim @
         ''order '' @ to_string (sint order_index) @ '' / '' @ to_string (sint total_orders) @ newline @ newline @ kReset @
         concat (map (\<lambda>lvl. kRed @ level_line bar_scale lvl @ kReset @ newline) (rev asks)) @
         kDim @ rule_line @
         (case last_trade of None \<Rightarrow> [] | Some t \<Rightarrow> trade_line t @ newline) @
         rule_line @ kReset @
         concat (map (\<lambda>lvl. kGreen @ level_line bar_scale lvl @ kReset @ newline) bids))"

subsection \<open>The recording\<close>

fun write_frames :: "string list \<Rightarrow> string" where
  "write_frames [] = []"
| "write_frames (f # fs) = f @ (if fs \<noteq> [] then '','' else []) @ newline @ write_frames fs"

definition write_json_array :: "string list \<Rightarrow> string" where
  "write_json_array frames = ''['' @ newline @ write_frames frames @ '']'' @ newline"

definition json_key :: "string \<Rightarrow> string" where
  "json_key k = [quote] @ k @ [quote] @ '':''"

definition level_json :: "level_view \<Rightarrow> string" where
  "level_json l = ''{'' @ json_key ''price'' @ to_string (sint (lv_price l)) @ '','' @
     json_key ''qty'' @ to_string (sint (lv_qty l)) @ '','' @
     json_key ''count'' @ to_string (uint (lv_count l)) @ ''}''"

fun levels_json_items :: "level_view list \<Rightarrow> string" where
  "levels_json_items [] = []"
| "levels_json_items (l # ls) = level_json l @ concat (map (\<lambda>l. '','' @ level_json l) ls)"

definition levels_json :: "level_view list \<Rightarrow> string" where
  "levels_json levels = ''['' @ levels_json_items levels @ '']''"

definition frame_to_json :: "i32 \<Rightarrow> level_view list \<Rightarrow> level_view list \<Rightarrow> trade_view option \<Rightarrow> string" where
  "frame_to_json order_index bids asks last_trade =
     ''  {'' @ json_key ''order_index'' @ to_string (sint order_index) @
     '','' @ json_key ''bids'' @ levels_json bids @
     '','' @ json_key ''asks'' @ levels_json asks @
     (case last_trade of
        Some t \<Rightarrow> '','' @ json_key ''last_trade'' @ ''{'' @ json_key ''price'' @ to_string (sint (tv_price t)) @
                  '','' @ json_key ''qty'' @ to_string (sint (tv_qty t)) @ ''}''
      | None \<Rightarrow> '','' @ json_key ''last_trade'' @ ''null'') @
     ''}''"

subsection \<open>The program\<close>

record ('m, 'x, 'g) viewer =
  bv_pipeline :: "('m, 'x, in_memory_sink) replay_engine"
  bv_gen :: "'g generator"
  bv_clock :: deterministic_clock
  bv_last_trade :: "trade_view option"
  bv_max_qty_seen :: i64
  bv_json_frames :: "string list"
  bv_stdout :: string
  bv_slept_ms :: int

abbreviation viewer_book :: "('m, 'x, 'g) viewer \<Rightarrow> 'm order_book" where
  "viewer_book v \<equiv> me_book (rp_matching (bv_pipeline v))"

definition viewer_limits :: limits where
  "viewer_limits = \<lparr>lim_max_order_size = 1000000, lim_max_position = 10000000, lim_max_loss_per_client = - 1000000000000\<rparr>"

definition viewer_config :: "(real \<Rightarrow> real) \<Rightarrow> u64 \<Rightarrow> synthetic_config" where
  "viewer_config fl seed = \<lparr>sc_seed = seed, sc_symbol = 1, sc_mid_price = 9000, sc_price_spread_ticks = 150,
     sc_min_quantity = 1, sc_max_quantity = 100, sc_market_order_fraction = fl (5 / 100),
     sc_buy_fraction = fl (1 / 2), sc_mean_arrival_rate_per_sec = fl 1000\<rparr>"

definition viewer_init ::
    "'m index_ops \<Rightarrow> 'x exposure_ops \<Rightarrow> 'g random_ops \<Rightarrow> (real \<Rightarrow> real) \<Rightarrow> viewer_args \<Rightarrow> ('m, 'x, 'g) viewer" where
  "viewer_init H X R fl args =
     \<lparr>bv_pipeline = replay_init (engine_init H 4096 200000 1 8800) (risk_engine_init X viewer_limits)
        (publisher_init \<lparr>ims_buffer = []\<rparr> (2 ^ 20)),
      bv_gen = generator_init R (viewer_config fl (va_seed args)), bv_clock = clock_init 0 1,
      bv_last_trade = None, bv_max_qty_seen = 1, bv_json_frames = [], bv_stdout = [], bv_slept_ms = 0\<rparr>"

text \<open>One order of the session, and the guess whether it traded.\<close>

definition viewer_order ::
    "'m index_ops \<Rightarrow> 'x exposure_ops \<Rightarrow> 'g random_ops \<Rightarrow> i32 \<Rightarrow> ('m, 'x, 'g) viewer \<Rightarrow> ('m, 'x, 'g) viewer option" where
  "viewer_order H X R i v =
     (let (msg, gen) = next_order R (word_of_int (sint i)) (word_of_int (1 + sint i smod 20)) (bv_gen v);
          was_market = (nom_order_type msg = Market);
          price_before_ask = best_ask (viewer_book v);
          price_before_bid = best_bid (viewer_book v);
          (now, clock) = clock_tick (bv_clock v)
      in case process_new_order H X ims_write (bv_pipeline v) msg now of
           None \<Rightarrow> None
         | Some pipeline \<Rightarrow>
             let v1 = v\<lparr>bv_pipeline := pipeline, bv_gen := gen, bv_clock := clock\<rparr>
             in Some (if was_market \<or> best_ask (viewer_book v1) \<noteq> price_before_ask \<or> best_bid (viewer_book v1) \<noteq> price_before_bid
                      then (case level_at (viewer_book v1) (nom_side msg) (nom_price msg) of
                          None \<Rightarrow> v1
                        | Some level \<Rightarrow> v1\<lparr>bv_last_trade := Some \<lparr>tv_price = nom_price msg, tv_qty = nom_quantity msg\<rparr>\<rparr>)
                      else v1))"

definition viewer_show :: "viewer_args \<Rightarrow> i32 \<Rightarrow> ('m, 'x, 'g) viewer \<Rightarrow> ('m, 'x, 'g) viewer" where
  "viewer_show args i v =
     (let bids = collect_levels (viewer_book v) Buy (va_depth args);
          asks = collect_levels (viewer_book v) Sell (va_depth args);
          max_qty_seen = foldl (\<lambda>m l. max_i64 m (lv_qty l)) (bv_max_qty_seen v) (bids @ asks);
          v1 = v\<lparr>bv_max_qty_seen := max_qty_seen\<rparr>;
          v2 = (if \<not> va_quiet args
                then v1\<lparr>bv_stdout := bv_stdout v1 @ render_frame i (va_orders args) bids asks (bv_last_trade v1) max_qty_seen,
                       bv_slept_ms := bv_slept_ms v1 + max 0 (sint (va_sleep_ms args))\<rparr>
                else v1)
      in if va_record_json_path args \<noteq> []
         then v2\<lparr>bv_json_frames := bv_json_frames v2 @ [frame_to_json i bids asks (bv_last_trade v2)]\<rparr>
         else v2)"

text \<open>The remainder by an interval of zero is a division by zero, which ends the program.\<close>

datatype viewer_error = ArgError arg_error | DivisionByZero

definition viewer_turn ::
    "'m index_ops \<Rightarrow> 'x exposure_ops \<Rightarrow> 'g random_ops \<Rightarrow> viewer_args \<Rightarrow> i32 \<Rightarrow> ('m, 'x, 'g) viewer \<Rightarrow>
       (viewer_error + ('m, 'x, 'g) viewer) option" where
  "viewer_turn H X R args i v =
     (case viewer_order H X R i v of
        None \<Rightarrow> None
      | Some v1 \<Rightarrow>
          if va_interval args = 0 then Some (Inl DivisionByZero)
          else if sint i smod sint (va_interval args) = 0 \<or> i = va_orders args then Some (Inr (viewer_show args i v1))
          else Some (Inr v1))"

partial_function (option) viewer_loop ::
    "'m index_ops \<Rightarrow> 'x exposure_ops \<Rightarrow> 'g random_ops \<Rightarrow> viewer_args \<Rightarrow> i32 \<Rightarrow> ('m, 'x, 'g) viewer \<Rightarrow>
       (viewer_error + ('m, 'x, 'g) viewer) option" where
  "viewer_loop H X R args i v =
     (if sint i \<le> sint (va_orders args) then
        case viewer_turn H X R args i v of
          None \<Rightarrow> None
        | Some (Inl e) \<Rightarrow> Some (Inl e)
        | Some (Inr v1) \<Rightarrow> viewer_loop H X R args (i + 1) v1
      else Some (Inr v))"

record viewer_output =
  vo_stdout :: string
  vo_stderr :: string
  vo_file :: "(string \<times> string) option"

definition bookview_main ::
    "'m index_ops \<Rightarrow> 'x exposure_ops \<Rightarrow> 'g random_ops \<Rightarrow> (real \<Rightarrow> real) \<Rightarrow> string list \<Rightarrow>
       (viewer_error + viewer_output) option" where
  "bookview_main H X R fl argv =
     (case parse_args argv of
        Inl e \<Rightarrow> Some (Inl (ArgError e))
      | Inr args \<Rightarrow>
          (case viewer_loop H X R args 1 (viewer_init H X R fl args) of
             None \<Rightarrow> None
           | Some (Inl e) \<Rightarrow> Some (Inl e)
           | Some (Inr v) \<Rightarrow>
               if va_record_json_path args \<noteq> []
               then Some (Inr \<lparr>vo_stdout = bv_stdout v,
                 vo_stderr = ''wrote '' @ to_string (int (length (bv_json_frames v))) @ '' frames to '' @
                   va_record_json_path args @ newline,
                 vo_file = Some (va_record_json_path args, write_json_array (bv_json_frames v))\<rparr>)
               else Some (Inr \<lparr>vo_stdout = bv_stdout v, vo_stderr = [], vo_file = None\<rparr>)))"

end
