(* ===== verification/Viewer_Spec.thy ===== *)
theory Viewer_Spec
  imports Book_Viewer Matching_Properties
begin

text \<open>
  What the book viewer records and shows: the JSON value behind a recorded frame, the levels a frame holds,
  and the session the main loop runs.
\<close>

subsection \<open>The recorded text\<close>

definition level_value :: "level_view \<Rightarrow> json" where
  "level_value l = JObject [(''price'', JNumber (sint (lv_price l))), (''qty'', JNumber (sint (lv_qty l))),
     (''count'', JNumber (uint (lv_count l)))]"

definition trade_value :: "trade_view option \<Rightarrow> json" where
  "trade_value last_trade = (case last_trade of None \<Rightarrow> JNull
   | Some t \<Rightarrow> JObject [(''price'', JNumber (sint (tv_price t))), (''qty'', JNumber (sint (tv_qty t)))])"

definition frame_value :: "int \<Rightarrow> level_view list \<Rightarrow> level_view list \<Rightarrow> trade_view option \<Rightarrow> json" where
  "frame_value order_index bids asks last_trade = JObject [(''order_index'', JNumber order_index),
     (''bids'', JArray (map level_value bids)), (''asks'', JArray (map level_value asks)),
     (''last_trade'', trade_value last_trade)]"

lemmas compact_text = json_null [of "[]", simplified] json_number [of "[]", simplified]
  json_empty [of "[]" "[]", simplified] json_array [of "[]", simplified] json_object [of "[]", simplified]
  last_element [where w = "[]", simplified] more_elements [where w = "[]", simplified]

lemma last_member_text: "json_text v s \<Longrightarrow> quote \<notin> set k \<Longrightarrow> members_text [(k, v)] (json_key k @ s @ ''}'')"
  using last_member [of v s k "[]"] by (simp add: json_key_def)

lemma more_members_text:
  "json_text v s \<Longrightarrow> quote \<notin> set k \<Longrightarrow> members_text ms t \<Longrightarrow> members_text ((k, v) # ms) (json_key k @ s @ '','' @ t)"
  using more_members [of v s k "[]" ms t] by (simp add: json_key_def)

lemmas member_text = last_member_text [simplified] more_members_text [simplified]

lemma level_json_text: "json_text (level_value l) (level_json l)"
  unfolding level_value_def level_json_def append.simps by (intro compact_text member_text) simp_all

lemma level_items_text:
  "elements_text (map level_value (l # ls)) (level_json l @ concat (map (\<lambda>l. '','' @ level_json l) ls) @ '']'')"
proof (induction ls arbitrary: l)
  case Nil
  then show ?case using compact_text(6) [OF level_json_text] by simp
next
  case (Cons k ls)
  show ?case using compact_text(7) [OF level_json_text Cons.IH [of k]] by simp
qed

lemma levels_json_text: "json_text (JArray (map level_value ls)) (levels_json ls)"
proof (cases ls)
  case Nil
  then show ?thesis using compact_text(3) by (simp add: levels_json_def)
next
  case (Cons l ls')
  show ?thesis using compact_text(4) [OF level_items_text [of l ls']] by (simp add: levels_json_def Cons)
qed

lemma frame_json_text: "json_text (frame_value (sint i) bids asks t) (frame_to_json i bids asks t)"
proof -
  have "json_text (trade_value t) (case t of
      Some t \<Rightarrow> ''{'' @ json_key ''price'' @ to_string (sint (tv_price t)) @
                  '','' @ json_key ''qty'' @ to_string (sint (tv_qty t)) @ ''}''
      | None \<Rightarrow> ''null'')" (is "json_text _ ?t")
    unfolding trade_value_def append.simps
    by (cases t) (auto intro!: compact_text member_text)
  then have "members_text [(''order_index'', JNumber (sint i)), (''bids'', JArray (map level_value bids)),
      (''asks'', JArray (map level_value asks)), (''last_trade'', trade_value t)]
    (json_key ''order_index'' @ to_string (sint i) @ CHR '','' # json_key ''bids'' @ levels_json bids @
      CHR '','' # json_key ''asks'' @ levels_json asks @ CHR '','' # json_key ''last_trade'' @ ?t @ ''}'')"
    by (intro member_text compact_text levels_json_text) simp_all
  from json_object [OF _ this, of "''  ''"] show ?thesis
    by (cases t) (simp_all add: frame_value_def frame_to_json_def white_def)
qed

lemma json_text_blank:
  assumes "json_text v s" "blank w"
  shows "json_text v (w @ s)"
  using assms(1)
proof (cases rule: json_text.cases)
  case (json_null u)
  then show ?thesis using json_text_elements_text_members_text.json_null [of "w @ u"] assms(2) by simp
next
  case (json_number u n)
  then show ?thesis using json_text_elements_text_members_text.json_number [of "w @ u" n] assms(2) by simp
next
  case (json_empty u u')
  then show ?thesis using json_text_elements_text_members_text.json_empty [of "w @ u" u'] assms(2) by simp
next
  case (json_array u vs t)
  then show ?thesis using json_text_elements_text_members_text.json_array [of "w @ u" vs t] assms(2) by simp
next
  case (json_object u ms t)
  then show ?thesis using json_text_elements_text_members_text.json_object [of "w @ u" ms t] assms(2) by simp
qed

lemma write_frames_text:
  "list_all2 json_text vs fs \<Longrightarrow> fs \<noteq> [] \<Longrightarrow> blank w \<Longrightarrow> elements_text vs (w @ write_frames fs @ '']'')"
proof (induction vs fs arbitrary: w rule: list_all2_induct)
  case (Cons v vs f fs)
  have first: "json_text v (w @ f)" by (rule json_text_blank [OF Cons.hyps(1) Cons.prems(2)])
  show ?case
  proof (cases "fs = []")
    case True
    then show ?thesis using Cons.hyps(2) last_element [OF first, of newline] by (simp add: white_def)
  next
    case False
    then have "elements_text vs (newline @ write_frames fs @ '']'')" by (intro Cons.IH) (simp_all add: white_def)
    from compact_text(7) [OF first this] False show ?thesis by simp
  qed
qed simp

lemma parse_recording:
  assumes "list_all2 json_text vs fs"
  shows "parse_json (write_json_array fs) = Some (JArray vs)"
proof -
  have nl: "blank newline" by (simp add: white_def)
  have "json_text (JArray vs) (''['' @ newline @ write_frames fs @ '']'')"
  proof (cases "fs = []")
    case True
    then show ?thesis using assms json_empty [of "[]" newline] nl by simp
  next
    case False
    then show ?thesis using json_array [OF _ write_frames_text [OF assms False nl], of "[]"] by simp
  qed
  from parse_json_text [OF this nl] show ?thesis by (simp add: write_json_array_def)
qed

subsection \<open>The levels of a frame\<close>

definition level_view_of :: "price_level_record \<Rightarrow> level_view" where
  "level_view_of r = \<lparr>lv_price = plr_price r, lv_qty = plr_aggregate_quantity r, lv_count = plr_order_count r\<rparr>"

definition best_levels :: "'m order_book \<Rightarrow> side \<Rightarrow> int \<Rightarrow> level_view list" where
  "best_levels b s depth = map level_view_of (snapshot_levels b s (nat depth))"

lemma collect_view_visit:
  "length out + length L < 2 ^ 31 \<Longrightarrow> visit_all (\<lambda>i. collect_view depth (price_at b i) (level_for b s i)) L out =
     visit_all (\<lambda>i out. (Suc (length out) < nat (sint depth), out @ [level_view_of (level_record b s i)])) L out"
proof (induction L arbitrary: out)
  case (Cons i L)
  have "sint (of_nat (Suc (length out)) :: i32) = int (Suc (length out))"
    using Cons.prems by (intro sint_i32_eqI) simp_all
  then have "sint (of_nat (Suc (length out)) :: i32) < sint depth \<longleftrightarrow> Suc (length out) < nat (sint depth)" by linarith
  then show ?case using Cons.IH [of "out @ [level_view_of (level_record b s i)]"] Cons.prems
    by (simp add: collect_view_def level_view_of_def level_record_def Let_def del: of_nat_Suc)
qed simp

lemma collect_levels_best:
  assumes "book_inv H b" "ob_num_levels b < 2 ^ 31"
  shows "collect_levels b s depth = best_levels b s (sint depth)"
proof -
  have "length (occupied_levels b s) \<le> ob_num_levels b"
    using length_filter_le [of _ "priority_indices s (ob_num_levels b)"]
    by (auto simp: occupied_levels_def priority_indices_def intro: order_trans [OF length_filter_le])
  then have "length ([] :: level_view list) + length (occupied_levels b s) < 2 ^ 31" using assms(2) by simp
  from collect_view_visit [OF this] show ?thesis
    unfolding collect_levels_def for_each_level_spec [OF assms(1)]
    by (simp add: visit_all_take best_levels_def snapshot_levels_def comp_def)
qed

subsection \<open>The session\<close>

text \<open>The main loop sends the orders \<open>1\<close>, \<open>2\<close>, \<open>\<dots>\<close> of the generator through the pipeline, under
  consecutive clock readings.\<close>

definition viewer_ids :: "nat \<Rightarrow> (u64 \<times> u32) list" where
  "viewer_ids k = map (\<lambda>i. (of_nat i, of_nat (1 + i mod 20))) [1..<Suc k]"

definition viewer_session :: "'g random_ops \<Rightarrow> 'g generator \<Rightarrow> nat \<Rightarrow> (client_message \<times> nanos) list" where
  "viewer_session R g k = map2 (\<lambda>m i. (ClientNew m, of_nat i)) (fst (generate R (viewer_ids k) g)) [0..<k]"

definition book_after ::
    "'m index_ops \<Rightarrow> 'x exposure_ops \<Rightarrow> 'g random_ops \<Rightarrow> ('m, 'x, 'g) viewer \<Rightarrow> nat \<Rightarrow> 'm order_book" where
  "book_after H X R v k =
     me_book (rp_matching (the (run_session H X ims_write (bv_pipeline v) (viewer_session R (bv_gen v) k))))"

definition shown :: "viewer_args \<Rightarrow> nat \<Rightarrow> bool" where
  "shown args i \<longleftrightarrow> sint (va_interval args) dvd int i \<or> int i = sint (va_orders args)"

lemma generate_append:
  "generate R (xs @ ys) g = (fst (generate R xs g) @ fst (generate R ys (snd (generate R xs g))),
     snd (generate R ys (snd (generate R xs g))))"
  by (induction xs arbitrary: g) (auto simp: Let_def split: prod.split)

lemma generate_length: "length (fst (generate R xs g)) = length xs"
  by (induction xs arbitrary: g) (auto simp: Let_def split: prod.split, metis fst_conv)

lemma run_session_append:
  "run_session H X W r (xs @ ys) = (case run_session H X W r xs of None \<Rightarrow> None | Some r1 \<Rightarrow> run_session H X W r1 ys)"
  by (induction xs arbitrary: r) (auto split: option.split)

lemma viewer_ids_Suc: "viewer_ids (Suc k) = viewer_ids k @ [(of_nat (Suc k), of_nat (1 + Suc k mod 20))]"
  by (simp add: viewer_ids_def)

definition viewer_next :: "'g random_ops \<Rightarrow> nat \<Rightarrow> 'g generator \<Rightarrow> new_order_message \<times> 'g generator" where
  "viewer_next R k g = next_order R (of_nat k) (of_nat (1 + k mod 20)) g"

lemma generate_Suc:
  "snd (generate R (viewer_ids (Suc k)) g) = snd (viewer_next R (Suc k) (snd (generate R (viewer_ids k) g)))"
  by (simp add: viewer_ids_Suc generate_append viewer_next_def split: prod.split del: of_nat_Suc)

lemma viewer_session_Suc:
  "viewer_session R g (Suc k) =
     viewer_session R g k @ [(ClientNew (fst (viewer_next R (Suc k) (snd (generate R (viewer_ids k) g)))), of_nat k)]"
proof -
  have "length (fst (generate R (viewer_ids k) g)) = length [0..<k]" by (simp add: generate_length viewer_ids_def)
  then show ?thesis
    by (simp add: viewer_session_def viewer_ids_Suc generate_append viewer_next_def split: prod.split del: of_nat_Suc)
qed

subsection \<open>The main loop\<close>

lemma viewer_counter:
  assumes "k < 2 ^ 31"
  shows "sint (of_nat k :: i32) = int k"
  using assms by (intro sint_i32_eqI) simp_all

lemma smod_of_nat: "int k smod 20 = int (k mod 20)"
  by (cases "k = 0") (simp_all add: smod_int_alt_def of_nat_mod)

lemma smod_eq_0_iff: "d \<noteq> 0 \<Longrightarrow> a smod d = 0 \<longleftrightarrow> d dvd a" for a d :: int
  by (auto simp: smod_int_alt_def sgn_0_0 mod_eq_0_iff_dvd)

lemma viewer_order_spec:
  assumes inv: "engine_inv H (rp_matching (bv_pipeline v))" and k: "k < 2 ^ 31"
  obtains v' where "viewer_order H X R (of_nat k) v = Some v'"
    "process_message H X ims_write (bv_pipeline v) (ClientNew (fst (viewer_next R k (bv_gen v)))) (dc_current (bv_clock v)) =
      Some (bv_pipeline v')"
    "engine_inv H (rp_matching (bv_pipeline v'))" "same_config (viewer_book v) (viewer_book v')"
    "bv_gen v' = snd (viewer_next R k (bv_gen v))" "bv_clock v' = snd (clock_tick (bv_clock v))"
    "bv_json_frames v' = bv_json_frames v" "bv_stdout v' = bv_stdout v"
proof -
  obtain msg g where msg: "viewer_next R k (bv_gen v) = (msg, g)" by fastforce
  have draw: "next_order R (word_of_int (sint (of_nat k :: i32))) (word_of_int (1 + sint (of_nat k :: i32) smod 20)) (bv_gen v) = (msg, g)"
    using msg by (simp add: viewer_counter [OF k] viewer_next_def smod_of_nat of_nat_mod flip: of_nat_mod)
  from memory_sink.process_message_spec [OF inv, of X "ClientNew msg" "dc_current (bv_clock v)"] obtain r where
    r: "process_new_order H X ims_write (bv_pipeline v) msg (dc_current (bv_clock v)) = Some r" "engine_inv H (rp_matching r)"
      "same_config (viewer_book v) (me_book (rp_matching r))" by (auto simp: refreshes_def)
  let ?v = "v\<lparr>bv_pipeline := r, bv_gen := g, bv_clock := snd (clock_tick (bv_clock v))\<rparr>"
  have "\<exists>v'. viewer_order H X R (of_nat k) v = Some v' \<and> (v' = ?v \<or> (\<exists>t. v' = ?v\<lparr>bv_last_trade := t\<rparr>))"
    unfolding viewer_order_def draw clock_tick_def using r(1) by (auto simp: Let_def split: option.split)
  then obtain v' where "viewer_order H X R (of_nat k) v = Some v'" "v' = ?v \<or> (\<exists>t. v' = ?v\<lparr>bv_last_trade := t\<rparr>)"
    by blast
  then show ?thesis using r msg by (intro that [of v']) auto
qed

text \<open>A value that records the best levels of the book after \<open>i\<close> orders.\<close>

definition records_book ::
    "'m index_ops \<Rightarrow> 'x exposure_ops \<Rightarrow> 'g random_ops \<Rightarrow> viewer_args \<Rightarrow> ('m, 'x, 'g) viewer \<Rightarrow> nat \<Rightarrow> json \<Rightarrow> bool" where
  "records_book H X R args v0 i j \<longleftrightarrow> (\<exists>t. j = frame_value (int i)
     (best_levels (book_after H X R v0 i) Buy (sint (va_depth args)))
     (best_levels (book_after H X R v0 i) Sell (sint (va_depth args))) t)"

lemma list_all2_through:
  "list_all2 (\<lambda>x z. \<exists>y. P x y \<and> Q y z) xs zs \<Longrightarrow> \<exists>ys. list_all2 P xs ys \<and> list_all2 Q ys zs"
proof (induction xs zs rule: list_all2_induct)
  case (Cons x xs z zs)
  then obtain y ys where "list_all2 P (x # xs) (y # ys) \<and> list_all2 Q (y # ys) (z # zs)" by auto
  then show ?case by blast
qed simp

text \<open>The state after \<open>k\<close> turns, for a viewer that started in \<open>v0\<close>.\<close>

definition viewer_at ::
    "'m index_ops \<Rightarrow> 'x exposure_ops \<Rightarrow> 'g random_ops \<Rightarrow> viewer_args \<Rightarrow> ('m, 'x, 'g) viewer \<Rightarrow> nat \<Rightarrow>
       ('m, 'x, 'g) viewer \<Rightarrow> bool" where
  "viewer_at H X R args v0 k v \<longleftrightarrow>
     run_session H X ims_write (bv_pipeline v0) (viewer_session R (bv_gen v0) k) = Some (bv_pipeline v) \<and>
     engine_inv H (rp_matching (bv_pipeline v)) \<and> ob_num_levels (viewer_book v) < 2 ^ 31 \<and>
     bv_gen v = snd (generate R (viewer_ids k) (bv_gen v0)) \<and> bv_clock v = clock_init (of_nat k) 1 \<and>
     (va_record_json_path args \<noteq> [] \<longrightarrow>
        list_all2 (\<lambda>i f. \<exists>v. records_book H X R args v0 i v \<and> json_text v f)
        (filter (shown args) [1..<Suc k]) (bv_json_frames v))"

lemma viewer_show_keeps:
  "bv_pipeline (viewer_show args i v) = bv_pipeline v" "bv_gen (viewer_show args i v) = bv_gen v"
  "bv_clock (viewer_show args i v) = bv_clock v"
  "va_record_json_path args \<noteq> [] \<Longrightarrow> bv_json_frames (viewer_show args i v) = bv_json_frames v @
    [frame_to_json i (collect_levels (viewer_book v) Buy (va_depth args))
      (collect_levels (viewer_book v) Sell (va_depth args)) (bv_last_trade v)]"
  by (simp_all add: viewer_show_def Let_def)

lemma viewer_turn_spec:
  assumes at: "viewer_at H X R args v0 k v" and k: "Suc k < 2 ^ 31" and interval: "va_interval args \<noteq> 0"
  obtains v' where "viewer_turn H X R args (of_nat (Suc k)) v = Some (Inr v')" "viewer_at H X R args v0 (Suc k) v'"
proof -
  have inv: "engine_inv H (rp_matching (bv_pipeline v))" using at by (simp add: viewer_at_def)
  obtain v1 where v1: "viewer_order H X R (of_nat (Suc k)) v = Some v1"
    "process_message H X ims_write (bv_pipeline v) (ClientNew (fst (viewer_next R (Suc k) (bv_gen v)))) (dc_current (bv_clock v)) =
      Some (bv_pipeline v1)"
    "engine_inv H (rp_matching (bv_pipeline v1))" "same_config (viewer_book v) (viewer_book v1)"
    "bv_gen v1 = snd (viewer_next R (Suc k) (bv_gen v))" "bv_clock v1 = snd (clock_tick (bv_clock v))"
    "bv_json_frames v1 = bv_json_frames v"
    by (rule viewer_order_spec [OF inv k])
  have run: "run_session H X ims_write (bv_pipeline v0) (viewer_session R (bv_gen v0) (Suc k)) = Some (bv_pipeline v1)"
    using at v1(2) by (simp add: viewer_at_def viewer_session_Suc run_session_append clock_init_def del: process_message.simps)
  then have book: "book_after H X R v0 (Suc k) = viewer_book v1" by (simp add: book_after_def)
  have levels: "collect_levels (viewer_book v1) s depth = best_levels (viewer_book v1) s (sint depth)" for s depth
    using at v1(4) by (intro collect_levels_best [OF engine_invD(2) [OF v1(3)]]) (simp add: viewer_at_def same_config_def)
  have shown: "sint (of_nat (Suc k) :: i32) smod sint (va_interval args) = 0 \<or> of_nat (Suc k) = va_orders args \<longleftrightarrow>
      shown args (Suc k)"
    using interval smod_eq_0_iff [of "sint (va_interval args)" "int (Suc k)"]
      sint_eq_iff_i32 [of "of_nat (Suc k)" "va_orders args"] sint_eq_iff_i32 [of "va_interval args" 0]
    by (simp add: shown_def viewer_counter [OF k] del: of_nat_Suc)
  let ?v = "if shown args (Suc k) then viewer_show args (of_nat (Suc k)) v1 else v1"
  let ?f = "frame_to_json (of_nat (Suc k)) (best_levels (viewer_book v1) Buy (sint (va_depth args)))
    (best_levels (viewer_book v1) Sell (sint (va_depth args))) (bv_last_trade v1)"
  have frame: "\<exists>j. records_book H X R args v0 (Suc k) j \<and> json_text j ?f"
    using frame_json_text [of "of_nat (Suc k)"] unfolding records_book_def book viewer_counter [OF k] by blast
  have "viewer_turn H X R args (of_nat (Suc k)) v = Some (Inr ?v)"
    unfolding viewer_turn_def v1(1) shown [symmetric] using interval by simp
  moreover have "viewer_at H X R args v0 (Suc k) ?v"
    unfolding viewer_at_def
  proof (intro conjI impI)
    assume rec: "va_record_json_path args \<noteq> []"
    have "bv_json_frames ?v = bv_json_frames v @ (if shown args (Suc k) then [?f] else [])"
      using rec v1(7) by (simp add: viewer_show_keeps levels)
    then show "list_all2 (\<lambda>i f. \<exists>v. records_book H X R args v0 i v \<and> json_text v f)
        (filter (shown args) [1..<Suc (Suc k)]) (bv_json_frames ?v)"
      using at rec frame by (simp add: viewer_at_def list_all2_appendI del: upt_Suc add: upt_Suc_append)
  qed (use at v1 run in \<open>simp_all add: viewer_at_def viewer_show_keeps generate_Suc clock_init_def clock_tick_def same_config_def\<close>)
  ultimately show ?thesis by (rule that)
qed

lemma viewer_loop_spec:
  assumes "viewer_at H X R args v0 k v" "int (k + n) = max 0 (sint (va_orders args))" "sint (va_orders args) < 2 ^ 31 - 1"
    "va_interval args \<noteq> 0"
  shows "\<exists>v'. viewer_loop H X R args (of_nat (Suc k)) v = Some (Inr v') \<and> viewer_at H X R args v0 (k + n) v'"
  using assms
proof (induction n arbitrary: k v)
  case 0
  then have "\<not> sint (of_nat (Suc k) :: i32) \<le> sint (va_orders args)" by (subst viewer_counter) auto
  then show ?case using 0 by (subst viewer_loop.simps) (simp del: of_nat_Suc)
next
  case (Suc n)
  have k: "Suc k < 2 ^ 31" and le: "sint (of_nat (Suc k) :: i32) \<le> sint (va_orders args)"
    using Suc.prems(2,3) viewer_counter [of "Suc k"] by (auto simp: max_def split: if_splits)
  obtain v1 where v1: "viewer_turn H X R args (of_nat (Suc k)) v = Some (Inr v1)" "viewer_at H X R args v0 (Suc k) v1"
    by (rule viewer_turn_spec [OF Suc.prems(1) k Suc.prems(4)])
  from Suc.IH [OF v1(2) _ Suc.prems(3,4)] Suc.prems(2) obtain v' where
    "viewer_loop H X R args (of_nat (Suc (Suc k))) v1 = Some (Inr v')" "viewer_at H X R args v0 (Suc k + n) v'" by auto
  moreover have "viewer_loop H X R args (of_nat (Suc k)) v = viewer_loop H X R args (of_nat (Suc (Suc k))) v1"
    using le v1(1) by (subst viewer_loop.simps) (simp add: add.commute)
  ultimately show ?case by simp
qed

lemma viewer_init_at:
  assumes "hash_map_spec H"
  shows "viewer_at H X R args (viewer_init H X R fl args) 0 (viewer_init H X R fl args)"
proof -
  have "engine_inv H (engine_init H 4096 200000 1 8800)"
    by (intro engine_init_inv [OF assms]) (simp_all add: kNone_def)
  then show ?thesis
    by (simp add: viewer_at_def viewer_init_def replay_init_def viewer_session_def viewer_ids_def engine_init_def order_book_init_def)
qed

end
