(* ===== verification/Viewer_Properties.thy ===== *)
theory Viewer_Properties
  imports Viewer_Spec
begin

text \<open>
  The properties of the book viewer.
\<close>

subsection \<open>The arguments\<close>

text \<open>The command line that sets every option.\<close>

definition args_line :: "viewer_args \<Rightarrow> string list" where
  "args_line args = [''bookview'', ''--seed='' @ to_string (uint (va_seed args)), ''--orders='' @ to_string (sint (va_orders args)),
     ''--depth='' @ to_string (sint (va_depth args)), ''--interval='' @ to_string (sint (va_interval args)),
     ''--sleep-ms='' @ to_string (sint (va_sleep_ms args)), ''--record-json='' @ va_record_json_path args] @
     (if va_quiet args then [''--quiet''] else [])"

lemma parse_args_line: "parse_args (args_line args) = Inr args"
  by (cases args)
    (simp add: parse_args_def args_line_def parse_arg_def starts_with_def stoi_to_string stoull_to_string default_args_def)

lemma starts_with_iff: "starts_with s p \<longleftrightarrow> (\<exists>t. s = p @ t)"
  by (metis append_eq_conv_conj append_take_drop_id starts_with_def)

lemma starts_with_dashes: "starts_with a (''--'' @ p) \<Longrightarrow> starts_with a ''--''"
  by (auto simp: starts_with_iff)

lemma parse_args_from_append:
  "parse_args_from args (xs @ ys) = (case parse_args_from args xs of Inl e \<Rightarrow> Inl e | Inr args1 \<Rightarrow> parse_args_from args1 ys)"
  by (induction xs arbitrary: args) (auto split: sum.split)

text \<open>\<open>parse_args\<close> reads back what the options say: any setting of the options, written as a command line,
  is parsed to that setting; an argument that does not start with two dashes is refused, wherever it stands
  after them.\<close>

theorem parse_args_round_trip:
  assumes "\<not> starts_with a ''--''"
  shows "parse_args (args_line args) = Inr args \<and>
   parse_args (args_line args @ a # rest) = Inl (Unrecognized a)"
proof -
  have "a \<noteq> ''--quiet''" using assms by (auto simp: starts_with_iff)
  then have "parse_arg args a = Inl (Unrecognized a)"
    using assms starts_with_dashes [of a "''seed=''"] starts_with_dashes [of a "''orders=''"] starts_with_dashes [of a "''depth=''"]
      starts_with_dashes [of a "''interval=''"] starts_with_dashes [of a "''sleep-ms=''"] starts_with_dashes [of a "''record-json=''"]
    by (auto simp: parse_arg_def)
  moreover have "drop 1 (args_line args @ a # rest) = drop 1 (args_line args) @ a # rest" by (simp add: args_line_def)
  ultimately show ?thesis using parse_args_line [of args] by (simp add: parse_args_def parse_args_from_append)
qed

theorem parse_args_round_trip_witness:
  "\<not> starts_with ''help'' ''--'' \<and> parse_args (args_line default_args @ [''help'']) = Inl (Unrecognized ''help'')"
  using parse_args_round_trip [of "''help''" default_args "[]"] by (simp add: starts_with_def)

subsection \<open>The recording\<close>

text \<open>C19: a recorded session is a faithful record of the book.  The viewer ends, and the file it writes is a JSON
  array with one object for each order whose number is a multiple of the interval or is the last one; the object
  carries the number of the order and the best levels of either side, at most \<open>depth\<close> of them and at least one,
  of the book the pipeline holds after that many orders of the session.\<close>

theorem viewer_records_book_states:
  assumes "hash_map_spec H" "parse_args argv = Inr args" "va_interval args \<noteq> 0"
    "sint (va_orders args) < 2 ^ 31 - 1" "va_record_json_path args \<noteq> []"
  shows "\<exists>out text vs. bookview_main H X R fl argv = Some (Inr out) \<and>
    vo_file out = Some (va_record_json_path args, text) \<and> parse_json text = Some (JArray vs) \<and>
    list_all2 (records_book H X R args (viewer_init H X R fl args))
      (filter (shown args) [1..<Suc (nat (sint (va_orders args)))]) vs"
proof -
  let ?v0 = "viewer_init H X R fl args" and ?n = "nat (sint (va_orders args))"
  have "int (0 + ?n) = max 0 (sint (va_orders args))" by simp
  from viewer_loop_spec [OF viewer_init_at [OF assms(1), of X R args fl] this assms(4,3)] obtain v where
    v: "viewer_loop H X R args 1 ?v0 = Some (Inr v)" "viewer_at H X R args ?v0 ?n v" by auto
  have frames: "list_all2 (\<lambda>i f. \<exists>v. records_book H X R args ?v0 i v \<and> json_text v f)
      (filter (shown args) [1..<Suc ?n]) (bv_json_frames v)"
    using v(2) assms(5) unfolding viewer_at_def by blast
  from list_all2_through [OF frames] obtain vs where vs: "list_all2 (records_book H X R args ?v0) (filter (shown args) [1..<Suc ?n]) vs"
    "list_all2 json_text vs (bv_json_frames v)" by blast
  have "\<exists>out. bookview_main H X R fl argv = Some (Inr out) \<and>
      vo_file out = Some (va_record_json_path args, write_json_array (bv_json_frames v))"
    using assms(2,5) v(1) by (simp add: bookview_main_def)
  then show ?thesis using parse_recording [OF vs(2)] vs(1) by blast
qed

definition recording_args :: viewer_args where
  "recording_args = default_args\<lparr>va_orders := 3, va_interval := 2, va_record_json_path := ''session.json''\<rparr>"

theorem viewer_records_book_states_witness:
  "\<exists>out text vs. bookview_main fun_map fun_map lowest_random (\<lambda>x. x) (args_line recording_args) = Some (Inr out) \<and>
    vo_file out = Some (''session.json'', text) \<and> parse_json text = Some (JArray vs) \<and> length vs = 2"
proof -
  have args: "va_interval recording_args \<noteq> 0" "sint (va_orders recording_args) = 3"
    "va_record_json_path recording_args = ''session.json''" by (simp_all add: recording_args_def)
  have "[1..<Suc (nat (sint (va_orders recording_args)))] = [1, 2, 3]" by (simp add: args upt_rec)
  then have "filter (shown recording_args) [1..<Suc (nat (sint (va_orders recording_args)))] = [2, 3]"
    by (simp add: shown_def recording_args_def)
  then show ?thesis
    using viewer_records_book_states [OF fun_map_spec parse_args_line, of recording_args fun_map lowest_random "\<lambda>x. x"] args
      list_all2_lengthD by fastforce
qed

text \<open>C37: with \<open>--interval=0\<close> the viewer divides by zero on its first order, whatever the other options; nothing
  is shown or recorded.\<close>

theorem interval_zero_crashes:
  assumes "hash_map_spec H" "parse_args argv = Inr args" "va_interval args = 0" "1 \<le> sint (va_orders args)"
  shows "bookview_main H X R fl argv = Some (Inl DivisionByZero)"
proof -
  let ?v0 = "viewer_init H X R fl args"
  have inv: "engine_inv H (rp_matching (bv_pipeline ?v0))" 
    using viewer_init_at [OF assms(1), of X R args fl] by (simp add: viewer_at_def)
  obtain v where "viewer_order H X R (of_nat 1) ?v0 = Some v" using viewer_order_spec [OF inv, of 1 X R] by auto
  then have "viewer_turn H X R args 1 ?v0 = Some (Inl DivisionByZero)" using assms(3) by (simp add: viewer_turn_def)
  then have "viewer_loop H X R args 1 ?v0 = Some (Inl DivisionByZero)"
    using assms(4) by (subst viewer_loop.simps) simp
  then show ?thesis using assms(2) by (simp add: bookview_main_def)
qed


theorem interval_zero_crashes_witness:
  "bookview_main fun_map fun_map lowest_random (\<lambda>x. x) (args_line (default_args\<lparr>va_interval := 0\<rparr>)) = Some (Inl DivisionByZero)"
  by (rule interval_zero_crashes [OF fun_map_spec parse_args_line]) (simp_all add: default_args_def)

subsection \<open>The screen\<close>

lemma bar_length: "length (bar scale qty) \<le> 24"
  by (simp add: bar_def kBarWidth_def Let_def)

lemma bar_proportional:
  assumes "0 \<le> sint qty" "sint qty \<le> sint scale" "0 < sint scale" "24 * sint scale < 2 ^ 63"
  shows "bar scale qty = replicate (nat (24 * sint qty div sint scale)) CHR ''#''"
proof -
  have prod: "sint (qty * 24) = 24 * sint qty"
    using assms by (intro sint_i64_eqI) (simp_all add: mult.commute)
  have "24 * sint qty div sint scale \<le> 24 * sint scale div sint scale" using assms by (intro zdiv_mono1) simp_all
  then have quot: "0 \<le> 24 * sint qty div sint scale" "24 * sint qty div sint scale \<le> 24"
    using assms by (simp_all add: pos_imp_zdiv_nonneg_iff)
  have "sint (word_of_int (24 * sint qty div sint scale) :: i32) = 24 * sint qty div sint scale"
    using quot by (intro sint_i32_eqI) simp_all
  then show ?thesis using quot assms by (simp add: bar_def kBarWidth_def prod signed_divide_int_def sgn_if abs_if)
qed

lemma max_seen:
  "sint m \<le> sint (foldl (\<lambda>m l. max_i64 m (lv_qty l)) m ls)"
  "l \<in> set ls \<Longrightarrow> sint (lv_qty l) \<le> sint (foldl (\<lambda>m l. max_i64 m (lv_qty l)) m ls)"
proof (induction ls arbitrary: m)
  case (Cons k ls)
  { case 1 show ?case using Cons.IH(1) [of "max_i64 m (lv_qty k)"] by (auto simp: max_i64_def split: if_splits) }
  { case 2 then show ?case using Cons.IH [of "max_i64 m (lv_qty k)"] by (auto simp: max_i64_def split: if_splits) }
qed simp_all

text \<open>The lines of the screen are complete.  None of them outgrows the 256 byte buffer they are printed to,
  and the bar of a level is as long, of 24 characters, as its quantity is large, of the largest quantity seen.\<close>

theorem screen_lines_complete:
  assumes "max_qty_seen = foldl (\<lambda>m l. max_i64 m (lv_qty l)) m levels" "l \<in> set levels" "0 \<le> sint (lv_qty l)"
    "24 * sint max_qty_seen < 2 ^ 63"
  shows "level_line (max_i64 1 max_qty_seen) l =
      ''  '' @ pad_left 8 (to_string (sint (lv_price l))) @ ''  '' @
      pad_right 24 (replicate (nat (24 * sint (lv_qty l) div max 1 (sint max_qty_seen))) CHR ''#'') @
      ''  qty='' @ pad_right 6 (to_string (sint (lv_qty l))) @ ''  n='' @ to_string (uint (lv_count l)) \<and>
    trade_line t = ''  last trade: '' @ to_string (sint (tv_price t)) @ '' @ qty '' @ to_string (sint (tv_qty t))"
proof -
  have scale: "sint (max_i64 1 max_qty_seen) = max 1 (sint max_qty_seen)" by (simp add: max_i64_def max_def)
  have "sint (lv_qty l) \<le> sint max_qty_seen" using max_seen(2) [OF assms(2), of m] assms(1) by simp
  then have "bar (max_i64 1 max_qty_seen) (lv_qty l) =
      replicate (nat (24 * sint (lv_qty l) div max 1 (sint max_qty_seen))) CHR ''#''"
    unfolding scale [symmetric] using assms(3,4) by (intro bar_proportional) (simp_all add: scale max_def)
  moreover have "length (bar (max_i64 1 max_qty_seen) (lv_qty l)) \<le> 24" by (rule bar_length)
  ultimately show ?thesis
    using to_string_length_i64 [of "lv_price l"] to_string_length_i64 [of "lv_qty l"] to_string_length_u32 [of "lv_count l"]
      to_string_length_i64 [of "tv_price t"] to_string_length_i64 [of "tv_qty t"]
    by (simp add: level_line_def trade_line_def snprintf_def)
qed

definition wide_level :: level_view where
  "wide_level = \<lparr>lv_price = - 0x8000000000000000, lv_qty = 50, lv_count = 0xFFFFFFFF\<rparr>"

theorem screen_lines_complete_witness:
  "level_line (max_i64 1 100) wide_level = ''  -9223372036854775808  ############              qty=50      n=4294967295''"
proof -
  have "foldl (\<lambda>m l. max_i64 m (lv_qty l)) 100 [wide_level] = 100" by (simp add: wide_level_def max_i64_def)
  moreover have "to_string (- 9223372036854775808) = ''-9223372036854775808''" "to_string 4294967295 = ''4294967295''"
    "to_string 50 = ''50''"
    by (simp_all add: to_string_def decimal.simps digit_char_values)
  moreover have "sint (lv_price wide_level) = - 9223372036854775808" "sint (lv_qty wide_level) = 50" "uint (lv_count wide_level) = 4294967295"
    by (simp_all add: wide_level_def)
  moreover have "replicate (nat (24 * 50 div max 1 (sint (100 :: i64)))) CHR ''#'' = ''############''"
    by (simp add: numeral_eq_Suc)
  moreover have "pad_left 8 ''-9223372036854775808'' = ''-9223372036854775808''" "pad_right 6 ''50'' = ''50    ''"
    "pad_right 24 ''############'' = ''############            ''" by code_simp+
  ultimately show ?thesis using screen_lines_complete [of 100 100 "[wide_level]" wide_level] by simp
qed

subsection \<open>The last trade\<close>

lemma best_price_None: "book_inv H b \<Longrightarrow> (if s = Buy then best_bid b else best_ask b) = None \<longleftrightarrow> priority_orders b s = []"
  unfolding best_price_side by (simp add: best_front_price split: list.split)

lemma viewer_price_on_ladder:
  assumes "8850 \<le> sint p" "sint p \<le> 9150"
  shows "index_of (me_book (engine_init H 4096 200000 1 8800)) p \<noteq> None"
proof -
  let ?b = "me_book (engine_init H 4096 200000 1 8800)" and ?i = "nat (sint p - 8800)"
  have config: "ob_base_price ?b = 8800" "ob_num_levels ?b = 4096" by (simp_all add: engine_init_def order_book_init_def)
  have "(of_nat ?i :: i64) = word_of_int (sint p - 8800)" using assms by simp
  then have "price_at ?b ?i = p" by (simp add: price_at_def config)
  moreover have "ladder_config ?b" by (simp add: ladder_config_def config)
  ultimately show ?thesis using index_of_price_at [of ?b ?i] assms by (simp add: config)
qed

text \<open>An order that meets an empty book rests and trades with nobody.\<close>

lemma lone_order_rests:
  assumes inv: "engine_inv H e" and adm: "admitted e ord" and empty: "\<And>s. priority_orders (me_book e) s = []"
    and ord: "o_type ord = Limit" "o_tif ord = Day" "index_of (me_book e) (o_price ord) \<noteq> None" and room: "0 < ob_max_orders (me_book e)"
  obtains result e' where "submit H e ord [] = Some (result, e', [])" "nr_rested result" "engine_inv H e'"
    "priority_orders (me_book e') (o_side ord) \<noteq> []" "level_at (me_book e') (o_side ord) (o_price ord) \<noteq> None"
proof -
  note bk = engine_invD(2) [OF inv]
  have cross: "crossing_orders e ord = []" by (simp add: crossing_orders_def empty)
  have room': "ob_order_count (me_book e) < ob_max_orders (me_book e)" using order_count_priority [OF bk] empty room by simp
  have new: "o_id ord \<notin> resting_ids (book_orders (me_book e))" by (simp add: resting_ids_priority [OF bk] empty)
  obtain result e' where sub: "submit H e ord [] = Some (result, e', [])" "nr_rested result" "engine_inv H e'"
    "priority_orders (me_book e') (o_side ord) =
      insert_priority (o_side ord) (ord\<lparr>o_remaining := o_quantity ord\<rparr>) (priority_orders (me_book e) (o_side ord))"
    by (rule submit_rests [OF inv adm ord(1,2) cross new room' ord(3)])
  with rested_on_ladder [OF inv sub(1,2)] show ?thesis by (intro that) (simp_all add: empty)
qed

lemma first_order_approved:
  assumes "hash_map_spec X" "uniform_spec R"
    "fst (viewer_next R 1 (generator_init R (viewer_config fl seed))) = msg"
  shows "check_new_order X (risk_engine_init X viewer_limits) (order_of_wire msg 1 0) = NoReject"
    "8850 \<le> sint (nom_price msg)" "sint (nom_price msg) \<le> 9150" "0 < sint (nom_quantity msg)"
    "nom_symbol_id msg = 1" "nom_time_in_force msg = Day"
proof -
  let ?g = "generator_init R (viewer_config fl seed)"
  obtain g where draw: "next_order R 1 2 ?g = (msg, g)"
    using assms(3) by (cases "viewer_next R 1 ?g") (auto simp: viewer_next_def)
  have bounds: "8850 \<le> sint (nom_price msg)" "sint (nom_price msg) \<le> 9150" "1 \<le> sint (nom_quantity msg)"
    "sint (nom_quantity msg) \<le> 100" "nom_symbol_id msg = 1" "nom_time_in_force msg = Day"
    using next_order_range [OF assms(2) draw] by (simp_all add: generator_init_def viewer_config_def)
  have neg: "sint (- nom_quantity msg) = - sint (nom_quantity msg)"
    using bounds sint_minus_i64 [of "nom_quantity msg" 0] by simp
  show "check_new_order X (risk_engine_init X viewer_limits) (order_of_wire msg 1 0) = NoReject"
    using bounds hash_map_specD(1) [OF assms(1)] neg
    by (simp add: check_new_order_def risk_engine_init_def viewer_limits_def order_of_wire_def Let_def)
  show "8850 \<le> sint (nom_price msg)" "sint (nom_price msg) \<le> 9150" "0 < sint (nom_quantity msg)"
    "nom_symbol_id msg = 1" "nom_time_in_force msg = Day" using bounds by simp_all
qed

text \<open>C38: the trade a frame names as the last one need not have happened.  When the first order of a session is a
  limit order, it rests on an empty book and the feed carries no trade; the viewer nevertheless takes the order's
  limit price and quantity for the last trade, because the order moved the touch.\<close>

theorem first_order_shown_as_trade:
  assumes "hash_map_spec H" "hash_map_spec X" "uniform_spec R"
    "fst (viewer_next R 1 (bv_gen (viewer_init H X R fl args))) = msg" "nom_order_type msg = Limit"
  shows "\<exists>v evs. viewer_order H X R 1 (viewer_init H X R fl args) = Some v \<and>
    bv_last_trade v = Some \<lparr>tv_price = nom_price msg, tv_qty = nom_quantity msg\<rparr> \<and>
    read_feed (ims_data (pub_sink (rp_feed (bv_pipeline v)))) = Some evs \<and> (\<nexists>m. EvTrade m \<in> set evs)"
proof -
  let ?v0 = "viewer_init H X R fl args" and ?e = "engine_init H 4096 200000 1 8800" and ?ord = "order_of_wire msg 1 0"
  have v0: "rp_matching (bv_pipeline ?v0) = ?e" "rp_risk (bv_pipeline ?v0) = risk_engine_init X viewer_limits"
    "rp_next_sequence (bv_pipeline ?v0) = 1" "bv_gen ?v0 = generator_init R (viewer_config fl (va_seed args))"
    "ims_data (pub_sink (rp_feed (bv_pipeline ?v0))) = []" "dc_current (bv_clock ?v0) = 0"
    by (simp_all add: viewer_init_def replay_init_def publisher_init_def ims_data_def clock_init_def)
  note first = first_order_approved [OF assms(2,3,4) [unfolded v0(4)]]
  have inv: "engine_inv H ?e" using viewer_init_at [OF assms(1), of X R args fl] v0(1) by (simp add: viewer_at_def)
  have empty: "priority_orders (me_book ?e) s = []" for s
    unfolding engine_init_def engine.simps by (rule book_init_inv(2) [OF assms(1)]) (simp_all add: kNone_def)
  have config: "ob_symbol (me_book ?e) = 1" "ob_max_orders (me_book ?e) = 200000"
    by (simp_all add: engine_init_def order_book_init_def)
  have adm: "admitted ?e ?ord" using first by (simp add: admitted_def config order_of_wire_def)
  obtain result e' where sub: "submit H ?e ?ord [] = Some (result, e', [])" "nr_rested result" "engine_inv H e'"
    "priority_orders (me_book e') (nom_side msg) \<noteq> []" "level_at (me_book e') (nom_side msg) (nom_price msg) \<noteq> None"
    using lone_order_rests [OF inv adm empty] first viewer_price_on_ladder [OF first(2,3), of H] assms(5)
    by (auto simp: order_of_wire_def config)
  obtain r where r: "process_new_order H X ims_write (bv_pipeline ?v0) msg 0 = Some r" "rp_matching r = e'"
    "memory_sink.emits (rp_feed (bv_pipeline ?v0))
      (new_order_events (me_book e') (pub_next_sequence (rp_feed (bv_pipeline ?v0))) ?ord result []) (rp_feed r)"
    using memory_sink.process_new_order_approved [of X "bv_pipeline ?v0" msg 0 H result e' "[]"] first(1) sub(1)
    unfolding v0 by metis
  let ?evs = "new_order_events (me_book e') (pub_next_sequence (rp_feed (bv_pipeline ?v0))) ?ord result []"
  have "read_feed (ims_data (pub_sink (rp_feed r))) = Some ?evs"
    using r(3) read_feed_bytes [of ?evs] v0(5) by (simp add: memory_sink.emits_def)
  moreover have "EvTrade m \<notin> set ?evs" for m
    by (auto simp: new_order_events_def level_events_def Let_def split: option.splits)
  moreover have "best_ask (me_book e') \<noteq> best_ask (me_book ?e) \<or> best_bid (me_book e') \<noteq> best_bid (me_book ?e)"
    using best_price_None [OF engine_invD(2) [OF inv], of Buy] best_price_None [OF engine_invD(2) [OF inv], of Sell]
      best_price_None [OF engine_invD(2) [OF sub(3)], of "nom_side msg"] sub(4) empty by (cases "nom_side msg") auto
  ultimately show ?thesis
    using r(1,2) sub(5) assms(4) v0
    by (cases "viewer_next R 1 (bv_gen ?v0)")
      (auto simp: viewer_order_def viewer_next_def clock_tick_def smod_int_alt_def Let_def split: option.splits)
qed

theorem first_order_shown_as_trade_witness:
  "uniform_spec lowest_random \<and>
   (\<exists>v evs. viewer_order fun_map fun_map lowest_random 1 (viewer_init fun_map fun_map lowest_random (\<lambda>x. x) default_args) = Some v \<and>
     bv_last_trade v = Some \<lparr>tv_price = 8850, tv_qty = 1\<rparr> \<and>
     read_feed (ims_data (pub_sink (rp_feed (bv_pipeline v)))) = Some evs \<and> (\<nexists>m. EvTrade m \<in> set evs))"
  using first_order_shown_as_trade [OF fun_map_spec fun_map_spec lowest_random_uniform, of "\<lambda>x. x" default_args] lowest_random_uniform
  by (simp add: viewer_next_def viewer_init_def generator_init_def viewer_config_def next_order_def lowest_random_def)

end
