(* ===== verification/Bench_Rings.thy ===== *)
theory Bench_Rings
  imports Spsc_Ring
begin

text \<open>
  \<open>bench/bench_spsc_ring_buffer.cpp\<close>: the baseline ring without cached indices, which the comment calls
  functionally identical to \<open>SPSCRingBuffer\<close>, and the single-threaded round trip.  A benchmark runs its loop
  as often as the framework decides; that number is an argument.
\<close>

subsection \<open>The baseline ring\<close>

record 'a naive_ring =
  nv_buffer :: "'a list"
  nv_head :: u64
  nv_tail :: u64

definition naive_capacity :: "'a naive_ring \<Rightarrow> nat" where
  "naive_capacity q = length (nv_buffer q)"

definition naive_init :: "nat \<Rightarrow> 'a \<Rightarrow> 'a naive_ring" where
  "naive_init capacity dflt = \<lparr>nv_buffer = replicate capacity dflt, nv_head = 0, nv_tail = 0\<rparr>"

definition naive_try_push :: "'a \<Rightarrow> 'a naive_ring \<Rightarrow> bool \<times> 'a naive_ring" where
  "naive_try_push item q =
     (if of_nat (naive_capacity q) \<le> nv_head q - nv_tail q then (False, q)
      else (True, q\<lparr>nv_buffer := (nv_buffer q)[ring_slot (naive_capacity q) (nv_head q) := item], nv_head := nv_head q + 1\<rparr>))"

definition naive_try_pop :: "'a \<Rightarrow> 'a naive_ring \<Rightarrow> bool \<times> 'a \<times> 'a naive_ring" where
  "naive_try_pop out q =
     (if nv_tail q = nv_head q then (False, out, q)
      else (True, nv_buffer q ! ring_slot (naive_capacity q) (nv_tail q), q\<lparr>nv_tail := nv_tail q + 1\<rparr>))"

text \<open>The baseline is the ring whose caches are always fresh.\<close>

definition fresh_ring :: "'a naive_ring \<Rightarrow> 'a spsc_ring" where
  "fresh_ring q = \<lparr>sr_buffer = nv_buffer q, sr_producer = \<lparr>ps_head = nv_head q, ps_tail_cache = nv_tail q\<rparr>,
     sr_consumer = \<lparr>cs_tail = nv_tail q, cs_head_cache = nv_head q\<rparr>\<rparr>"

abbreviation naive_contents :: "'a naive_ring \<Rightarrow> 'a list" where
  "naive_contents q \<equiv> spsc_contents (fresh_ring q)"

abbreviation naive_inv :: "'a naive_ring \<Rightarrow> bool" where
  "naive_inv q \<equiv> spsc_inv (fresh_ring q)"

lemma fresh_ring_simps:
  "spsc_capacity (fresh_ring q) = naive_capacity q"
  "looks_full (fresh_ring q) \<longleftrightarrow> of_nat (naive_capacity q) \<le> nv_head q - nv_tail q"
  "looks_empty (fresh_ring q) \<longleftrightarrow> nv_tail q = nv_head q"
  "read_slot (fresh_ring q) = nv_buffer q ! ring_slot (naive_capacity q) (nv_tail q)"
  by (simp_all add: fresh_ring_def spsc_defs naive_capacity_def)

lemma fresh_push:
  "fresh_ring (q\<lparr>nv_buffer := (nv_buffer q)[ring_slot (naive_capacity q) (nv_head q) := x], nv_head := nv_head q + 1\<rparr>) =
   refresh_head (nv_head q + 1) (publish_head (write_slot x (fresh_ring q)))"
  by (simp add: fresh_ring_def spsc_defs naive_capacity_def)

lemma fresh_pop: "fresh_ring (q\<lparr>nv_tail := nv_tail q + 1\<rparr>) = refresh_tail (nv_tail q + 1) (publish_tail (fresh_ring q))"
  by (simp add: fresh_ring_def spsc_defs)

lemma naive_try_push_law:
  assumes "naive_inv q" "naive_try_push x q = (ok, q')"
  shows "naive_inv q' \<and> naive_capacity q' = naive_capacity q \<and> ok = (length (naive_contents q) < naive_capacity q) \<and>
    naive_contents q' = naive_contents q @ (if ok then [x] else [])"
proof (cases "looks_full (fresh_ring q)")
  case True
  have "looks_full (refresh_tail (sr_tail (fresh_ring q)) (fresh_ring q)) = (length (naive_contents q) = naive_capacity q)"
    using refresh_tail_ok(6) [OF assms(1) latest_seen(1)] by (simp add: fresh_ring_simps)
  moreover have "refresh_tail (sr_tail (fresh_ring q)) (fresh_ring q) = fresh_ring q"
    by (simp add: fresh_ring_def refresh_tail_def)
  ultimately show ?thesis using assms True by (auto simp: naive_try_push_def fresh_ring_simps)
next
  case False
  let ?w = "write_slot x (fresh_ring q)"
  note w = write_slot_ok [OF assms(1) False, of x]
  have p: "spsc_inv (publish_head ?w)" "spsc_contents (publish_head ?w) = spsc_contents (fresh_ring q) @ [x]"
    "spsc_capacity (publish_head ?w) = naive_capacity q" "sr_head (publish_head ?w) = nv_head q + 1"
    using publish_head_ok [OF w(1) w(4), of x] w by (simp_all add: fresh_ring_simps) (simp add: publish_head_def w fresh_ring_def)
  note r = refresh_head_ok [OF p(1) latest_seen(2), unfolded p(4)]
  have "ok" "fresh_ring q' = refresh_head (nv_head q + 1) (publish_head ?w)"
    using assms(2) False fresh_push [of q x] by (auto simp: naive_try_push_def fresh_ring_simps)
  moreover have "naive_capacity q' = naive_capacity q"
    using calculation r(3) p(3) by (metis fresh_ring_simps(1))
  ultimately show ?thesis using r(1,2) p(2) looks_full_implied [OF assms(1) False] by (simp add: fresh_ring_simps)
qed

lemma naive_try_pop_law:
  assumes "naive_inv q" "naive_try_pop out q = (ok, r, q')"
  shows "naive_inv q' \<and> naive_capacity q' = naive_capacity q \<and> ok = (naive_contents q \<noteq> []) \<and>
    (if ok then naive_contents q = r # naive_contents q' else r = out \<and> naive_contents q' = [])"
proof (cases "looks_empty (fresh_ring q)")
  case True
  have "looks_empty (refresh_head (sr_head (fresh_ring q)) (fresh_ring q)) = (naive_contents q = [])"
    by (rule refresh_head_ok(7) [OF assms(1) latest_seen(2) refl])
  moreover have "refresh_head (sr_head (fresh_ring q)) (fresh_ring q) = fresh_ring q"
    by (simp add: fresh_ring_def refresh_head_def)
  ultimately show ?thesis using assms True by (auto simp: naive_try_pop_def fresh_ring_simps)
next
  case False
  note p = publish_tail_ok [OF assms(1) False]
  have "sr_tail (publish_tail (fresh_ring q)) = nv_tail q + 1" by (simp add: publish_tail_def fresh_ring_def)
  note r = refresh_tail_ok [OF p(1) latest_seen(1), unfolded this]
  have ok: "ok" "r = read_slot (fresh_ring q)" "fresh_ring q' = refresh_tail (nv_tail q + 1) (publish_tail (fresh_ring q))"
    using assms(2) False fresh_pop [of q] by (auto simp: naive_try_pop_def fresh_ring_simps)
  moreover have "naive_capacity q' = naive_capacity q"
    using ok(3) r(3) p(3) by (metis fresh_ring_simps(1))
  ultimately show ?thesis using r(1,2) p(2) by (simp add: fresh_ring_simps)
qed

definition naive_try_pop_optional :: "'a \<Rightarrow> 'a naive_ring \<Rightarrow> 'a option \<times> 'a naive_ring" where
  "naive_try_pop_optional dflt q =
     (let (ok, out, q') = naive_try_pop dflt q in if ok then (Some out, q') else (None, q'))"

interpretation naive: bounded_fifo naive_try_push "naive_try_pop_optional d" naive_contents naive_capacity naive_inv
  for d :: 'a
proof (unfold_locales, goal_cases)
  case (1 q x ok q')
  then show ?case by (rule naive_try_push_law)
next
  case (2 q r q')
  obtain ok out q1 where p: "naive_try_pop d q = (ok, out, q1)" by (rule prod_cases3)
  note law = naive_try_pop_law [OF 2(1) p]
  have "r = (if ok then Some out else None)" "q' = q1"
    using 2(2) by (simp_all add: naive_try_pop_optional_def p split: if_splits)
  with law show ?case by (cases "naive_contents q") simp_all
next
  case (3 q)
  then show ?case using spsc_contents_bound [of "fresh_ring q"] by (simp add: fresh_ring_simps)
qed

lemma naive_init_inv:
  assumes "capacity_ok c"
  shows "naive_inv (naive_init c d)" "naive_contents (naive_init c d) = []" "naive_capacity (naive_init c d) = c"
proof -
  have "fresh_ring (naive_init c d) = spsc_init c d" by (simp add: fresh_ring_def naive_init_def spsc_init_def)
  then show "naive_inv (naive_init c d)" "naive_contents (naive_init c d) = []" "naive_capacity (naive_init c d) = c"
    using spsc_init_inv [OF assms, of d] by (simp_all add: naive_init_def naive_capacity_def)
qed

subsection \<open>Any sequence of calls\<close>

datatype 'a ring_call = CallPush 'a | CallPop

datatype 'a ring_answer = PushAnswer bool | PopAnswer "'a option"

fun run_ring :: "('a \<Rightarrow> 'q \<Rightarrow> bool \<times> 'q) \<Rightarrow> ('q \<Rightarrow> 'a option \<times> 'q) \<Rightarrow> 'a ring_call list \<Rightarrow> 'q \<Rightarrow> 'a ring_answer list" where
  "run_ring push pop [] q = []"
| "run_ring push pop (CallPush x # cs) q = (let (ok, q1) = push x q in PushAnswer ok # run_ring push pop cs q1)"
| "run_ring push pop (CallPop # cs) q = (let (r, q1) = pop q in PopAnswer r # run_ring push pop cs q1)"

text \<open>The answers of a queue of bounded length.\<close>

fun queue_answers :: "nat \<Rightarrow> 'a ring_call list \<Rightarrow> 'a list \<Rightarrow> 'a ring_answer list" where
  "queue_answers c [] xs = []"
| "queue_answers c (CallPush x # cs) xs =
     PushAnswer (length xs < c) # queue_answers c cs (if length xs < c then xs @ [x] else xs)"
| "queue_answers c (CallPop # cs) xs =
     (case xs of [] \<Rightarrow> PopAnswer None # queue_answers c cs [] | x # ys \<Rightarrow> PopAnswer (Some x) # queue_answers c cs ys)"

context bounded_fifo
begin

lemma run_ring_queue: "invar q \<Longrightarrow> run_ring push pop cs q = queue_answers (capacity q) cs (contents q)"
proof (induction cs arbitrary: q)
  case (Cons call cs)
  show ?case
  proof (cases call)
    case (CallPush x)
    obtain ok q1 where p: "push x q = (ok, q1)" by fastforce
    show ?thesis using push_law [OF Cons.prems p] Cons.IH [of q1] CallPush by (auto simp: p)
  next
    case CallPop
    obtain r q1 where p: "pop q = (r, q1)" by fastforce
    show ?thesis using pop_law [OF Cons.prems p] Cons.IH [of q1] CallPop by (cases "contents q") (auto simp: p)
  qed
qed simp

end

text \<open>C31: the baseline ring of the benchmark is functionally identical to \<open>SPSCRingBuffer\<close>, as its comment says:
  on rings of the same capacity, any sequence of pushes and pops gets the same answers from both, those of a
  queue bounded by the capacity; dropping the cached indices changes nothing but the number of shared reads.\<close>

theorem naive_ring_equivalent:
  assumes "capacity_ok c"
  shows "run_ring naive_try_push (naive_try_pop_optional d) cs (naive_init c d) =
      run_ring spsc_try_push (spsc_try_pop_optional d) cs (spsc_init c d) \<and>
    run_ring naive_try_push (naive_try_pop_optional d) cs (naive_init c d) = queue_answers c cs []"
  using naive.run_ring_queue [OF naive_init_inv(1) [OF assms, of d], where cs = cs and d = d]
    spsc.run_ring_queue [OF spsc_init_inv(1) [OF assms, of d], where cs = cs and d = d]
  by (simp add: naive_init_inv [OF assms] spsc_init_inv [OF assms])

theorem naive_ring_equivalent_witness:
  "capacity_ok 2 \<and> run_ring naive_try_push (naive_try_pop_optional 0) [CallPush 5, CallPush 6, CallPush 7, CallPop] (naive_init 2 (0::nat)) =
     [PushAnswer True, PushAnswer True, PushAnswer False, PopAnswer (Some 5)]"
proof -
  have "capacity_ok 2" unfolding capacity_ok_def by (rule bexI [of _ 1]) simp_all
  then show ?thesis
    using naive_ring_equivalent [of 2 "0::nat" "[CallPush 5, CallPush 6, CallPush 7, CallPop]", THEN conjunct2]
    by (simp del: run_ring.simps)
qed

subsection \<open>The single-threaded round trip\<close>

fun spsc_roundtrip :: "nat \<Rightarrow> 'a \<Rightarrow> 'a \<Rightarrow> 'a spsc_ring \<Rightarrow> (bool \<times> bool) list \<times> 'a \<times> 'a spsc_ring" where
  "spsc_roundtrip 0 item out q = ([], out, q)"
| "spsc_roundtrip (Suc n) item out q =
     (let (pushed, q1) = spsc_try_push item q; (popped, out1, q2) = spsc_try_pop out q1;
          (rest, out2, q3) = spsc_roundtrip n item out1 q2
      in ((pushed, popped) # rest, out2, q3))"

text \<open>Every round pushes and pops its item, however often the benchmark runs.\<close>

lemma spsc_roundtrip_ok:
  "spsc_inv q \<Longrightarrow> spsc_contents q = [] \<Longrightarrow> spsc_roundtrip n item out q = (oks, out', q') \<Longrightarrow>
    oks = replicate n (True, True) \<and> out' = (if n = 0 then out else item) \<and> spsc_inv q' \<and> spsc_contents q' = []"
proof (induction n arbitrary: q out oks out' q')
  case (Suc n)
  obtain p q1 where push: "spsc_try_push item q = (p, q1)" by fastforce
  obtain ok o1 q2 where pop: "spsc_try_pop out q1 = (ok, o1, q2)" by (rule prod_cases3)
  obtain rest o2 q3 where more: "spsc_roundtrip n item o1 q2 = (rest, o2, q3)" by (rule prod_cases3)
  have "0 < spsc_capacity q" using Suc.prems(1) capacity_ok_bounds(2) by (auto simp: spsc_inv_def)
  then have q1: "spsc_inv q1" "p" "spsc_contents q1 = [item]" using spsc_try_push_law [OF Suc.prems(1) push] Suc.prems(2) by auto
  then have q2: "spsc_inv q2" "ok" "o1 = item" "spsc_contents q2 = []" using spsc_try_pop_law [OF q1(1) pop] by auto
  then have "spsc_roundtrip n item item q2 = (rest, o2, q3)" using more by simp
  then show ?case using Suc.IH [OF q2(1,4) more] Suc.prems(3) q1 q2 by (auto simp: push pop split: if_splits)
qed simp

end
