(* ===== verification/Bench_Pools.thy ===== *)
theory Bench_Pools
  imports Pmr_Pool
begin

text \<open>
  \<open>bench/bench_memory_pool.cpp\<close>: the two workloads the pools are measured with, over the operations of the
  pool they are given.  A null pointer, or the exception of the pool built on the standard resource, ends a
  workload with \<open>None\<close>: the benchmark would pass it on to \<open>deallocate\<close>.
\<close>

definition dealloc_ptr :: "(nat \<Rightarrow> 'p \<Rightarrow> 'p) \<Rightarrow> ptr \<Rightarrow> 'p \<Rightarrow> 'p option" where
  "dealloc_ptr dealloc r p = map_option (\<lambda>i. dealloc i p) r"

fun immediate_cycle :: "('p \<Rightarrow> ptr \<times> 'p) \<Rightarrow> (nat \<Rightarrow> 'p \<Rightarrow> 'p) \<Rightarrow> nat \<Rightarrow> 'p \<Rightarrow> 'p option" where
  "immediate_cycle alloc dealloc 0 p = Some p"
| "immediate_cycle alloc dealloc (Suc n) p =
     (let (r, p1) = alloc p
      in case dealloc_ptr dealloc r p1 of None \<Rightarrow> None | Some p2 \<Rightarrow> immediate_cycle alloc dealloc n p2)"

text \<open>The four loops of a round of \<open>run_churn\<close>: fill the vector, free every other entry, refill those, free all.\<close>

fun fill_batch :: "('p \<Rightarrow> ptr \<times> 'p) \<Rightarrow> nat \<Rightarrow> 'p \<Rightarrow> ptr list \<times> 'p" where
  "fill_batch alloc 0 p = ([], p)"
| "fill_batch alloc (Suc n) p = (let (r, p1) = alloc p; (rs, p2) = fill_batch alloc n p1 in (r # rs, p2))"

fun free_all :: "(nat \<Rightarrow> 'p \<Rightarrow> 'p) \<Rightarrow> ptr list \<Rightarrow> 'p \<Rightarrow> 'p option" where
  "free_all dealloc [] p = Some p"
| "free_all dealloc (r # rs) p = (case dealloc_ptr dealloc r p of None \<Rightarrow> None | Some p1 \<Rightarrow> free_all dealloc rs p1)"

fun free_every_other :: "(nat \<Rightarrow> 'p \<Rightarrow> 'p) \<Rightarrow> ptr list \<Rightarrow> 'p \<Rightarrow> 'p option" where
  "free_every_other dealloc [] p = Some p"
| "free_every_other dealloc [r] p = dealloc_ptr dealloc r p"
| "free_every_other dealloc (r # s # rs) p =
     (case dealloc_ptr dealloc r p of None \<Rightarrow> None | Some p1 \<Rightarrow> free_every_other dealloc rs p1)"

fun refill_every_other :: "('p \<Rightarrow> ptr \<times> 'p) \<Rightarrow> ptr list \<Rightarrow> 'p \<Rightarrow> ptr list \<times> 'p" where
  "refill_every_other alloc [] p = ([], p)"
| "refill_every_other alloc [r] p = (let (r', p1) = alloc p in ([r'], p1))"
| "refill_every_other alloc (r # s # rs) p =
     (let (r', p1) = alloc p; (rs', p2) = refill_every_other alloc rs p1 in (r' # s # rs', p2))"

definition churn_round :: "('p \<Rightarrow> ptr \<times> 'p) \<Rightarrow> (nat \<Rightarrow> 'p \<Rightarrow> 'p) \<Rightarrow> nat \<Rightarrow> 'p \<Rightarrow> 'p option" where
  "churn_round alloc dealloc batch p =
     (let (live, p1) = fill_batch alloc batch p
      in case free_every_other dealloc live p1 of
           None \<Rightarrow> None
         | Some p2 \<Rightarrow> let (live', p3) = refill_every_other alloc live p2 in free_all dealloc live' p3)"

fun run_churn :: "nat \<Rightarrow> nat \<Rightarrow> ('p \<Rightarrow> ptr \<times> 'p) \<Rightarrow> (nat \<Rightarrow> 'p \<Rightarrow> 'p) \<Rightarrow> 'p \<Rightarrow> 'p option" where
  "run_churn 0 batch alloc dealloc p = Some p"
| "run_churn (Suc n) batch alloc dealloc p =
     (case churn_round alloc dealloc batch p of None \<Rightarrow> None | Some p1 \<Rightarrow> run_churn n batch alloc dealloc p1)"

definition kPoolCapacity :: nat where "kPoolCapacity = 2 ^ 16"
definition kChurnBatch :: nat where "kChurnBatch = 4096"

definition bench_slab_pool_immediate_cycle :: "'a \<Rightarrow> nat \<Rightarrow> 'a slab_pool option" where
  "bench_slab_pool_immediate_cycle d n = immediate_cycle (allocate d) deallocate n (slab_pool_init kPoolCapacity d)"

definition bench_pmr_pool_immediate_cycle :: "(nat set \<Rightarrow> nat) \<Rightarrow> 'a \<Rightarrow> nat \<Rightarrow> 'a pmr_pool option" where
  "bench_pmr_pool_immediate_cycle pick d n = immediate_cycle (pmr_try pick d) pmr_deallocate n (pmr_pool_init kPoolCapacity)"

definition bench_slab_pool_churn :: "'a \<Rightarrow> nat \<Rightarrow> 'a slab_pool option" where
  "bench_slab_pool_churn d n = run_churn n kChurnBatch (allocate d) deallocate (slab_pool_init kChurnBatch d)"

definition bench_pmr_pool_churn :: "(nat set \<Rightarrow> nat) \<Rightarrow> 'a \<Rightarrow> nat \<Rightarrow> 'a pmr_pool option" where
  "bench_pmr_pool_churn pick d n = run_churn n kChurnBatch (pmr_try pick d) pmr_deallocate (pmr_pool_init kChurnBatch)"

subsection \<open>What the workloads need of a pool\<close>

fun kept :: "'a list \<Rightarrow> 'a list" where
  "kept [] = []"
| "kept [x] = []"
| "kept (x # y # xs) = y # kept xs"

fun freed :: "'a list \<Rightarrow> 'a list" where
  "freed [] = []"
| "freed [x] = [x]"
| "freed (x # y # xs) = x # freed xs"

lemma kept_freed: "set xs = set (kept xs) \<union> set (freed xs)" "length xs = length (kept xs) + length (freed xs)"
  by (induction xs rule: kept.induct) auto

lemma distinct_kept_freed: "distinct xs \<Longrightarrow> distinct (kept xs) \<and> distinct (freed xs) \<and> set (kept xs) \<inter> set (freed xs) = {}"
proof (induction xs rule: kept.induct)
  case (3 x y xs)
  then show ?case using kept_freed(1) [of xs] by auto
qed auto

lemma free_every_other_freed: "free_every_other dealloc rs p = free_all dealloc (freed rs) p"
  by (induction rs arbitrary: p rule: kept.induct) (auto split: option.split)

context object_pool
begin

lemma alloc_step:
  assumes "invar p" "count p < capacity"
  obtains i p1 where "alloc p = (Some i, p1)" "invar p1" "i \<notin> live p" "live p1 = insert i (live p)" "count p1 = count p + 1"
  using alloc_succeeds_below_capacity [OF assms] alloc_fresh [OF assms(1)] by blast

lemma fill_batch_ok:
  "invar p \<Longrightarrow> count p + n \<le> capacity \<Longrightarrow> \<exists>is p1. fill_batch alloc n p = (map Some is, p1) \<and> invar p1 \<and>
    length is = n \<and> distinct is \<and> set is \<inter> live p = {} \<and> live p1 = live p \<union> set is"
proof (induction n arbitrary: p)
  case (Suc n)
  have "count p < capacity" using Suc.prems(2) by simp
  with Suc.prems(1) obtain i p1 where i: "alloc p = (Some i, p1)" "invar p1" "i \<notin> live p" "live p1 = insert i (live p)" "count p1 = count p + 1"
    by (rule alloc_step)
  obtain "is" p2 where r: "fill_batch alloc n p1 = (map Some is, p2)" "invar p2" "length is = n" "distinct is"
    "set is \<inter> live p1 = {}" "live p2 = live p1 \<union> set is"
    using Suc.IH [OF i(2)] Suc.prems(2) i(5) by auto
  show ?case by (intro exI [of _ "i # is"] exI [of _ p2]) (use i r in auto)
qed simp

lemma free_all_ok:
  "invar p \<Longrightarrow> distinct is \<Longrightarrow> set is \<subseteq> live p \<Longrightarrow> \<exists>p1. free_all dealloc (map Some is) p = Some p1 \<and> invar p1 \<and> live p1 = live p - set is"
proof (induction "is" arbitrary: p)
  case (Cons i "is")
  have d: "invar (dealloc i p)" "live (dealloc i p) = live p - {i}" using dealloc_live [OF Cons.prems(1), of i] Cons.prems(3) by auto
  then obtain p1 where "free_all dealloc (map Some is) (dealloc i p) = Some p1" "invar p1" "live p1 = live (dealloc i p) - set is"
    using Cons.IH [OF d(1)] Cons.prems(2,3) by auto
  then show ?case using d by (auto simp: dealloc_ptr_def)
qed simp

lemma refill_ok:
  "invar p \<Longrightarrow> count p + length (freed is) \<le> capacity \<Longrightarrow> distinct (kept is) \<Longrightarrow> set (kept is) \<subseteq> live p \<Longrightarrow>
   \<exists>ks p1. refill_every_other alloc (map Some is) p = (map Some ks, p1) \<and> invar p1 \<and> distinct ks \<and>
     set ks \<inter> live p = set (kept is) \<and> live p1 = live p \<union> set ks"
proof (induction "is" arbitrary: p rule: kept.induct)
  case (2 x)
  then have "count p < capacity" by simp
  with 2(1) obtain i p1 where "alloc p = (Some i, p1)" "invar p1" "i \<notin> live p" "live p1 = insert i (live p)" by (rule alloc_step)
  then show ?case by (intro exI [of _ "[i]"] exI [of _ p1]) auto
next
  case (3 x y xs)
  then have "count p < capacity" by simp
  with 3(2) obtain i p1 where i: "alloc p = (Some i, p1)" "invar p1" "i \<notin> live p" "live p1 = insert i (live p)" "count p1 = count p + 1"
    by (rule alloc_step)
  obtain ks p2 where r: "refill_every_other alloc (map Some xs) p1 = (map Some ks, p2)" "invar p2" "distinct ks"
    "set ks \<inter> live p1 = set (kept xs)" "live p2 = live p1 \<union> set ks"
    using "3.IH" [OF i(2)] 3(3-5) i(4,5) by auto
  have "i \<notin> set ks" "y \<notin> set ks" using r(4) i(3,4) 3(4,5) by auto
  then show ?case by (intro exI [of _ "i # y # ks"] exI [of _ p2]) (use i r 3(5) in auto)
qed simp

lemma churn_round_ok:
  assumes "invar p" "live p = {}" "batch \<le> capacity"
  shows "\<exists>p1. churn_round alloc dealloc batch p = Some p1 \<and> invar p1 \<and> live p1 = {}"
proof -
  obtain "is" p1 where f: "fill_batch alloc batch p = (map Some is, p1)" "invar p1" "length is = batch" "distinct is" "live p1 = set is"
    using fill_batch_ok [OF assms(1), of batch] assms(2,3) count_live [OF assms(1)] by auto
  have freed_map: "freed (map Some is) = map Some (freed is)" by (induction "is" rule: freed.induct) auto
  note parts = kept_freed [of "is"] distinct_kept_freed [OF f(4)]
  have "live p1 - set (freed is) = set (kept is)" using parts f(5) by auto
  then obtain p2 where e: "free_every_other dealloc (map Some is) p1 = Some p2" "invar p2" "live p2 = set (kept is)"
    using free_all_ok [OF f(2), of "freed is"] parts f(5) by (auto simp: free_every_other_freed freed_map)
  have "count p2 + length (freed is) \<le> capacity"
    using count_live [OF e(2)] e(3) parts f(3) assms(3) by (simp add: distinct_card)
  then obtain ks p3 where r: "refill_every_other alloc (map Some is) p2 = (map Some ks, p3)" "invar p3" "distinct ks"
    "set ks \<inter> live p2 = set (kept is)" "live p3 = live p2 \<union> set ks"
    using refill_ok [OF e(2), of "is"] parts e(3) by auto
  then have "live p3 = set ks" using e(3) by auto
  then obtain p4 where "free_all dealloc (map Some ks) p3 = Some p4" "invar p4" "live p4 = {}"
    using free_all_ok [OF r(2,3)] by auto
  then show ?thesis using f(1) e(1) r(1) by (simp add: churn_round_def)
qed

lemma run_churn_ok:
  "invar p \<Longrightarrow> live p = {} \<Longrightarrow> batch \<le> capacity \<Longrightarrow> \<exists>p1. run_churn n batch alloc dealloc p = Some p1 \<and> invar p1 \<and> live p1 = {} \<and> count p1 = 0"
proof (induction n arbitrary: p)
  case 0
  then show ?case using count_live by auto
next
  case (Suc n)
  from churn_round_ok [OF Suc.prems] obtain p1 where "churn_round alloc dealloc batch p = Some p1" "invar p1" "live p1 = {}" by blast
  then show ?case using Suc.IH [of p1] Suc.prems(3) by auto
qed

lemma immediate_cycle_ok:
  "invar p \<Longrightarrow> live p = {} \<Longrightarrow> 0 < capacity \<Longrightarrow> \<exists>p1. immediate_cycle alloc dealloc n p = Some p1 \<and> invar p1 \<and> live p1 = {} \<and> count p1 = 0"
proof (induction n arbitrary: p)
  case 0
  then show ?case using count_live by auto
next
  case (Suc n)
  have "count p < capacity" using count_live [OF Suc.prems(1)] Suc.prems(2,3) by simp
  with Suc.prems(1) obtain i p1 where i: "alloc p = (Some i, p1)" "invar p1" "live p1 = insert i (live p)" by (rule alloc_step)
  then have "invar (dealloc i p1)" "live (dealloc i p1) = {}" using dealloc_live [OF i(2), of i] Suc.prems(2) by auto
  then show ?case using Suc.IH [of "dealloc i p1"] Suc.prems(3) i(1) by (simp add: dealloc_ptr_def)
qed

end

text \<open>The pools survive their benchmarks.  However often they run, neither the immediate cycle nor the churn,
  which fills the pool to its last slot, frees and refills every other one and frees all, ever gets a null
  pointer or an exception, and each ends with an empty pool.\<close>

theorem pool_benchmarks_ok:
  assumes "\<And>capacity. pool_resource capacity pick"
  shows "(\<exists>p. bench_slab_pool_churn d n = Some p \<and> live_slots kChurnBatch p = {} \<and> sp_live_count p = 0) \<and>
    (\<exists>p. bench_pmr_pool_churn pick d n = Some p \<and> pp_blocks p = {} \<and> pp_live_count p = 0) \<and>
    (\<exists>p. bench_slab_pool_immediate_cycle d n = Some p \<and> live_slots kPoolCapacity p = {} \<and> sp_live_count p = 0) \<and>
    (\<exists>p. bench_pmr_pool_immediate_cycle pick d n = Some p \<and> pp_blocks p = {} \<and> pp_live_count p = 0)"
proof -
  have slab: "pool_inv c (slab_pool_init c d)" "live_slots c (slab_pool_init c d) = {}" if "0 < c" "c \<le> kNone" for c
    using pool_repI [OF pool_rep_init [OF that, of d]] pool_rep_free_slots [OF pool_rep_init [OF that, of d]]
    by (auto simp: live_slots_def)
  have pmr: "pmr_inv pick c (pmr_pool_init c)" "pp_blocks (pmr_pool_init c) = {}" for c
    using pmr_init_inv [OF assms] by (simp_all add: pmr_pool_init_def)
  have sizes: "0 < kChurnBatch" "kChurnBatch \<le> kNone" "0 < kPoolCapacity" "kPoolCapacity \<le> kNone"
    by (simp_all add: kChurnBatch_def kPoolCapacity_def kNone_def)
  show ?thesis
    unfolding bench_slab_pool_churn_def bench_pmr_pool_churn_def bench_slab_pool_immediate_cycle_def bench_pmr_pool_immediate_cycle_def
    using slab.run_churn_ok [OF slab [OF sizes(1,2)] order_refl, of n d] pmr.run_churn_ok [OF pmr order_refl, of n kChurnBatch d]
      slab.immediate_cycle_ok [OF slab [OF sizes(3,4)] sizes(3), of d n]
      pmr.immediate_cycle_ok [OF pmr sizes(3), of d n] by blast
qed

theorem pool_benchmarks_ok_witness:
  "(\<forall>capacity. pool_resource capacity lowest_free) \<and> (\<exists>p. bench_slab_pool_churn (0 :: nat) 3 = Some p \<and> sp_live_count p = 0)"
  using pool_benchmarks_ok [of lowest_free "0 :: nat" 3] lowest_free_resource by blast

end
