(* ===== verification/Bench_Book.thy ===== *)
theory Bench_Book
  imports Book_Properties
begin

text \<open>
  \<open>bench/bench_order_book.cpp\<close>: the three workloads on the order book.  The churn dereferences the result of
  each \<open>add\<close>; an error there ends the workload with \<open>None\<close>.
\<close>

definition bench_book :: "'m index_ops \<Rightarrow> 'm order_book" where
  "bench_book H = order_book_init H (2 ^ 16) (2 ^ 14) 1 0"

definition make_order :: "u64 \<Rightarrow> side \<Rightarrow> i64 \<Rightarrow> i64 \<Rightarrow> order" where
  "make_order oid side price qty = default_order\<lparr>o_id := oid, o_client := 1, o_symbol := 1, o_side := side, o_type := Limit,
     o_tif := Day, o_price := price, o_quantity := qty, o_remaining := qty\<rparr>"

fun add_cancel_rounds :: "'m index_ops \<Rightarrow> order \<Rightarrow> nat \<Rightarrow> 'm order_book \<Rightarrow>
    ((add_error + order_id) \<times> (cancel_error + unit)) list \<times> 'm order_book" where
  "add_cancel_rounds H ord 0 b = ([], b)"
| "add_cancel_rounds H ord (Suc n) b =
     (let (added, b1) = book_add H b ord; (cancelled, b2) = book_cancel H b1 1;
          (rest, b3) = add_cancel_rounds H ord n b2
      in ((added, cancelled) # rest, b3))"

definition bench_add_cancel_same_level :: "'m index_ops \<Rightarrow> nat \<Rightarrow>
    ((add_error + order_id) \<times> (cancel_error + unit)) list \<times> 'm order_book" where
  "bench_add_cancel_same_level H n = add_cancel_rounds H (make_order 1 Buy 100 10) n (bench_book H)"

text \<open>The loops that add the orders \<open>i\<close>, \<open>i + 1\<close>, \<open>\<dots>\<close> at as many prices.\<close>

fun add_orders :: "'m index_ops \<Rightarrow> nat \<Rightarrow> nat \<Rightarrow> 'm order_book \<Rightarrow> (add_error + order_id) list \<times> 'm order_book" where
  "add_orders H i 0 b = ([], b)"
| "add_orders H i (Suc k) b =
     (let (added, b1) = book_add H b (make_order (of_nat i + 1) Buy (of_nat i) 10); (rest, b2) = add_orders H (Suc i) k b1
      in (added # rest, b2))"

definition bench_best_bid_query :: "'m index_ops \<Rightarrow> nat \<Rightarrow> price option list" where
  "bench_best_bid_query H n = (let (added, b) = add_orders H 0 1000 (bench_book H) in replicate n (best_bid b))"

definition kChurnLevels :: nat where
  "kChurnLevels = 2048"

fun add_levels :: "'m index_ops \<Rightarrow> nat \<Rightarrow> nat \<Rightarrow> 'm order_book \<Rightarrow> (order_id list \<times> 'm order_book) option" where
  "add_levels H i 0 b = Some ([], b)"
| "add_levels H i (Suc k) b =
     (case book_add H b (make_order (of_nat i + 1) Buy (of_nat i) 10) of
        (Inl e, b1) \<Rightarrow> None
      | (Inr oid, b1) \<Rightarrow> map_option (apfst ((#) oid)) (add_levels H (Suc i) k b1))"

fun cancel_ids :: "'m index_ops \<Rightarrow> order_id list \<Rightarrow> 'm order_book \<Rightarrow> (cancel_error + unit) list \<times> 'm order_book" where
  "cancel_ids H [] b = ([], b)"
| "cancel_ids H (oid # ids) b =
     (let (r, b1) = book_cancel H b oid; (rs, b2) = cancel_ids H ids b1 in (r # rs, b2))"

fun churn_levels :: "'m index_ops \<Rightarrow> nat \<Rightarrow> 'm order_book \<Rightarrow> ((cancel_error + unit) list list \<times> 'm order_book) option" where
  "churn_levels H 0 b = Some ([], b)"
| "churn_levels H (Suc n) b =
     (case add_levels H 0 kChurnLevels b of
        None \<Rightarrow> None
      | Some (ids, b1) \<Rightarrow> let (rs, b2) = cancel_ids H ids b1 in map_option (apfst ((#) rs)) (churn_levels H n b2))"

definition bench_churn_across_levels :: "'m index_ops \<Rightarrow> nat \<Rightarrow> ((cancel_error + unit) list list \<times> 'm order_book) option" where
  "bench_churn_across_levels H n = churn_levels H n (bench_book H)"

subsection \<open>Adding and cancelling\<close>

text \<open>A book of the benchmark whose bids are the orders \<open>0\<close> to \<open>i - 1\<close>.\<close>

definition holds_orders :: "'m index_ops \<Rightarrow> nat \<Rightarrow> 'm order_book \<Rightarrow> bool" where
  "holds_orders H i b \<longleftrightarrow> book_inv H b \<and> same_config (bench_book H) b \<and> priority_orders b Sell = [] \<and>
     length (priority_orders b Buy) = i \<and>
     (\<lambda>x. (o_id x, o_price x)) ` set (priority_orders b Buy) = (\<lambda>j. (of_nat j + 1, of_nat j)) ` {..<i}"

lemma make_order_simps [simp]:
  "o_id (make_order i s p q) = i" "o_price (make_order i s p q) = p" "o_side (make_order i s p q) = s"
  "o_type (make_order i s p q) = Limit" "o_remaining (make_order i s p q) = q" "o_tif (make_order i s p q) = Day"
  "o_quantity (make_order i s p q) = q" "o_symbol (make_order i s p q) = 1"
  by (simp_all add: make_order_def)

lemma bench_config:
  "ob_num_levels (bench_book H) = 65536" "ob_max_orders (bench_book H) = 16384" "ob_base_price (bench_book H) = 0"
  by (simp_all add: bench_book_def order_book_init_def)

lemma bench_book_empty: "hash_map_spec H \<Longrightarrow> holds_orders H 0 (bench_book H)"
  using book_init_inv [of H "2 ^ 14" "2 ^ 16" 0 1] by (simp add: holds_orders_def bench_book_def kNone_def)

lemma bench_index:
  assumes "same_config (bench_book H) b" "i < 65536"
  shows "index_of b (of_nat i) = Some i"
proof -
  have "ladder_config b" using assms(1) by (simp add: same_config_def ladder_config_def bench_config)
  from index_of_price_at [OF this, of i] show ?thesis
    using assms by (simp add: same_config_def price_at_def bench_config)
qed

lemma insert_priority_set: "set (insert_priority s x xs) = insert x (set xs)" "length (insert_priority s x xs) = Suc (length xs)"
  by (induction xs) auto

lemma holds_orders_images:
  assumes "holds_orders H i b"
  shows "o_id ` set (priority_orders b Buy) = (\<lambda>j. of_nat j + 1) ` {..<i}" "o_price ` set (priority_orders b Buy) = of_nat ` {..<i}"
proof -
  have eq: "(\<lambda>x. (o_id x, o_price x)) ` set (priority_orders b Buy) = (\<lambda>j. (of_nat j + 1, of_nat j)) ` {..<i}"
    using assms by (simp add: holds_orders_def)
  show "o_id ` set (priority_orders b Buy) = (\<lambda>j. of_nat j + 1) ` {..<i}" "o_price ` set (priority_orders b Buy) = of_nat ` {..<i}"
    using arg_cong [OF eq, of "image fst"] arg_cong [OF eq, of "image snd"] by (simp_all add: image_image)
qed

lemma add_order_step:
  assumes H: "hash_map_spec H" and b: "holds_orders H i b" and i: "i < 16384"
  obtains b1 where "book_add H b (make_order (of_nat i + 1) Buy (of_nat i) 10) = (Inr (of_nat i + 1), b1)" "holds_orders H (Suc i) b1"
proof -
  let ?o = "make_order (of_nat i + 1) Buy (of_nat i) 10"
  have inv: "book_inv H b" and cfg: "same_config (bench_book H) b" using b by (auto simp: holds_orders_def)
  have "(of_nat i :: u64) \<noteq> of_nat j" if "j < i" for j
  proof -
    have "unat (of_nat j :: u64) = j" "unat (of_nat i :: u64) = i" using that i by (simp_all add: unat_of_nat)
    then show ?thesis using that by auto
  qed
  then have "\<forall>j \<in> {..<i}. of_nat i + 1 \<noteq> (of_nat j + 1 :: u64)" by simp
  then have "of_nat i + 1 \<notin> o_id ` set (priority_orders b Buy)" unfolding holds_orders_images(1) [OF b] by blast
  then have ok: "add_outcome b ?o = Inr (of_nat i + 1)"
    using b i bench_index [OF cfg, of i] order_count_priority [OF inv] cfg
    by (simp add: add_outcome_def holds_orders_def resting_ids_priority [OF inv] same_config_def bench_config)
  note a = book_add_spec [OF H inv, of ?o] and p = book_add_priority [OF H inv ok]
  have "holds_orders H (Suc i) (snd (book_add H b ?o))"
    using b a(2,5) p same_config_trans [OF cfg] by (simp add: holds_orders_def insert_priority_set lessThan_Suc)
  then show ?thesis using a(1) ok by (intro that [of "snd (book_add H b ?o)"]) (simp_all add: prod_eq_iff)
qed

lemma add_levels_ok:
  assumes H: "hash_map_spec H"
  shows "holds_orders H i b \<Longrightarrow> i + k \<le> 16384 \<Longrightarrow>
    \<exists>b1. add_levels H i k b = Some (map (\<lambda>j. of_nat j + 1) [i..<i + k], b1) \<and>
      add_orders H i k b = (map (\<lambda>j. Inr (of_nat j + 1)) [i..<i + k], b1) \<and> holds_orders H (i + k) b1"
proof (induction k arbitrary: i b)
  case (Suc k)
  have "i < 16384" using Suc.prems(2) by simp
  then obtain b1 where b1: "book_add H b (make_order (of_nat i + 1) Buy (of_nat i) 10) = (Inr (of_nat i + 1), b1)"
    "holds_orders H (Suc i) b1" by (rule add_order_step [OF H Suc.prems(1)])
  from Suc.IH [OF b1(2)] Suc.prems(2) show ?case by (auto simp: b1(1) upt_conv_Cons simp del: upt_Suc)
qed simp

lemma cancel_ids_ok:
  assumes H: "hash_map_spec H"
  shows "book_inv H b \<Longrightarrow> distinct ids \<Longrightarrow> set ids \<subseteq> o_id ` set (priority_orders b Buy) \<Longrightarrow>
    \<exists>b1. cancel_ids H ids b = (replicate (length ids) (Inr ()), b1) \<and> book_inv H b1 \<and> same_config b b1 \<and>
      (\<forall>s. priority_orders b1 s = filter (\<lambda>x. o_id x \<notin> set ids) (priority_orders b s))"
proof (induction ids arbitrary: b)
  case (Cons oid ids)
  obtain b2 where r: "book_cancel H b oid = (Inr (), b2)"
    using book_cancel_spec(1) [OF H Cons.prems(1), of oid] Cons.prems(3)
    by (cases "book_cancel H b oid") (auto simp: resting_ids_priority [OF Cons.prems(1)])
  have c: "book_inv H b2" "same_config b b2" "priority_orders b2 s = filter (\<lambda>x. o_id x \<noteq> oid) (priority_orders b s)" for s
    using book_cancel_spec(2,4) [OF H Cons.prems(1), of oid] book_cancel_priority [OF H Cons.prems(1), of oid] by (simp_all add: r)
  have "set ids \<subseteq> o_id ` set (priority_orders b2 Buy)"
  proof
    fix x assume x: "x \<in> set ids"
    then obtain y where "y \<in> set (priority_orders b Buy)" "x = o_id y" using Cons.prems(3) by auto
    then show "x \<in> o_id ` set (priority_orders b2 Buy)" using x Cons.prems(2) by (auto simp: c)
  qed
  with Cons.IH [OF c(1)] Cons.prems(2) obtain b1 where
    "cancel_ids H ids b2 = (replicate (length ids) (Inr ()), b1)" "book_inv H b1" "same_config b2 b1"
    "\<forall>s. priority_orders b1 s = filter (\<lambda>x. o_id x \<notin> set ids) (priority_orders b2 s)" by auto
  then show ?case using same_config_trans [OF c(2)] by (auto simp: r c(3) conj_commute)
qed simp

lemma best_bid_orders:
  assumes "holds_orders H (Suc i) b" "i < 16384"
  shows "best_bid b = Some (of_nat i)"
proof -
  have inv: "book_inv H b" using assms(1) by (simp add: holds_orders_def)
  obtain x xs where xs: "priority_orders b Buy = x # xs" using assms(1) by (cases "priority_orders b Buy") (auto simp: holds_orders_def)
  have img: "o_price ` set (x # xs) = of_nat ` {..<Suc i}"
    using holds_orders_images(2) [OF assms(1)] xs by simp
  have small: "sint (of_nat j :: i64) = int j" if "j \<le> i" for j using that assms(2) by (intro sint_of_nat_i64) simp
  have "o_price x \<in> of_nat ` {..<Suc i}" unfolding img [symmetric] by simp
  then obtain j where j: "o_price x = of_nat j" "j \<le> i" by (auto simp: less_Suc_eq_le)
  obtain y where y: "y \<in> set (x # xs)" "o_price y = of_nat i" using img by (metis imageE image_eqI lessThan_iff lessI)
  have "sint (o_price y) \<le> sint (o_price x)" using front_is_best(1) [OF inv xs] y(1) by auto
  then have "j = i" using j y(2) small [of j] small [of i] by simp
  then show ?thesis using best_price_side [of Buy b] best_front_price [OF inv, of Buy] xs j(1) by simp
qed

lemma churn_levels_ok:
  assumes H: "hash_map_spec H"
  shows "holds_orders H 0 b \<Longrightarrow> \<exists>b1. churn_levels H n b = Some (replicate n (replicate kChurnLevels (Inr ())), b1) \<and> holds_orders H 0 b1"
proof (induction n arbitrary: b)
  case (Suc n)
  let ?ids = "map (\<lambda>j. of_nat j + 1) [0..<kChurnLevels] :: order_id list"
  obtain b1 where b1: "add_levels H 0 kChurnLevels b = Some (?ids, b1)" "holds_orders H kChurnLevels b1"
    using add_levels_ok [OF H Suc.prems, of kChurnLevels] by (auto simp: kChurnLevels_def)
  have img: "o_id ` set (priority_orders b1 Buy) = set ?ids"
    using holds_orders_images(1) [OF b1(2)] by (simp add: lessThan_atLeast0)
  have "inj_on (\<lambda>j. of_nat j + 1 :: u64) {0..<kChurnLevels}"
  proof (rule inj_onI)
    fix x y assume "x \<in> {0..<kChurnLevels}" "y \<in> {0..<kChurnLevels}" "of_nat x + 1 = (of_nat y + 1 :: u64)"
    then have "unat (of_nat x :: u64) = unat (of_nat y :: u64)" "x < 2 ^ 64" "y < 2 ^ 64" by (auto simp: kChurnLevels_def)
    then show "x = y" by (simp add: unat_of_nat)
  qed
  then have "distinct ?ids" by (simp add: distinct_map)
  with cancel_ids_ok [OF H, of b1 ?ids] b1(2) img obtain b2 where
    b2: "cancel_ids H ?ids b1 = (replicate kChurnLevels (Inr ()), b2)" "book_inv H b2" "same_config b1 b2"
      "priority_orders b2 s = filter (\<lambda>x. o_id x \<notin> set ?ids) (priority_orders b1 s)" for s
    by (auto simp: holds_orders_def)
  have "priority_orders b2 Buy = []" using b2(4) [of Buy] img by (auto simp: filter_empty_conv)
  moreover have "priority_orders b2 Sell = []" using b2(4) [of Sell] b1(2) by (simp add: holds_orders_def)
  ultimately have "holds_orders H 0 b2" using b2(2,3) b1(2) same_config_trans by (auto simp: holds_orders_def)
  from Suc.IH [OF this] show ?case by (auto simp: b1(1) b2(1))
qed simp

lemma add_cancel_rounds_ok:
  assumes H: "hash_map_spec H"
  shows "holds_orders H 0 b \<Longrightarrow> \<exists>b1. add_cancel_rounds H (make_order 1 Buy 100 10) n b = (replicate n (Inr 1, Inr ()), b1) \<and> holds_orders H 0 b1"
proof (induction n arbitrary: b)
  case (Suc n)
  let ?o = "make_order 1 Buy 100 10"
  have inv: "book_inv H b" and cfg: "same_config (bench_book H) b" and empty: "priority_orders b s = []" for s
    using Suc.prems by (cases s; simp add: holds_orders_def)+
  have ok: "add_outcome b ?o = Inr 1"
    using bench_index [OF cfg, of 100] order_count_priority [OF inv] cfg
    by (auto simp: add_outcome_def resting_ids_priority [OF inv] empty same_config_def bench_config)
  obtain b1 where add: "book_add H b ?o = (Inr 1, b1)"
    using book_add_spec(1) [OF H inv, of ?o] ok by (cases "book_add H b ?o") simp
  have b1: "book_inv H b1" "same_config b b1" "priority_orders b1 Buy = [?o]" "priority_orders b1 Sell = []"
    using book_add_spec(2,5) [OF H inv, of ?o] book_add_priority [OF H inv ok] by (simp_all add: add empty)
  obtain b2 where cancel: "book_cancel H b1 1 = (Inr (), b2)"
    using book_cancel_spec(1) [OF H b1(1), of 1] by (cases "book_cancel H b1 1") (simp add: resting_ids_priority [OF b1(1)] b1)
  have "holds_orders H 0 b2"
    using book_cancel_spec(2,4) [OF H b1(1), of 1] book_cancel_priority [OF H b1(1), of 1] same_config_trans [OF cfg same_config_trans [OF b1(2)]]
    by (simp add: holds_orders_def b1 cancel)
  from Suc.IH [OF this] show ?case by (auto simp: add cancel)
qed simp

text \<open>The workloads of the order book benchmark do what they are meant to measure.  However often they run, no
  add is refused, so dereferencing its result is safe, every cancel finds its order, the best bid read back is
  the highest price added, and each round ends with an empty, well-formed book.\<close>

theorem book_benchmarks_ok:
  assumes "hash_map_spec H"
  shows "(\<exists>b. bench_churn_across_levels H n = Some (replicate n (replicate kChurnLevels (Inr ())), b) \<and>
      book_inv H b \<and> priority_orders b Buy = [] \<and> priority_orders b Sell = []) \<and>
    (\<exists>b. bench_add_cancel_same_level H n = (replicate n (Inr 1, Inr ()), b) \<and>
      book_inv H b \<and> priority_orders b Buy = [] \<and> priority_orders b Sell = []) \<and>
    bench_best_bid_query H n = replicate n (Some 999)"
proof -
  note empty = bench_book_empty [OF assms]
  obtain b where "add_orders H 0 1000 (bench_book H) = (map (\<lambda>j. Inr (of_nat j + 1)) [0..<1000], b)" "holds_orders H 1000 b"
    using add_levels_ok [OF assms empty, of 1000] by auto
  moreover have "holds_orders H (Suc 999) b" using calculation(2) by simp
  ultimately have "bench_best_bid_query H n = replicate n (Some 999)"
    using best_bid_orders [of H 999 b] by (simp add: bench_best_bid_query_def)
  then show ?thesis
    using churn_levels_ok [OF assms empty, of n] add_cancel_rounds_ok [OF assms empty, of n]
    by (auto simp: bench_churn_across_levels_def bench_add_cancel_same_level_def holds_orders_def)
qed

theorem book_benchmarks_ok_witness:
  "hash_map_spec (fun_map :: demo_map index_ops) \<and> bench_best_bid_query (fun_map :: demo_map index_ops) 3 = [Some 999, Some 999, Some 999]"
  using book_benchmarks_ok [OF fun_map_spec, of 3] fun_map_spec by (simp add: numeral_3_eq_3)

end
