(* ===== verification/Bench_Matching.thy ===== *)
theory Bench_Matching
  imports Bench_Book Matching_Properties
begin

text \<open>
  \<open>bench/bench_matching_engine.cpp\<close>: the workloads on the matching engine.  Each round returns the fills it
  collected; \<open>fills.clear()\<close> at the start of a round makes its vector the empty list.
\<close>

definition bench_engine :: "'m index_ops \<Rightarrow> 'm engine" where
  "bench_engine H = engine_init H (2 ^ 16) (2 ^ 14) 1 0"

definition make_limit :: "u64 \<Rightarrow> side \<Rightarrow> i64 \<Rightarrow> i64 \<Rightarrow> order" where
  "make_limit oid side price qty = default_order\<lparr>o_id := oid, o_client := 1, o_symbol := 1, o_side := side, o_type := Limit,
     o_tif := Day, o_price := price, o_quantity := qty, o_remaining := qty\<rparr>"

fun crossing_rounds :: "'m index_ops \<Rightarrow> nat \<Rightarrow> u64 \<Rightarrow> 'm engine \<Rightarrow> (fill list list \<times> 'm engine) option" where
  "crossing_rounds H 0 oid e = Some ([], e)"
| "crossing_rounds H (Suc n) oid e =
     (case submit H e (make_limit oid Buy 100 10) [] of
        None \<Rightarrow> None
      | Some (result, e1, fills1) \<Rightarrow>
          (case submit H e1 (make_limit (oid + 1) Sell 100 10) fills1 of
             None \<Rightarrow> None
           | Some (rest, e2, fills2) \<Rightarrow> map_option (apfst ((#) fills2)) (crossing_rounds H n (oid + 2) e2)))"

definition bench_submit_crossing_single_fill :: "'m index_ops \<Rightarrow> nat \<Rightarrow> (fill list list \<times> 'm engine) option" where
  "bench_submit_crossing_single_fill H n =
     (case submit H (bench_engine H) (make_limit 1 Sell 100 10) [] of
        None \<Rightarrow> None | Some (r, e, fills) \<Rightarrow> crossing_rounds H n 2 e)"

definition bench_reused_out_fills :: "'m index_ops \<Rightarrow> nat \<Rightarrow> (fill list list \<times> 'm engine) option" where
  "bench_reused_out_fills H n =
     (case submit H (bench_engine H) (make_limit 1 Sell 100 10) [] of
        None \<Rightarrow> None | Some (r, e, fills) \<Rightarrow> crossing_rounds H n 2 e)"

text \<open>The variant with a fresh vector for every call.\<close>

fun fresh_rounds :: "'m index_ops \<Rightarrow> nat \<Rightarrow> u64 \<Rightarrow> 'm engine \<Rightarrow> ((fill list \<times> fill list) list \<times> 'm engine) option" where
  "fresh_rounds H 0 oid e = Some ([], e)"
| "fresh_rounds H (Suc n) oid e =
     (case submit H e (make_limit oid Buy 100 10) [] of
        None \<Rightarrow> None
      | Some (r1, e1, fresh) \<Rightarrow>
          (case submit H e1 (make_limit (oid + 1) Sell 100 10) [] of
             None \<Rightarrow> None
           | Some (r2, e2, fresh2) \<Rightarrow> map_option (apfst ((#) (fresh, fresh2))) (fresh_rounds H n (oid + 2) e2)))"

definition bench_fresh_out_fills :: "'m index_ops \<Rightarrow> nat \<Rightarrow> ((fill list \<times> fill list) list \<times> 'm engine) option" where
  "bench_fresh_out_fills H n =
     (case submit H (bench_engine H) (make_limit 1 Sell 100 10) [] of
        None \<Rightarrow> None | Some (r, e, seed_fills) \<Rightarrow> fresh_rounds H n 2 e)"

fun non_crossing_rounds ::
    "'m index_ops \<Rightarrow> nat \<Rightarrow> u64 \<Rightarrow> 'm engine \<Rightarrow> fill list \<Rightarrow> ((bool \<times> bool) list \<times> fill list \<times> 'm engine) option" where
  "non_crossing_rounds H 0 oid e fills = Some ([], fills, e)"
| "non_crossing_rounds H (Suc n) oid e fills =
     (case submit H e (make_limit oid Buy 100 10) fills of
        None \<Rightarrow> None
      | Some (result, e1, fills1) \<Rightarrow>
          let (cancelled, e2) = engine_cancel H e1 oid
          in map_option (apfst ((#) (nr_rested result, cr_accepted cancelled))) (non_crossing_rounds H n (oid + 1) e2 fills1))"

definition bench_submit_non_crossing_then_cancel ::
    "'m index_ops \<Rightarrow> nat \<Rightarrow> ((bool \<times> bool) list \<times> fill list \<times> 'm engine) option" where
  "bench_submit_non_crossing_then_cancel H n = non_crossing_rounds H n 1 (bench_engine H) []"

fun rest_sells :: "'m index_ops \<Rightarrow> nat \<Rightarrow> u64 \<Rightarrow> 'm engine \<Rightarrow> fill list \<Rightarrow> (fill list \<times> 'm engine) option" where
  "rest_sells H 0 oid e fills = Some (fills, e)"
| "rest_sells H (Suc k) oid e fills =
     (case submit H e (make_limit oid Sell 100 10) fills of
        None \<Rightarrow> None | Some (r, e1, fills1) \<Rightarrow> rest_sells H k (oid + 1) e1 fills1)"

fun sweep_rounds :: "'m index_ops \<Rightarrow> nat \<Rightarrow> i64 \<Rightarrow> nat \<Rightarrow> u64 \<Rightarrow> 'm engine \<Rightarrow> (fill list list \<times> 'm engine) option" where
  "sweep_rounds H k qty 0 oid e = Some ([], e)"
| "sweep_rounds H k qty (Suc n) oid e =
     (case rest_sells H k oid e [] of
        None \<Rightarrow> None
      | Some (setup, e1) \<Rightarrow>
          (case submit H e1 (make_limit (oid + of_nat k) Buy 100 qty) [] of
             None \<Rightarrow> None
           | Some (result, e2, fills) \<Rightarrow> map_option (apfst ((#) fills)) (sweep_rounds H k qty n (oid + of_nat k + 1) e2)))"

definition bench_submit_sweeps_ten_resting_orders :: "'m index_ops \<Rightarrow> nat \<Rightarrow> (fill list list \<times> 'm engine) option" where
  "bench_submit_sweeps_ten_resting_orders H n = sweep_rounds H 10 100 n 1 (bench_engine H)"

definition kSweepFillCount :: nat where
  "kSweepFillCount = 20"

definition bench_reused_out_fills_20_way_sweep :: "'m index_ops \<Rightarrow> nat \<Rightarrow> (fill list list \<times> 'm engine) option" where
  "bench_reused_out_fills_20_way_sweep H n = sweep_rounds H kSweepFillCount (10 * of_nat kSweepFillCount) n 1 (bench_engine H)"

definition bench_fresh_out_fills_20_way_sweep :: "'m index_ops \<Rightarrow> nat \<Rightarrow> (fill list list \<times> 'm engine) option" where
  "bench_fresh_out_fills_20_way_sweep H n = sweep_rounds H kSweepFillCount (10 * of_nat kSweepFillCount) n 1 (bench_engine H)"

subsection \<open>A queue of equal sell orders\<close>

definition sell_queue :: "u64 list \<Rightarrow> order list" where
  "sell_queue ids = map (\<lambda>i. make_limit i Sell 100 10) ids"

definition holds_sells :: "'m index_ops \<Rightarrow> u64 list \<Rightarrow> 'm engine \<Rightarrow> bool" where
  "holds_sells H ids e \<longleftrightarrow> engine_inv H e \<and> same_config (bench_book H) (me_book e) \<and>
     priority_orders (me_book e) Buy = [] \<and> priority_orders (me_book e) Sell = sell_queue ids"

lemma make_limit_simps [simp]:
  "o_id (make_limit i s p q) = i" "o_price (make_limit i s p q) = p" "o_side (make_limit i s p q) = s"
  "o_type (make_limit i s p q) = Limit" "o_remaining (make_limit i s p q) = q" "o_tif (make_limit i s p q) = Day"
  "o_quantity (make_limit i s p q) = q" "o_symbol (make_limit i s p q) = 1" "make_limit i s p q\<lparr>o_remaining := q\<rparr> = make_limit i s p q"
  by (simp_all add: make_limit_def)

lemma bench_engine_empty:
  assumes "hash_map_spec H"
  shows "holds_sells H [] (bench_engine H)"
proof -
  have "me_book (bench_engine H) = bench_book H" by (simp add: bench_engine_def engine_init_def bench_book_def)
  moreover have "engine_inv H (bench_engine H)" unfolding bench_engine_def by (rule engine_init_inv [OF assms]) (simp_all add: kNone_def)
  ultimately show ?thesis using bench_book_empty [OF assms] by (simp add: holds_sells_def holds_orders_def sell_queue_def)
qed

lemma sell_queue_greedy:
  "sint q = 10 * int (length ids) \<Longrightarrow> greedy_fills q (sell_queue ids) = map (\<lambda>r. (r, 10)) (sell_queue ids) \<and>
    leftover q (sell_queue ids) = [] \<and> unfilled q (sell_queue ids) = 0"
proof (induction ids arbitrary: q)
  case (Cons i ids)
  have "sint (q - 10) = 10 * int (length ids)" using Cons.prems sint_minus_i64 [of 10 q] by simp
  from Cons.IH [OF this] show ?case using Cons.prems by (auto simp: sell_queue_def min_amount_def)
qed (simp add: sell_queue_def sint_eq_iff_i64 [of _ 0, simplified])

lemma fills_of_prices_quantities: "map (\<lambda>f. (f_price f, f_quantity f)) (fills_of agg m fs) = map (\<lambda>(r, q). (o_price r, q)) fs"
  by (induction fs arbitrary: m) auto

lemma bench_admitted:
  assumes "holds_sells H ids e" "0 < sint qty"
  shows "admitted e (make_limit oid s price qty)"
  using assms by (simp add: admitted_def holds_sells_def same_config_def bench_book_def order_book_init_def)

lemma insert_behind: "insert_priority Sell (make_limit oid Sell 100 q) (sell_queue ids) = sell_queue ids @ [make_limit oid Sell 100 q]"
  by (induction ids) (simp_all add: sell_queue_def better_price_def)

lemma rest_sell:
  assumes b: "holds_sells H ids e" and new: "oid \<notin> set ids" and room: "length ids < 16384"
  obtains r e' where "submit H e (make_limit oid Sell 100 10) out = Some (r, e', out)" "holds_sells H (ids @ [oid]) e'"
proof -
  let ?o = "make_limit oid Sell 100 10"
  have inv: "engine_inv H e" and cfg: "same_config (bench_book H) (me_book e)" and
    pri: "priority_orders (me_book e) Buy = []" "priority_orders (me_book e) Sell = sell_queue ids"
    using b by (auto simp: holds_sells_def)
  note bk = engine_invD(2) [OF inv]
  have adm: "admitted e ?o" by (rule bench_admitted [OF b]) simp
  have cross: "crossing_orders e ?o = []" by (simp add: crossing_orders_def pri)
  have new': "o_id ?o \<notin> resting_ids (book_orders (me_book e))"
    using new by (auto simp: resting_ids_priority [OF bk] pri sell_queue_def)
  have room': "ob_order_count (me_book e) < ob_max_orders (me_book e)"
    using room cfg by (simp add: order_count_priority [OF bk] pri sell_queue_def same_config_def bench_config)
  have index: "index_of (me_book e) (o_price ?o) \<noteq> None" using bench_index [OF cfg, of 100] by simp
  obtain r e' where r: "submit H e ?o out = Some (r, e', out)" "engine_inv H e'" "same_config (me_book e) (me_book e')"
    "priority_orders (me_book e') (o_side ?o) =
      insert_priority (o_side ?o) (?o\<lparr>o_remaining := o_quantity ?o\<rparr>) (priority_orders (me_book e) (o_side ?o))"
    "priority_orders (me_book e') (opposite (o_side ?o)) = priority_orders (me_book e) (opposite (o_side ?o))"
    by (rule submit_rests [OF inv adm _ _ cross new' room' index]) simp_all
  then have "holds_sells H (ids @ [oid]) e'"
    using same_config_trans [OF cfg r(3)] insert_behind [of oid 10 ids]
    by (simp add: holds_sells_def pri sell_queue_def)
  with r(1) show ?thesis by (rule that)
qed

lemma sweep_sells:
  assumes b: "holds_sells H ids e" and qty: "sint qty = 10 * int (length ids)" "ids \<noteq> []"
  obtains r e' fills where "submit H e (make_limit oid Buy 100 qty) out = Some (r, e', out @ fills)" "holds_sells H [] e'"
    "map (\<lambda>f. (f_price f, f_quantity f)) fills = replicate (length ids) (100, 10)"
proof -
  let ?o = "make_limit oid Buy 100 qty"
  have inv: "engine_inv H e" and cfg: "same_config (bench_book H) (me_book e)" and
    pri: "priority_orders (me_book e) Buy = []" "priority_orders (me_book e) Sell = sell_queue ids"
    using b by (auto simp: holds_sells_def)
  have adm: "admitted e ?o" using qty by (intro bench_admitted [OF b]) simp
  have all: "\<forall>r \<in> set (sell_queue ids). acceptable ?o (o_price r)"
    by (simp add: sell_queue_def acceptable_def price_crosses_def)
  then have cross: "crossing_orders e ?o = sell_queue ids"
    and drop: "dropWhile (\<lambda>r. acceptable ?o (o_price r)) (sell_queue ids) = []"
    by (simp_all add: crossing_orders_def pri takeWhile_eq_all_conv dropWhile_eq_Nil_conv)
  note g = sell_queue_greedy [OF qty(1)]
  have rem: "submit_remaining e ?o = 0" using g by (simp add: submit_remaining_def cross)
  obtain r e' where r: "submit H e ?o out = Some (r, e', out @ submit_fills e ?o)" "engine_inv H e'"
    "priority_orders (me_book e') (opposite (o_side ?o)) = leftover (o_quantity ?o) (crossing_orders e ?o) @
       dropWhile (\<lambda>r. acceptable ?o (o_price r)) (priority_orders (me_book e) (opposite (o_side ?o)))"
    "priority_orders (me_book e') (o_side ?o) = (if nr_rested r
       then insert_priority (o_side ?o) (?o\<lparr>o_remaining := submit_remaining e ?o\<rparr>) (priority_orders (me_book e) (o_side ?o))
       else priority_orders (me_book e) (o_side ?o))"
    "\<not> nr_rested r \<and> nr_reject_reason r = NoReject \<longleftrightarrow>
       \<not> (0 < sint (submit_remaining e ?o) \<and> o_type ?o = Limit \<and> o_tif ?o = Day)"
    by (rule submit_books [OF inv adm])
  have "same_config (me_book e) (me_book e')" using submit_total [OF inv, of ?o out] r(1) by auto
  then have "holds_sells H [] e'"
    using r(2-5) g drop same_config_trans [OF cfg] by (simp add: holds_sells_def rem cross pri) (simp add: sell_queue_def)
  moreover have "map (\<lambda>f. (f_price f, f_quantity f)) (submit_fills e ?o) = replicate (length ids) (100, 10)"
    using g by (simp add: submit_fills_def cross fills_of_prices_quantities comp_def)
      (simp add: sell_queue_def comp_def map_replicate_const)
  ultimately show ?thesis using r(1) by (intro that)
qed

subsection \<open>The rounds\<close>

abbreviation prices_quantities :: "fill list \<Rightarrow> (price \<times> quantity) list" where
  "prices_quantities \<equiv> map (\<lambda>f. (f_price f, f_quantity f))"

lemma cross_and_rest:
  assumes "holds_sells H [k] e"
  obtains r e1 fills where "submit H e (make_limit oid Buy 100 10) [] = Some (r, e1, fills)"
    "prices_quantities fills = [(100, 10)]"
    "\<forall>out. \<exists>r2 e2. submit H e1 (make_limit (oid + 1) Sell 100 10) out = Some (r2, e2, out) \<and> holds_sells H [oid + 1] e2"
proof -
  obtain r e1 fills where buy: "submit H e (make_limit oid Buy 100 10) [] = Some (r, e1, [] @ fills)" "holds_sells H [] e1"
    "prices_quantities fills = replicate (length [k]) (100, 10)"
    by (rule sweep_sells [OF assms, of 10 oid "[]"]) simp_all
  have "\<exists>r2 e2. submit H e1 (make_limit (oid + 1) Sell 100 10) out = Some (r2, e2, out) \<and> holds_sells H [oid + 1] e2" for out
    by (rule rest_sell [OF buy(2), of "oid + 1" out]) auto
  with buy show ?thesis by (intro that [of r e1 fills]) simp_all
qed

lemma crossing_rounds_ok:
  "holds_sells H [k] e \<Longrightarrow> \<exists>rounds e'. crossing_rounds H n oid e = Some (rounds, e') \<and>
     map prices_quantities rounds = replicate n [(100, 10)] \<and> (\<exists>k'. holds_sells H [k'] e')"
proof (induction n arbitrary: k oid e)
  case (Suc n)
  obtain r e1 fills where c: "submit H e (make_limit oid Buy 100 10) [] = Some (r, e1, fills)" "prices_quantities fills = [(100, 10)]"
    "\<forall>out. \<exists>r2 e2. submit H e1 (make_limit (oid + 1) Sell 100 10) out = Some (r2, e2, out) \<and> holds_sells H [oid + 1] e2"
    by (rule cross_and_rest [OF Suc.prems])
  obtain r2 e2 where "submit H e1 (make_limit (oid + 1) Sell 100 10) fills = Some (r2, e2, fills)" "holds_sells H [oid + 1] e2"
    using c(3) by blast
  then show ?case using Suc.IH [of "oid + 1" e2 "oid + 2"] c(1,2) by fastforce
qed auto

lemma fresh_rounds_ok:
  "holds_sells H [k] e \<Longrightarrow> \<exists>rounds e'. fresh_rounds H n oid e = Some (rounds, e') \<and>
     map (\<lambda>(fs, fs'). (prices_quantities fs, fs')) rounds = replicate n ([(100, 10)], []) \<and> (\<exists>k'. holds_sells H [k'] e')"
proof (induction n arbitrary: k oid e)
  case (Suc n)
  obtain r e1 fills where c: "submit H e (make_limit oid Buy 100 10) [] = Some (r, e1, fills)" "prices_quantities fills = [(100, 10)]"
    "\<forall>out. \<exists>r2 e2. submit H e1 (make_limit (oid + 1) Sell 100 10) out = Some (r2, e2, out) \<and> holds_sells H [oid + 1] e2"
    by (rule cross_and_rest [OF Suc.prems])
  obtain r2 e2 where "submit H e1 (make_limit (oid + 1) Sell 100 10) [] = Some (r2, e2, [])" "holds_sells H [oid + 1] e2"
    using c(3) by blast
  then show ?case using Suc.IH [of "oid + 1" e2 "oid + 2"] c(1,2) by fastforce
qed auto

lemma rest_sells_ok:
  "holds_sells H ids e \<Longrightarrow> length ids + k \<le> 16384 \<Longrightarrow> \<forall>i \<in> set ids. \<forall>j < k. i \<noteq> oid + of_nat j \<Longrightarrow>
    \<exists>e'. rest_sells H k oid e out = Some (out, e') \<and> holds_sells H (ids @ map (\<lambda>j. oid + of_nat j) [0..<k]) e'"
proof (induction k arbitrary: ids oid e)
  case (Suc k)
  have "oid \<notin> set ids" using Suc.prems(3) by force
  moreover have "length ids < 16384" using Suc.prems(2) by simp
  ultimately obtain r e1 where e1: "submit H e (make_limit oid Sell 100 10) out = Some (r, e1, out)" "holds_sells H (ids @ [oid]) e1"
    by (rule rest_sell [OF Suc.prems(1)])
  have "oid + 1 + of_nat j \<noteq> oid" if "j < k" for j
  proof -
    have "unat (of_nat (Suc j) :: u64) = Suc j" using that Suc.prems(2) by (simp add: unat_of_nat del: of_nat_Suc)
    then have "(of_nat (Suc j) :: u64) \<noteq> 0" by (metis nat.distinct(1) unat_0)
    then show ?thesis by (simp add: add.assoc)
  qed
  then have "\<forall>i \<in> set (ids @ [oid]). \<forall>j < k. i \<noteq> oid + 1 + of_nat j"
    using Suc.prems(3) by (force simp: add.assoc)
  moreover have "map (\<lambda>j. oid + of_nat j) [0..<Suc k] = oid # map (\<lambda>j. oid + 1 + of_nat j) [0..<k]"
    by (simp add: upt_conv_Cons map_Suc_upt [symmetric] comp_def add.assoc del: upt_Suc)
  ultimately show ?case using Suc.IH [OF e1(2)] Suc.prems(2) e1(1) by simp
qed simp

lemma sweep_rounds_ok:
  assumes k: "0 < k" "k \<le> 16384" and qty: "sint qty = 10 * int k"
  shows "holds_sells H [] e \<Longrightarrow> \<exists>rounds e'. sweep_rounds H k qty n oid e = Some (rounds, e') \<and>
     map prices_quantities rounds = replicate n (replicate k (100, 10)) \<and> holds_sells H [] e'"
proof (induction n arbitrary: oid e)
  case (Suc n)
  let ?ids = "map (\<lambda>j. oid + of_nat j) [0..<k]"
  obtain e1 where e1: "rest_sells H k oid e [] = Some ([], e1)" "holds_sells H ?ids e1"
    using rest_sells_ok [OF Suc.prems, of k oid "[]"] k by auto
  obtain r e2 fills where e2: "submit H e1 (make_limit (oid + of_nat k) Buy 100 qty) [] = Some (r, e2, [] @ fills)" "holds_sells H [] e2"
    "prices_quantities fills = replicate (length ?ids) (100, 10)"
    by (rule sweep_sells [OF e1(2), of qty "oid + of_nat k" "[]"]) (use k qty in simp_all)
  then show ?case using Suc.IH [OF e2(2), of "oid + of_nat k + 1"] e1(1) by fastforce
qed auto

lemma non_crossing_rounds_ok:
  "holds_sells H [] e \<Longrightarrow> \<exists>e'. non_crossing_rounds H n oid e fills = Some (replicate n (True, True), fills, e') \<and> holds_sells H [] e'"
proof (induction n arbitrary: oid e)
  case (Suc n)
  let ?o = "make_limit oid Buy 100 10"
  have inv: "engine_inv H e" and cfg: "same_config (bench_book H) (me_book e)" and pri: "priority_orders (me_book e) s = []" for s
    using Suc.prems by (cases s; simp add: holds_sells_def sell_queue_def)+
  note bk = engine_invD(2) [OF inv]
  have adm: "admitted e ?o" by (rule bench_admitted [OF Suc.prems]) simp
  have cross: "crossing_orders e ?o = []" by (simp add: crossing_orders_def pri)
  have new: "o_id ?o \<notin> resting_ids (book_orders (me_book e))" by (simp add: resting_ids_priority [OF bk] pri)
  have room: "ob_order_count (me_book e) < ob_max_orders (me_book e)"
    using cfg by (simp add: order_count_priority [OF bk] pri same_config_def bench_config)
  have index: "index_of (me_book e) (o_price ?o) \<noteq> None" using bench_index [OF cfg, of 100] by simp
  obtain r e1 where r: "submit H e ?o fills = Some (r, e1, fills)" "nr_rested r" "engine_inv H e1" "same_config (me_book e) (me_book e1)"
    "priority_orders (me_book e1) (o_side ?o) =
      insert_priority (o_side ?o) (?o\<lparr>o_remaining := o_quantity ?o\<rparr>) (priority_orders (me_book e) (o_side ?o))"
    "priority_orders (me_book e1) (opposite (o_side ?o)) = priority_orders (me_book e) (opposite (o_side ?o))"
    by (rule submit_rests [OF inv adm _ _ cross new room index]) simp_all
  note H = engine_invD(1) [OF inv] and bk1 = engine_invD(2) [OF r(3)]
  obtain b2 where c: "book_cancel H (me_book e1) oid = (Inr (), b2)"
    using book_cancel_spec(1) [OF H bk1, of oid] r(5)
    by (cases "book_cancel H (me_book e1) oid") (simp add: resting_ids_priority [OF bk1] pri)
  have "priority_orders b2 s = filter (\<lambda>x. o_id x \<noteq> oid) (priority_orders (me_book e1) s)" "same_config (me_book e1) b2" for s
    using book_cancel_priority [OF H bk1, of oid s] book_cancel_spec(4) [OF H bk1, of oid] by (simp_all add: c)
  moreover have "engine_inv H (e1\<lparr>me_book := b2\<rparr>)" using engine_cancel_inv [OF r(3), of oid] by (simp add: engine_cancel_def c)
  ultimately have "holds_sells H [] (e1\<lparr>me_book := b2\<rparr>)"
    using r(5,6) same_config_trans [OF cfg same_config_trans [OF r(4)]] by (simp add: holds_sells_def sell_queue_def pri)
  from Suc.IH [OF this, of "oid + 1"] show ?case using r(1,2) by (auto simp: engine_cancel_def c)
qed simp

text \<open>The workloads of the matching benchmark do what they are meant to measure.  However often they run, every
  crossing buy trades once, 10 at price 100, with the sell left by the round before, whether its fills go to a
  reused or to a fresh vector; every sweep fills all ten, or twenty, resting orders and leaves an empty book; and
  an order that does not cross rests, trades nothing and is found by its cancel.\<close>

theorem matching_benchmarks_ok:
  assumes "hash_map_spec H"
  shows "(\<exists>rounds e. bench_submit_crossing_single_fill H n = Some (rounds, e) \<and>
      bench_reused_out_fills H n = Some (rounds, e) \<and> map prices_quantities rounds = replicate n [(100, 10)]) \<and>
    (\<exists>rounds e. bench_fresh_out_fills H n = Some (rounds, e) \<and>
      map (\<lambda>(fs, fs'). (prices_quantities fs, fs')) rounds = replicate n ([(100, 10)], [])) \<and>
    (\<exists>rounds e. bench_submit_sweeps_ten_resting_orders H n = Some (rounds, e) \<and>
      map prices_quantities rounds = replicate n (replicate 10 (100, 10)) \<and>
      priority_orders (me_book e) Buy = [] \<and> priority_orders (me_book e) Sell = []) \<and>
    (\<exists>rounds e. bench_reused_out_fills_20_way_sweep H n = Some (rounds, e) \<and>
      bench_fresh_out_fills_20_way_sweep H n = Some (rounds, e) \<and>
      map prices_quantities rounds = replicate n (replicate 20 (100, 10))) \<and>
    (\<exists>e. bench_submit_non_crossing_then_cancel H n = Some (replicate n (True, True), [], e))"
proof -
  note empty = bench_engine_empty [OF assms]
  obtain r e where first: "submit H (bench_engine H) (make_limit 1 Sell 100 10) [] = Some (r, e, [])" "holds_sells H ([] @ [1]) e"
    by (rule rest_sell [OF empty, of 1 "[]"]) simp_all
  have "\<exists>rounds e. bench_submit_crossing_single_fill H n = Some (rounds, e) \<and>
      bench_reused_out_fills H n = Some (rounds, e) \<and> map prices_quantities rounds = replicate n [(100, 10)]"
    using crossing_rounds_ok [of H 1 e n 2] first by (auto simp: bench_submit_crossing_single_fill_def bench_reused_out_fills_def)
  moreover have "\<exists>rounds e. bench_fresh_out_fills H n = Some (rounds, e) \<and>
      map (\<lambda>(fs, fs'). (prices_quantities fs, fs')) rounds = replicate n ([(100, 10)], [])"
    using fresh_rounds_ok [of H 1 e n 2] first by (auto simp: bench_fresh_out_fills_def)
  moreover have "\<exists>rounds e. bench_submit_sweeps_ten_resting_orders H n = Some (rounds, e) \<and>
      map prices_quantities rounds = replicate n (replicate 10 (100, 10)) \<and>
      priority_orders (me_book e) Buy = [] \<and> priority_orders (me_book e) Sell = []"
    using sweep_rounds_ok [of 10 100, OF _ _ _ empty, of n 1]
    by (auto simp: bench_submit_sweeps_ten_resting_orders_def holds_sells_def sell_queue_def)
  moreover have "\<exists>rounds e. bench_reused_out_fills_20_way_sweep H n = Some (rounds, e) \<and>
      bench_fresh_out_fills_20_way_sweep H n = Some (rounds, e) \<and> map prices_quantities rounds = replicate n (replicate 20 (100, 10))"
    using sweep_rounds_ok [of 20 200, OF _ _ _ empty, of n 1]
    by (auto simp: bench_reused_out_fills_20_way_sweep_def bench_fresh_out_fills_20_way_sweep_def kSweepFillCount_def)
  moreover have "\<exists>e. bench_submit_non_crossing_then_cancel H n = Some (replicate n (True, True), [], e)"
    using non_crossing_rounds_ok [OF empty, of n 1 "[]"] by (auto simp: bench_submit_non_crossing_then_cancel_def)
  ultimately show ?thesis by blast
qed

theorem matching_benchmarks_ok_witness:
  "\<exists>rounds e. bench_submit_sweeps_ten_resting_orders (fun_map :: demo_map index_ops) 2 = Some (rounds, e) \<and> map length rounds = [10, 10]"
proof -
  obtain rounds e where r: "bench_submit_sweeps_ten_resting_orders (fun_map :: demo_map index_ops) 2 = Some (rounds, e)"
    "map prices_quantities rounds = replicate 2 (replicate 10 (100, 10))"
    using matching_benchmarks_ok [OF fun_map_spec, of 2] by blast
  have "map length rounds = map length (map prices_quantities rounds)" by simp
  then have "map length rounds = [10, 10]" unfolding r(2) by (simp add: numeral_2_eq_2)
  with r(1) show ?thesis by (intro exI conjI)
qed

end
