(* ===== verification/Bench_Index.thy ===== *)
theory Bench_Index
  imports Price_Index Synthetic
begin

text \<open>
  \<open>bench/bench_order_book_backends.cpp\<close>: the churn that compares the price indexes.  The random sequences come
  from the record of random operations, as in the synthetic generator; an iteration returns the best prices it
  has seen.
\<close>

definition kRange :: i64 where "kRange = 2 ^ 16"
definition kChurnOpsPerIteration :: nat where "kChurnOpsPerIteration = 5000"

fun draw_prices :: "'g random_ops \<Rightarrow> nat \<Rightarrow> 'g \<Rightarrow> i64 list" where
  "draw_prices R 0 g = []"
| "draw_prices R (Suc n) g = (let (p, g1) = rnd_uniform R 0 (kRange - 1) g in p # draw_prices R n g1)"

definition make_price_sequence :: "'g random_ops \<Rightarrow> nat \<Rightarrow> u64 \<Rightarrow> i64 list" where
  "make_price_sequence R n seed = draw_prices R n (rnd_seed R seed)"

fun index_churn ::
    "(i64 \<Rightarrow> 'q \<Rightarrow> 'q) \<Rightarrow> (i64 \<Rightarrow> 'q \<Rightarrow> 'q) \<Rightarrow> ('q \<Rightarrow> i64 option) \<Rightarrow> i64 list \<Rightarrow> nat \<Rightarrow> nat \<Rightarrow> 'q \<Rightarrow> i64 option list" where
  "index_churn ins del best churn_inserts 0 churn_cursor x = []"
| "index_churn ins del best churn_inserts (Suc k) churn_cursor x =
     (let b = best x;
          x1 = (case b of Some p \<Rightarrow> del p x | None \<Rightarrow> x);
          x2 = ins (churn_inserts ! churn_cursor) x1
      in b # index_churn ins del best churn_inserts k ((churn_cursor + 1) mod length churn_inserts) x2)"

definition run_churn_benchmark ::
    "'g random_ops \<Rightarrow> (i64 \<Rightarrow> 'q \<Rightarrow> 'q) \<Rightarrow> (i64 \<Rightarrow> 'q \<Rightarrow> 'q) \<Rightarrow> ('q \<Rightarrow> i64 option) \<Rightarrow> 'q \<Rightarrow> nat \<Rightarrow> nat \<Rightarrow> i64 option list list" where
  "run_churn_benchmark R ins del best index book_depth n =
     (let build_up = make_price_sequence R book_depth 1;
          churn_inserts = make_price_sequence R (kChurnOpsPerIteration * 20) 2
      in replicate n (index_churn ins del best churn_inserts kChurnOpsPerIteration 0 (fold ins build_up index)))"

subsection \<open>All indexes see the same prices\<close>

fun set_churn :: "i64 list \<Rightarrow> nat \<Rightarrow> nat \<Rightarrow> int set \<Rightarrow> i64 option list" where
  "set_churn inserts 0 cursor S = []"
| "set_churn inserts (Suc k) cursor S =
     highest S # set_churn inserts k ((cursor + 1) mod length inserts)
       (insert (sint (inserts ! cursor)) (case highest S of Some p \<Rightarrow> S - {sint p} | None \<Rightarrow> S))"

context price_index
begin

lemma fold_ins:
  "invar q \<Longrightarrow> \<forall>p \<in> set ps. valid q p \<Longrightarrow> \<forall>p. sint p \<in> occ q \<longrightarrow> valid q p \<Longrightarrow>
    invar (fold ins ps q) \<and> valid (fold ins ps q) = valid q \<and> occ (fold ins ps q) = occ q \<union> sint ` set ps \<and>
    (\<forall>p. sint p \<in> occ (fold ins ps q) \<longrightarrow> valid q p)"
proof (induction ps arbitrary: q)
  case (Cons p ps)
  have q: "invar (ins p q)" "valid (ins p q) = valid q" "occ (ins p q) = insert (sint p) (occ q)"
    using ins_law [OF Cons.prems(1), of p] Cons.prems(2) by auto
  have "\<forall>p'. sint p' \<in> occ (ins p q) \<longrightarrow> valid (ins p q) p'"
    using Cons.prems(2,3) q by (auto simp: sint_eq_iff_i64)
  moreover have "\<forall>p' \<in> set ps. valid (ins p q) p'" using Cons.prems(2) q(2) by simp
  ultimately show ?case using Cons.IH [OF q(1)] by (simp add: q(2,3))
qed simp

lemma index_churn_set:
  "invar q \<Longrightarrow> \<forall>p \<in> set inserts. valid q p \<Longrightarrow> \<forall>p. sint p \<in> occ q \<longrightarrow> valid q p \<Longrightarrow> cursor < length inserts \<Longrightarrow>
    index_churn ins del best inserts k cursor q = set_churn inserts k cursor (occ q)"
proof (induction k arbitrary: q cursor)
  case (Suc k)
  define q1 where "q1 = (case best q of Some p \<Rightarrow> del p q | None \<Rightarrow> q)"
  have q1: "invar q1" "valid q1 = valid q" "occ q1 = (case highest (occ q) of Some p \<Rightarrow> occ q - {sint p} | None \<Rightarrow> occ q)"
    using del_law [OF Suc.prems(1)] best_Some [OF Suc.prems(1)] Suc.prems(1,3) best_highest [OF Suc.prems(1)]
    by (auto simp: q1_def split: option.split)
  let ?p = "inserts ! cursor"
  have p: "valid q1 ?p" using Suc.prems(2,4) q1(2) by simp
  note q2 = ins_law [OF q1(1) p]
  have "occ q1 \<subseteq> occ q" by (auto simp: q1(3) split: option.splits)
  then have "\<forall>p'. sint p' \<in> occ (ins ?p q1) \<longrightarrow> valid (ins ?p q1) p'"
    using q2 q1(2) p Suc.prems(3) by (auto simp: sint_eq_iff_i64)
  moreover have "(cursor + 1) mod length inserts < length inserts" using Suc.prems(4) by (intro mod_less_divisor) linarith
  moreover have "\<forall>p \<in> set inserts. valid (ins ?p q1) p" using Suc.prems(2) q1(2) q2 by simp
  ultimately have "index_churn ins del best inserts k ((cursor + 1) mod length inserts) (ins ?p q1) =
      set_churn inserts k ((cursor + 1) mod length inserts) (occ (ins ?p q1))"
    using q2 by (intro Suc.IH) auto
  then show ?case using q2 q1(3) best_highest [OF Suc.prems(1)] by (simp add: q1_def Let_def)
qed simp

lemma churn_benchmark_set:
  assumes "invar q" "occ q = {}" "\<forall>p \<in> set (make_price_sequence R depth 1) \<union> set (make_price_sequence R (kChurnOpsPerIteration * 20) 2). valid q p"
    "0 < length (make_price_sequence R (kChurnOpsPerIteration * 20) 2)"
  shows "run_churn_benchmark R ins del best q depth n = replicate n (set_churn (make_price_sequence R (kChurnOpsPerIteration * 20) 2)
    kChurnOpsPerIteration 0 (sint ` set (make_price_sequence R depth 1)))"
proof -
  note f = fold_ins [OF assms(1), of "make_price_sequence R depth 1"]
  show ?thesis
    using f index_churn_set [of "fold ins (make_price_sequence R depth 1) q"] assms(2-4) by (simp add: run_churn_benchmark_def)
qed

end

lemma draw_prices_length: "length (draw_prices R n g) = n"
  by (induction n arbitrary: g) (auto split: prod.split)

lemma draw_prices_range:
  assumes "uniform_spec R"
  shows "p \<in> set (draw_prices R n g) \<Longrightarrow> 0 \<le> sint p \<and> sint p < 65536"
proof (induction n arbitrary: g)
  case (Suc n)
  obtain x g1 where x: "rnd_uniform R 0 (kRange - 1) g = (x, g1)" by fastforce
  have "0 \<le> sint x \<and> sint x < 65536"
    using uniform_specD [OF assms x] by (simp add: kRange_def)
  then show ?case using Suc by (auto simp: x)
qed simp

text \<open>The comparison of the price indexes is fair.  Whatever the random sequences, at every depth the bitmap
  ladder, the tree and the sorted vector see the same best price at each of the operations of every iteration:
  the highest price of the set they hold, so they erase and insert the same prices throughout.\<close>

theorem index_benchmark_fair:
  assumes "uniform_spec R"
  shows "run_churn_benchmark R ladder_insert ladder_erase ladder_best (ladder_index_init (2 ^ 16)) depth n =
      run_churn_benchmark R tree_insert tree_erase tree_best tree_index_init depth n \<and>
    run_churn_benchmark R flat_insert flat_erase flat_best flat_index_init depth n =
      run_churn_benchmark R tree_insert tree_erase tree_best tree_index_init depth n"
proof -
  let ?ins = "make_price_sequence R (kChurnOpsPerIteration * 20) 2"
  have range: "0 \<le> sint p \<and> sint p < 65536" if "p \<in> set (make_price_sequence R k seed)" for p k seed
    using that draw_prices_range [OF assms] by (simp add: make_price_sequence_def)
  have len: "0 < length ?ins" by (simp add: make_price_sequence_def draw_prices_length kChurnOpsPerIteration_def)
  have init: "bits (li_occupied (ladder_index_init (2 ^ 16))) = {}" "bm_num_bits (li_occupied (ladder_index_init (2 ^ 16))) = 65536"
    by (simp_all add: ladder_index_init_def bits_init) (simp add: bitmap_init_def)
  have "ladder_index_inv (ladder_index_init (2 ^ 16))" by (rule ladder_index_init_inv) simp
  then show ?thesis
    using ladder.churn_benchmark_set [of "ladder_index_init (2 ^ 16)" R depth n]
      tree.churn_benchmark_set [of tree_index_init R depth n] flat.churn_benchmark_set [of flat_index_init R depth n] range len init
    by (simp add: ladder_valid_def tree_index_init_def flat_index_init_def flat_inv_def Ball_def)
qed

theorem index_benchmark_fair_witness:
  "uniform_spec lowest_random \<and> run_churn_benchmark lowest_random flat_insert flat_erase flat_best flat_index_init 20 3 =
     run_churn_benchmark lowest_random tree_insert tree_erase tree_best tree_index_init 20 3"
  using index_benchmark_fair [OF lowest_random_uniform, of 20 3] lowest_random_uniform by blast

end
