(* ===== verification/Bench_Pipeline.thy ===== *)
theory Bench_Pipeline
  imports Bench_Matching Viewer_Spec Metrics_Properties
begin

text \<open>
  \<open>bench/bench_end_to_end.cpp\<close>: the workloads whose calls are timed one by one.  The readings of the steady clock, in nanoseconds, are a parameter: \<open>now k\<close> is
  reading \<open>k\<close> of a benchmark, and each timed call takes two.  The timed benchmarks are registered for one
  iteration.
\<close>

subsection \<open>The report\<close>

definition elapsed_ns :: "i64 \<Rightarrow> i64 \<Rightarrow> i64" where
  "elapsed_ns start stop = stop - start"

record bench_counters =
  bc_p50_ns :: real
  bc_p99_ns :: real
  bc_p99_9_ns :: real
  bc_max_ns :: real
  bc_min_ns :: real
  bc_mean_ns :: real
  bc_samples :: real

definition report_percentiles :: "(real \<Rightarrow> real) \<Rightarrow> histogram \<Rightarrow> bench_counters" where
  "report_percentiles fl hist =
     \<lparr>bc_p50_ns = fl (of_int (sint (percentile fl 50 hist))), bc_p99_ns = fl (of_int (sint (percentile fl 99 hist))),
      bc_p99_9_ns = fl (of_int (sint (percentile fl (fl (999 / 10)) hist))), bc_max_ns = fl (of_int (sint (hg_max hist))),
      bc_min_ns = fl (of_int (sint (hist_min hist))), bc_mean_ns = hist_mean fl hist,
      bc_samples = fl (real (unat (hg_count hist)))\<rparr>"

subsection \<open>The timed loops\<close>

text \<open>Each loop takes the number of rounds left and the number of the round, which gives its two readings.\<close>

fun time_nothing :: "(nat \<Rightarrow> i64) \<Rightarrow> nat \<Rightarrow> nat \<Rightarrow> histogram \<Rightarrow> histogram" where
  "time_nothing now 0 i hist = hist"
| "time_nothing now (Suc n) i hist = time_nothing now n (i + 1) (hist_record (elapsed_ns (now (2 * i)) (now (2 * i + 1))) hist)"

definition bench_measurement_overhead :: "(real \<Rightarrow> real) \<Rightarrow> (nat \<Rightarrow> i64) \<Rightarrow> bench_counters" where
  "bench_measurement_overhead fl now = report_percentiles fl (time_nothing now 100000 0 histogram_init)"

fun time_add_cancel ::
    "'m index_ops \<Rightarrow> (nat \<Rightarrow> i64) \<Rightarrow> order \<Rightarrow> nat \<Rightarrow> nat \<Rightarrow> 'm order_book \<Rightarrow> histogram \<Rightarrow> 'm order_book \<times> histogram" where
  "time_add_cancel H now ord 0 i b hist = (b, hist)"
| "time_add_cancel H now ord (Suc n) i b hist =
     (let t0 = now (2 * i);
          (added, b1) = book_add H b ord;
          (cancelled, b2) = book_cancel H b1 1;
          t1 = now (2 * i + 1)
      in time_add_cancel H now ord n (i + 1) b2 (hist_record (elapsed_ns t0 t1) hist))"

definition bench_order_book_percentiles :: "'m index_ops \<Rightarrow> (real \<Rightarrow> real) \<Rightarrow> (nat \<Rightarrow> i64) \<Rightarrow> bench_counters \<times> 'm order_book" where
  "bench_order_book_percentiles H fl now =
     (let (b, hist) = time_add_cancel H now (make_limit 1 Buy 100 10) 200000 0 (bench_book H) histogram_init
      in (report_percentiles fl hist, b))"

fun time_crossing ::
    "'m index_ops \<Rightarrow> (nat \<Rightarrow> i64) \<Rightarrow> nat \<Rightarrow> nat \<Rightarrow> u64 \<Rightarrow> 'm engine \<Rightarrow> histogram \<Rightarrow> (histogram \<times> 'm engine) option" where
  "time_crossing H now 0 i oid e hist = Some (hist, e)"
| "time_crossing H now (Suc n) i oid e hist =
     (let t0 = now (2 * i)
      in case submit H e (make_limit oid Buy 100 10) [] of
           None \<Rightarrow> None
         | Some (result, e1, fills1) \<Rightarrow>
             (case submit H e1 (make_limit (oid + 1) Sell 100 10) fills1 of
                None \<Rightarrow> None
              | Some (rest, e2, fills2) \<Rightarrow>
                  let t1 = now (2 * i + 1)
                  in time_crossing H now n (i + 1) (oid + 2) e2 (hist_record (elapsed_ns t0 t1) hist)))"

definition bench_matching_engine_percentiles ::
    "'m index_ops \<Rightarrow> (real \<Rightarrow> real) \<Rightarrow> (nat \<Rightarrow> i64) \<Rightarrow> (bench_counters \<times> 'm engine) option" where
  "bench_matching_engine_percentiles H fl now =
     (case submit H (bench_engine H) (make_limit 1 Sell 100 10) [] of
        None \<Rightarrow> None
      | Some (r, e, fills) \<Rightarrow> map_option (apfst (report_percentiles fl)) (time_crossing H now 200000 0 2 e histogram_init))"

subsection \<open>The whole pipeline\<close>

record ('m, 'x, 'g) pipeline_bench =
  pb_pipeline :: "('m, 'x, in_memory_sink) replay_engine"
  pb_gen :: "'g generator"
  pb_clock :: deterministic_clock
  pb_hist :: histogram
  pb_capacity_rejections :: nat

definition pipeline_config :: "(real \<Rightarrow> real) \<Rightarrow> synthetic_config" where
  "pipeline_config fl = \<lparr>sc_seed = 42, sc_symbol = 1, sc_mid_price = 9000, sc_price_spread_ticks = 195,
     sc_min_quantity = 1, sc_max_quantity = 100, sc_market_order_fraction = fl (5 / 100),
     sc_buy_fraction = fl (1 / 2), sc_mean_arrival_rate_per_sec = fl 1000\<rparr>"

definition pipeline_limits :: limits where
  "pipeline_limits = \<lparr>lim_max_order_size = 1000000, lim_max_position = 10000000, lim_max_loss_per_client = - 1000000000000\<rparr>"

definition pipeline_bench_init ::
    "'m index_ops \<Rightarrow> 'x exposure_ops \<Rightarrow> 'g random_ops \<Rightarrow> (real \<Rightarrow> real) \<Rightarrow> ('m, 'x, 'g) pipeline_bench" where
  "pipeline_bench_init H X R fl =
     \<lparr>pb_pipeline = replay_init (engine_init H 4096 300000 1 8800) (risk_engine_init X pipeline_limits)
        (publisher_init \<lparr>ims_buffer = []\<rparr> (2 ^ 16)),
      pb_gen = generator_init R (pipeline_config fl), pb_clock = clock_init 0 1,
      pb_hist = histogram_init, pb_capacity_rejections = 0\<rparr>"

fun pipeline_loop ::
    "'m index_ops \<Rightarrow> 'x exposure_ops \<Rightarrow> 'g random_ops \<Rightarrow> (nat \<Rightarrow> i64) \<Rightarrow> nat \<Rightarrow> nat \<Rightarrow> ('m, 'x, 'g) pipeline_bench \<Rightarrow>
       ('m, 'x, 'g) pipeline_bench option" where
  "pipeline_loop H X R now 0 i s = Some s"
| "pipeline_loop H X R now (Suc n) i s =
     (let (msg, gen) = next_order R (of_nat (i + 1)) (of_nat (1 + i mod 20)) (pb_gen s);
          (ts, clock) = clock_tick (pb_clock s);
          t0 = now (2 * i)
      in case process_new_order H X ims_write (pb_pipeline s) msg ts of
           None \<Rightarrow> None
         | Some pipeline \<Rightarrow>
             let t1 = now (2 * i + 1);
                 near = (300000 - 1 \<le> ob_order_count (me_book (rp_matching pipeline)))
             in pipeline_loop H X R now n (i + 1)
                  \<lparr>pb_pipeline = pipeline, pb_gen = gen, pb_clock = clock, pb_hist = hist_record (elapsed_ns t0 t1) (pb_hist s),
                   pb_capacity_rejections = pb_capacity_rejections s + (if near then 1 else 0)\<rparr>)"

record pipeline_report =
  pr_percentiles :: bench_counters
  pr_resting_at_end :: real
  pr_near_capacity_events :: real

definition bench_end_to_end_pipeline_percentiles ::
    "'m index_ops \<Rightarrow> 'x exposure_ops \<Rightarrow> 'g random_ops \<Rightarrow> (real \<Rightarrow> real) \<Rightarrow> (nat \<Rightarrow> i64) \<Rightarrow> pipeline_report option" where
  "bench_end_to_end_pipeline_percentiles H X R fl now =
     (case pipeline_loop H X R now 500000 0 (pipeline_bench_init H X R fl) of
        None \<Rightarrow> None
      | Some s \<Rightarrow> Some \<lparr>pr_percentiles = report_percentiles fl (pb_hist s),
          pr_resting_at_end = fl (real (ob_order_count (me_book (rp_matching (pb_pipeline s))))),
          pr_near_capacity_events = fl (real (pb_capacity_rejections s))\<rparr>)"

subsection \<open>What the reports say\<close>

text \<open>The counters of a benchmark that recorded \<open>ns\<close>.\<close>

definition reports :: "(real \<Rightarrow> real) \<Rightarrow> i64 list \<Rightarrow> bench_counters \<Rightarrow> bool" where
  "reports fl ns c \<longleftrightarrow> bc_samples c = real (length ns) \<and>
     0 \<le> bc_p50_ns c \<and> bc_p50_ns c \<le> bc_p99_ns c \<and> bc_p99_ns c \<le> bc_p99_9_ns c \<and> bc_p99_9_ns c \<le> bc_max_ns c \<and>
     bc_min_ns c = fl (of_int (Min (sint ` clamp ` set ns))) \<and> bc_max_ns c = fl (of_int (Max (sint ` clamp ` set ns)))"

definition samples :: "(nat \<Rightarrow> i64) \<Rightarrow> nat \<Rightarrow> nat \<Rightarrow> i64 list" where
  "samples now i n = map (\<lambda>j. elapsed_ns (now (2 * j)) (now (2 * j + 1))) [i..<i + n]"

lemma samples_Suc: "samples now i (Suc n) = elapsed_ns (now (2 * i)) (now (2 * i + 1)) # samples now (i + 1) n"
  by (simp add: samples_def upt_conv_Cons del: upt_Suc)

lemma samples_length: "length (samples now i n) = n"
  by (simp add: samples_def)

lemma report_percentiles_ok:
  assumes fl: "ieee fl" and ns: "ns \<noteq> []" "length ns \<le> 2 ^ 52"
  shows "reports fl ns (report_percentiles fl (recorded ns))"
proof -
  have len: "length ns < 2 ^ 64" using ns(2) by simp
  note ext = recorded_extremes [OF ns(1) len] and rnd = ieeeD [OF fl]
  have p: "99 \<le> fl (999 / 10)" "fl (999 / 10) \<le> 100"
    using rnd(1) [of 99 "999 / 10"] rnd(1) [of "999 / 10" 100] rnd(3) [of 99] rnd(3) [of 100] by simp_all
  have le: "fl (of_int a) \<le> fl (of_int b)" if "a \<le> b" for a b :: int using that by (intro rnd(1)) simp
  have "hg_count (recorded ns) = of_nat (length ns)" using recorded_rep [OF len] by (simp add: hist_rep_def)
  then have "unat (hg_count (recorded ns)) = length ns" using len by (simp add: unat_of_nat)
  moreover have min: "sint (hg_min (recorded ns)) = Min (sint ` clamp ` set ns)"
    using ext(1,3) by (intro Min_eqI [symmetric]) auto
  moreover have max: "sint (hg_max (recorded ns)) = Max (sint ` clamp ` set ns)"
    using ext(2,3) by (intro Max_eqI [symmetric]) auto
  moreover note le [OF percentile_mono(1) [OF fl _ _ _ ns, of 50 99]] le [OF percentile_mono(1) [OF fl _ p ns]]
    le [OF percentile_mono(2) [OF fl _ p ns]] le [OF percentile_mono(3) [OF fl _ _ _ ns, of 50 50]]
  ultimately show ?thesis
    unfolding reports_def report_percentiles_def bench_counters.simps hist_min_def using ext(4) rnd(2,3) ns(2)
    by (simp del: of_int_sint)
qed

lemma time_nothing_ok: "time_nothing now n i hist = fold hist_record (samples now i n) hist"
  by (induction n arbitrary: i hist) (simp_all add: samples_Suc, simp add: samples_def)

lemma time_add_cancel_ok:
  assumes H: "hash_map_spec H"
  shows "holds_orders H 0 b \<Longrightarrow> \<exists>b'. time_add_cancel H now (make_order 1 Buy 100 10) n i b hist =
     (b', fold hist_record (samples now i n) hist) \<and> holds_orders H 0 b'"
proof (induction n arbitrary: i b hist)
  case (Suc n)
  obtain added ba where add: "book_add H b (make_order 1 Buy 100 10) = (added, ba)" by (rule prod.exhaust)
  obtain cancelled b1 where cancel: "book_cancel H ba 1 = (cancelled, b1)" by (rule prod.exhaust)
  have "holds_orders H 0 b1" using add_cancel_rounds_ok [OF H Suc.prems, of "Suc 0"] by (simp add: add cancel)
  from Suc.IH [OF this] show ?case by (simp add: samples_Suc add cancel)
qed (simp add: samples_def)

lemma time_crossing_ok:
  "holds_sells H [k] e \<Longrightarrow> \<exists>e' k'. time_crossing H now n i oid e hist = Some (fold hist_record (samples now i n) hist, e') \<and>
     holds_sells H [k'] e'"
proof (induction n arbitrary: i oid e k hist)
  case 0
  then show ?case by (intro exI [of _ e] exI [of _ k]) (simp add: samples_def)
next
  case (Suc n)
  obtain r e1 fills where s: "submit H e (make_limit oid Buy 100 10) [] = Some (r, e1, fills)"
    "\<forall>out. \<exists>r2 e2. submit H e1 (make_limit (oid + 1) Sell 100 10) out = Some (r2, e2, out) \<and> holds_sells H [oid + 1] e2"
    by (rule cross_and_rest [OF Suc.prems, of oid])
  then obtain r2 e2 where r: "submit H e1 (make_limit (oid + 1) Sell 100 10) fills = Some (r2, e2, fills)" "holds_sells H [oid + 1] e2"
    by blast
  from Suc.IH [OF r(2)] show ?case by (simp add: samples_Suc s(1) r(1))
qed

lemma pipeline_prices_on_ladder:
  assumes "uniform_spec R" "next_order R oid client g = (m, g')" "sg_config g = pipeline_config fl"
    "ob_num_levels b = 4096" "ob_base_price b = 8800"
  shows "\<exists>j. index_of b (nom_price m) = Some j" "sg_config g' = pipeline_config fl"
proof -
  have "sint (9000 - 195 :: i64) = 8805" "sint (9000 + 195 :: i64) = 9195" by simp_all
  then have p: "8805 \<le> sint (nom_price m)" "sint (nom_price m) \<le> 9195" "sg_config g' = pipeline_config fl"
    using next_order_range [OF assms(1,2)] assms(3) by (simp_all add: pipeline_config_def)
  have "sint (nom_price m - 8800) = sint (nom_price m) - 8800" using p by (subst sint_minus_i64) simp_all
  then have "0 \<le> sint (nom_price m - 8800)" "sint (nom_price m - 8800) < 4096" using p by simp_all
  then show "\<exists>j. index_of b (nom_price m) = Some j"
    using unat_sint(1) [of "nom_price m - 8800"] assms(4,5) by (simp add: index_of_def Let_def)
  show "sg_config g' = pipeline_config fl" by (rule p(3))
qed

text \<open>The orders the loop draws from round \<open>i\<close> on, and the session they make.\<close>

definition pipeline_ids :: "nat \<Rightarrow> nat \<Rightarrow> (u64 \<times> u32) list" where
  "pipeline_ids i n = map (\<lambda>j. (of_nat (j + 1), of_nat (1 + j mod 20))) [i..<i + n]"

definition pipeline_session :: "'g random_ops \<Rightarrow> nat \<Rightarrow> nat \<Rightarrow> 'g generator \<Rightarrow> (client_message \<times> nanos) list" where
  "pipeline_session R i n g = map2 (\<lambda>m j. (ClientNew m, of_nat j)) (fst (generate R (pipeline_ids i n) g)) [i..<i + n]"

lemma pipeline_ids_Suc: "pipeline_ids i (Suc n) = (of_nat (i + 1), of_nat (1 + i mod 20)) # pipeline_ids (i + 1) n"
  by (simp add: pipeline_ids_def upt_conv_Cons del: upt_Suc)

lemma pipeline_session_Suc:
  assumes "next_order R (of_nat (i + 1)) (of_nat (1 + i mod 20)) g = (m, g')"
  shows "pipeline_session R i (Suc n) g = (ClientNew m, of_nat i) # pipeline_session R (i + 1) n g'"
  using assms by (simp add: pipeline_session_def pipeline_ids_Suc upt_conv_Cons split: prod.split del: upt_Suc of_nat_add of_nat_Suc)

text \<open>The states of a session that leave at most one free order slot.\<close>

fun near_capacity ::
    "'m index_ops \<Rightarrow> 'x exposure_ops \<Rightarrow> ('m, 'x, in_memory_sink) replay_engine \<Rightarrow> (client_message \<times> nanos) list \<Rightarrow> nat" where
  "near_capacity H X r [] = 0"
| "near_capacity H X r ((m, ts) # ms) =
     (case process_message H X ims_write r m ts of
        None \<Rightarrow> 0
      | Some r1 \<Rightarrow> (if 299999 \<le> ob_order_count (me_book (rp_matching r1)) then 1 else 0) + near_capacity H X r1 ms)"

lemma pipeline_loop_ok:
  "engine_inv H (rp_matching (pb_pipeline s)) \<Longrightarrow> pb_clock s = clock_init (of_nat i) 1 \<Longrightarrow>
    \<exists>s'. pipeline_loop H X R now n i s = Some s' \<and>
      run_session H X ims_write (pb_pipeline s) (pipeline_session R i n (pb_gen s)) = Some (pb_pipeline s') \<and>
      pb_hist s' = fold hist_record (samples now i n) (pb_hist s) \<and>
      pb_capacity_rejections s' = pb_capacity_rejections s + near_capacity H X (pb_pipeline s) (pipeline_session R i n (pb_gen s))"
proof (induction n arbitrary: i s)
  case 0
  then show ?case by (simp add: pipeline_session_def pipeline_ids_def samples_def)
next
  case (Suc n)
  obtain m g where m: "next_order R (of_nat (i + 1)) (of_nat (1 + i mod 20)) (pb_gen s) = (m, g)" by (rule prod.exhaust)
  obtain r where r: "process_new_order H X ims_write (pb_pipeline s) m (of_nat i) = Some r" "engine_inv H (rp_matching r)"
    using memory_sink.process_message_spec [OF Suc.prems(1), of X "ClientNew m" "of_nat i"] by auto
  let ?s = "\<lparr>pb_pipeline = r, pb_gen = g, pb_clock = clock_init (of_nat (i + 1)) 1,
    pb_hist = hist_record (elapsed_ns (now (2 * i)) (now (2 * i + 1))) (pb_hist s),
    pb_capacity_rejections = pb_capacity_rejections s + (if 300000 - 1 \<le> ob_order_count (me_book (rp_matching r)) then 1 else 0)\<rparr>"
  have step: "pipeline_loop H X R now (Suc n) i s = pipeline_loop H X R now n (i + 1) ?s"
    using m r(1) Suc.prems(2) by (simp add: clock_tick_def clock_init_def Let_def add.commute)
  obtain s' where "pipeline_loop H X R now n (i + 1) ?s = Some s'"
    "run_session H X ims_write r (pipeline_session R (i + 1) n g) = Some (pb_pipeline s')"
    "pb_hist s' = fold hist_record (samples now (i + 1) n) (pb_hist ?s)"
    "pb_capacity_rejections s' = pb_capacity_rejections ?s + near_capacity H X r (pipeline_session R (i + 1) n g)"
    using Suc.IH [of ?s "i + 1"] r(2) by auto
  then show ?case using step r(1) by (simp add: pipeline_session_Suc [OF m] samples_Suc del: pipeline_loop.simps)
qed

lemma generated_on_ladder:
  assumes "uniform_spec R" "ob_num_levels b = 4096" "ob_base_price b = 8800"
  shows "sg_config g = pipeline_config fl \<Longrightarrow> \<forall>m \<in> set (fst (generate R ids g)). \<exists>j. index_of b (nom_price m) = Some j"
proof (induction ids arbitrary: g)
  case (Cons x ids)
  obtain oid client where x: "x = (oid, client)" by (rule prod.exhaust)
  obtain m g' where m: "next_order R oid client g = (m, g')" by (rule prod.exhaust)
  note l = pipeline_prices_on_ladder [OF assms(1) m Cons.prems assms(2,3)]
  show ?case using l(1) Cons.IH [OF l(2)] by (auto simp: x m split: prod.split)
qed simp

lemma samples_report:
  assumes "ieee fl" "0 < n" "n \<le> 2 ^ 52"
  shows "reports fl (samples now 0 n) (report_percentiles fl (fold hist_record (samples now 0 n) histogram_init))"
  using report_percentiles_ok [OF assms(1), of "samples now 0 n"] assms(2,3) samples_length [of now 0 n] unfolding recorded_def
  by (metis length_0_conv less_irrefl)

lemma book_report:
  assumes "hash_map_spec H" "ieee fl"
  shows "\<exists>c b. bench_order_book_percentiles H fl now = (c, b) \<and> reports fl (samples now 0 200000) c \<and> ob_order_count b = 0"
proof -
  have same: "make_limit 1 Buy 100 10 = make_order 1 Buy 100 10" by (simp add: make_limit_def make_order_def)
  obtain b where b: "time_add_cancel H now (make_order 1 Buy 100 10) 200000 0 (bench_book H) histogram_init =
      (b, fold hist_record (samples now 0 200000) histogram_init)" "holds_orders H 0 b"
    using time_add_cancel_ok [OF assms(1) bench_book_empty [OF assms(1)]] by blast
  then have "ob_order_count b = 0" using order_count_priority [of H b] by (simp add: holds_orders_def)
  then show ?thesis
    using samples_report [OF assms(2), of 200000 now] by (simp add: bench_order_book_percentiles_def same b(1))
qed

lemma matching_report:
  assumes "hash_map_spec H" "ieee fl"
  shows "\<exists>c e. bench_matching_engine_percentiles H fl now = Some (c, e) \<and> reports fl (samples now 0 200000) c \<and>
    ob_order_count (me_book e) = 1"
proof -
  obtain r0 e0 where e0: "submit H (bench_engine H) (make_limit 1 Sell 100 10) [] = Some (r0, e0, [])" "holds_sells H [1] e0"
    using rest_sell [OF bench_engine_empty [OF assms(1)], of 1 "[]"] by auto
  obtain e k where e: "time_crossing H now 200000 0 2 e0 histogram_init =
      Some (fold hist_record (samples now 0 200000) histogram_init, e)" "holds_sells H [k] e"
    using time_crossing_ok [OF e0(2)] by blast
  then have "ob_order_count (me_book e) = 1"
    using order_count_priority [of H "me_book e"] by (simp add: holds_sells_def engine_inv_def sell_queue_def)
  then show ?thesis
    using samples_report [OF assms(2), of 200000 now] by (simp add: bench_matching_engine_percentiles_def e0(1) e(1))
qed

lemma pipeline_report_ok:
  fixes H :: "'m index_ops" and X :: "'x exposure_ops" and R :: "'g random_ops"
  assumes "hash_map_spec H" "ieee fl"
  defines "s0 \<equiv> pipeline_bench_init H X R fl"
  defines "session \<equiv> pipeline_session R 0 500000 (pb_gen s0)"
  shows "\<exists>c r. bench_end_to_end_pipeline_percentiles H X R fl now = Some c \<and> reports fl (samples now 0 500000) (pr_percentiles c) \<and>
    run_session H X ims_write (pb_pipeline s0) session = Some r \<and>
    pr_resting_at_end c = fl (real (ob_order_count (me_book (rp_matching r)))) \<and>
    pr_near_capacity_events c = fl (real (near_capacity H X (pb_pipeline s0) session))"
proof -
  have inv: "engine_inv H (engine_init H 4096 300000 1 8800)"
    by (intro engine_init_inv [OF assms(1)]) (simp_all add: kNone_def)
  obtain s where s: "pipeline_loop H X R now 500000 0 s0 = Some s"
    "run_session H X ims_write (pb_pipeline s0) session = Some (pb_pipeline s)"
    "pb_hist s = fold hist_record (samples now 0 500000) histogram_init"
    "pb_capacity_rejections s = near_capacity H X (pb_pipeline s0) session"
    using pipeline_loop_ok [of H s0 0 X R now 500000] inv
    by (auto simp: s0_def session_def pipeline_bench_init_def replay_init_def)
  have "reports fl (samples now 0 500000) (report_percentiles fl (pb_hist s))"
    unfolding s(3) by (rule samples_report [OF assms(2)]) simp_all
  then show ?thesis
    using s(1,2,4) unfolding bench_end_to_end_pipeline_percentiles_def s0_def by (simp del: pipeline_loop.simps)
qed

lemma pipeline_orders_on_ladder:
  fixes H :: "'m index_ops" and X :: "'x exposure_ops" and R :: "'g random_ops" and fl :: "real \<Rightarrow> real"
  assumes "uniform_spec R"
  defines "s0 \<equiv> pipeline_bench_init H X R fl"
  shows "\<forall>m \<in> set (fst (generate R (pipeline_ids 0 500000) (pb_gen s0))).
    \<exists>j. index_of (me_book (rp_matching (pb_pipeline s0))) (nom_price m) = Some j"
  by (rule generated_on_ladder [OF assms(1)])
    (simp_all add: s0_def pipeline_bench_init_def replay_init_def engine_init_def order_book_init_def generator_init_def)

text \<open>C34: the latency reports.  Each timed benchmark runs to its end whatever the clock reads, and reports the
  number of its timed calls, the exact minimum and maximum of the times, and percentiles in order: p50 is at most
  p99, p99 at most p99.9, p99.9 at most the maximum.  The order-book benchmark leaves an empty book, and the
  matching benchmark a single resting sell order.  The pipeline benchmark processes exactly the session of the
  500000 generated orders, all on the price ladder, and reports the orders resting at its end and how often the book
  had at most one free slot.\<close>

theorem latency_reports_ok:
  fixes H :: "'m index_ops" and X :: "'x exposure_ops" and R :: "'g random_ops"
  assumes "hash_map_spec H" "uniform_spec R" "ieee fl"
  defines "s0 \<equiv> pipeline_bench_init H X R fl"
  defines "session \<equiv> pipeline_session R 0 500000 (pb_gen s0)"
  shows "reports fl (samples now 0 100000) (bench_measurement_overhead fl now) \<and>
    (\<exists>c b. bench_order_book_percentiles H fl now = (c, b) \<and> reports fl (samples now 0 200000) c \<and> ob_order_count b = 0) \<and>
    (\<exists>c e. bench_matching_engine_percentiles H fl now = Some (c, e) \<and> reports fl (samples now 0 200000) c \<and>
      ob_order_count (me_book e) = 1) \<and>
    (\<exists>c r. bench_end_to_end_pipeline_percentiles H X R fl now = Some c \<and> reports fl (samples now 0 500000) (pr_percentiles c) \<and>
      run_session H X ims_write (pb_pipeline s0) session = Some r \<and>
      pr_resting_at_end c = fl (real (ob_order_count (me_book (rp_matching r)))) \<and>
      pr_near_capacity_events c = fl (real (near_capacity H X (pb_pipeline s0) session))) \<and>
    (\<forall>m \<in> set (fst (generate R (pipeline_ids 0 500000) (pb_gen s0))).
      \<exists>j. index_of (me_book (rp_matching (pb_pipeline s0))) (nom_price m) = Some j)"
  unfolding s0_def session_def
proof (intro conjI)
  show "reports fl (samples now 0 100000) (bench_measurement_overhead fl now)"
    unfolding bench_measurement_overhead_def time_nothing_ok by (rule samples_report [OF assms(3)]) simp_all
qed (rule book_report [OF assms(1,3)] matching_report [OF assms(1,3)]
    pipeline_report_ok [OF assms(1,3)] pipeline_orders_on_ladder [OF assms(2)])+

theorem latency_reports_ok_witness:
  "reports (\<lambda>x. x) (samples (\<lambda>k. of_nat (k * k)) 0 100000) (bench_measurement_overhead (\<lambda>x. x) (\<lambda>k. of_nat (k * k))) \<and>
   (\<exists>c. bench_end_to_end_pipeline_percentiles (fun_map :: demo_map index_ops) (fun_map :: (u64 \<rightharpoonup> client_exposure) exposure_ops) lowest_random
      (\<lambda>x. x) (\<lambda>k. of_nat (k * k)) = Some c \<and> bc_samples (pr_percentiles c) = 500000)"
  using latency_reports_ok [OF fun_map_spec lowest_random_uniform ieee_exact, where now = "\<lambda>k. of_nat (k * k)"]
  by (auto simp: reports_def samples_length)

end
