(* ===== verification/Bench_Protocol.thy ===== *)
theory Bench_Protocol
  imports Feed_Properties
begin

text \<open>
  \<open>bench/bench_protocol.cpp\<close>: the workloads on the codec.  A benchmark of \<open>n\<close> iterations returns what its calls
  returned, and its buffer if the iterations write to it.
\<close>

definition bench_order_message :: new_order_message where
  "bench_order_message = \<lparr>nom_order_id = 1, nom_price = 10000, nom_quantity = 100, nom_client_id = 1, nom_symbol_id = 1,
     nom_side = Buy, nom_order_type = Limit, nom_time_in_force = Day\<rparr>"

definition bench_report_message :: execution_report_message where
  "bench_report_message = \<lparr>erm_order_id = 1, erm_match_id = 1, erm_price = 10000, erm_last_quantity = 10,
     erm_leaves_quantity = 90, erm_client_id = 1, erm_symbol_id = 1, erm_exec_type = ExecPartialFill, erm_reject_reason = NoReject\<rparr>"

text \<open>Encoding \<open>n\<close> times into the same buffer, and after each the decoding of what was written.\<close>

fun encode_rounds :: "'p layout \<Rightarrow> 'p \<Rightarrow> nat \<Rightarrow> u8 list \<Rightarrow> nat list \<times> u8 list" where
  "encode_rounds L m 0 buf = ([], buf)"
| "encode_rounds L m (Suc n) buf =
     (let (written, buf1) = encode L buf m; (rest, buf2) = encode_rounds L m n buf1 in (written # rest, buf2))"

fun round_trips :: "'p layout \<Rightarrow> 'p \<Rightarrow> nat \<Rightarrow> u8 list \<Rightarrow> 'p decode_result list \<times> u8 list" where
  "round_trips L m 0 buf = ([], buf)"
| "round_trips L m (Suc n) buf =
     (let (written, buf1) = encode L buf m; (rest, buf2) = round_trips L m n buf1
      in (decode L (take written buf1) # rest, buf2))"

definition bench_encode_new_order :: "nat \<Rightarrow> nat list \<times> u8 list" where
  "bench_encode_new_order n = encode_rounds new_order_layout bench_order_message n (replicate 128 0)"

definition bench_decode_new_order :: "nat \<Rightarrow> new_order_message decode_result list" where
  "bench_decode_new_order n =
     (let (written, buf) = encode new_order_layout (replicate 128 0) bench_order_message
      in replicate n (decode new_order_layout (take written buf)))"

definition bench_encode_decode_round_trip :: "nat \<Rightarrow> execution_report_message decode_result list \<times> u8 list" where
  "bench_encode_decode_round_trip n = round_trips execution_report_layout bench_report_message n (replicate 128 0)"

context wire_format
begin

lemma encode_again:
  assumes "4 + l_size L \<le> length buf" "encode L buf m = (n, buf1)"
  shows "n = 4 + l_size L" "length buf1 = length buf" "decode L (take n buf1) = \<lparr>dr_status = DecOk, dr_payload = Some m, dr_consumed = n\<rparr>"
  using faithful [of m buf "[]"] assms by (auto simp: encodes_faithfully_def)

lemma encode_rounds_ok:
  "4 + l_size L \<le> length buf \<Longrightarrow> \<exists>buf'. encode_rounds L m n buf = (replicate n (4 + l_size L), buf') \<and> length buf' = length buf"
proof (induction n arbitrary: buf)
  case (Suc n)
  obtain w buf1 where e: "encode L buf m = (w, buf1)" by (rule prod.exhaust)
  note again = encode_again [OF Suc.prems e]
  show ?case using Suc.IH [of buf1] Suc.prems again by (auto simp: e)
qed simp

lemma round_trips_ok:
  "4 + l_size L \<le> length buf \<Longrightarrow> \<exists>buf'. round_trips L m n buf =
     (replicate n \<lparr>dr_status = DecOk, dr_payload = Some m, dr_consumed = 4 + l_size L\<rparr>, buf') \<and> length buf' = length buf"
proof (induction n arbitrary: buf)
  case (Suc n)
  obtain w buf1 where e: "encode L buf m = (w, buf1)" by (rule prod.exhaust)
  note again = encode_again [OF Suc.prems e]
  show ?case using Suc.IH [of buf1] Suc.prems again by (auto simp: e)
qed simp

end

lemma bench_sizes: "l_size new_order_layout = 40" "l_size execution_report_layout = 56"
  by (simp_all add: layout_defs)

text \<open>The benchmarks of the codec measure calls that succeed: every encoding writes the whole frame into the reused
  buffer, and every decoding returns the message that was encoded.\<close>

theorem protocol_benchmarks_ok:
  "(\<exists>buf. bench_encode_new_order n = (replicate n 44, buf) \<and> length buf = 128) \<and>
   bench_decode_new_order n = replicate n \<lparr>dr_status = DecOk, dr_payload = Some bench_order_message, dr_consumed = 44\<rparr> \<and>
   (\<exists>buf. bench_encode_decode_round_trip n =
      (replicate n \<lparr>dr_status = DecOk, dr_payload = Some bench_report_message, dr_consumed = 60\<rparr>, buf) \<and> length buf = 128)"
proof (intro conjI)
  show "\<exists>buf. bench_encode_new_order n = (replicate n 44, buf) \<and> length buf = 128"
    using new_order_format.encode_rounds_ok [of "replicate 128 0" bench_order_message n]
    by (simp add: bench_encode_new_order_def bench_sizes)
  obtain w buf where e: "encode new_order_layout (replicate 128 0) bench_order_message = (w, buf)" by (rule prod.exhaust)
  show "bench_decode_new_order n = replicate n \<lparr>dr_status = DecOk, dr_payload = Some bench_order_message, dr_consumed = 44\<rparr>"
    using new_order_format.encode_again [OF _ e] by (simp add: bench_decode_new_order_def e bench_sizes)
  show "\<exists>buf. bench_encode_decode_round_trip n =
      (replicate n \<lparr>dr_status = DecOk, dr_payload = Some bench_report_message, dr_consumed = 60\<rparr>, buf) \<and> length buf = 128"
    using execution_report_format.round_trips_ok [of "replicate 128 0" bench_report_message n]
    by (simp add: bench_encode_decode_round_trip_def bench_sizes)
qed

end
