(* ===== verification/Bench_Threads.thy ===== *)
theory Bench_Threads
  imports Spsc_Threads
begin

text \<open>
  \<open>run_spsc_throughput\<close> of \<open>bench/bench_spsc_ring_buffer.cpp\<close>: a producer that pushes numbered messages, each
  until the push succeeds, and a consumer that pops until it has them all.  The two threads take the steps of
  \<open>Spsc_Threads\<close>, with the values an acquire load may return, in any order; the programs decide only which
  calls they make.
\<close>

subsection \<open>The harness\<close>

record bench_msg =
  msg_seq :: u64
  msg_payload :: "u64 list"

definition spsc_msg :: "nat \<Rightarrow> bench_msg" where
  "spsc_msg i = \<lparr>msg_seq = of_nat i, msg_payload = [of_nat i, of_nat i, of_nat i]\<rparr>"

definition kOpsPerIteration :: nat where "kOpsPerIteration = 2 ^ 20"

text \<open>The work the consumer does on a message.\<close>

definition simulate_work :: "nat \<Rightarrow> bench_msg \<Rightarrow> u64 \<Rightarrow> u64" where
  "simulate_work work out sink = fold (\<lambda>w sink. sink + (msg_seq out * 2654435761 + of_nat w)) [0..<work] sink"

record spsc_bench =
  sb_system :: "bench_msg spsc_system"
  sb_start :: bool
  sb_i :: nat
  sb_received :: nat
  sb_sink :: u64

definition spsc_bench_init :: "nat \<Rightarrow> spsc_bench" where
  "spsc_bench_init capacity = \<lparr>sb_system = spsc_system_init capacity \<lparr>msg_seq = 0, msg_payload = [0, 0, 0]\<rparr>,
     sb_start = False, sb_i = 0, sb_received = 0, sb_sink = 0\<rparr>"

text \<open>The item of the push a producer is in.\<close>

fun pushing :: "'a producer_point \<Rightarrow> 'a option" where
  "pushing P_Idle = None"
| "pushing (P_Refresh x) = Some x"
| "pushing (P_Write x) = Some x"
| "pushing (P_Publish x) = Some x"

inductive spsc_bench_step :: "nat \<Rightarrow> nat \<Rightarrow> spsc_bench \<Rightarrow> bench_msg ring_event list \<Rightarrow> spsc_bench \<Rightarrow> bool"
  for ops work :: nat where
  bench_yield: "\<not> sb_start h \<Longrightarrow> spsc_bench_step ops work h [] h"
| bench_start: "\<not> sb_start h \<Longrightarrow> spsc_bench_step ops work h [] (h\<lparr>sb_start := True\<rparr>)"
| bench_producer: "sb_start h \<Longrightarrow> spsc_step (sb_system h) ev s \<Longrightarrow> ss_consumer s = ss_consumer (sb_system h) \<Longrightarrow>
    ss_producer (sb_system h) = P_Idle \<longrightarrow> sb_i h < ops \<and> pushing (ss_producer s) = Some (spsc_msg (sb_i h)) \<Longrightarrow>
    spsc_bench_step ops work h ev (h\<lparr>sb_system := s, sb_i := sb_i h + length (pushed ev)\<rparr>)"
| bench_consumer: "sb_start h \<Longrightarrow> spsc_step (sb_system h) ev s \<Longrightarrow> ss_producer s = ss_producer (sb_system h) \<Longrightarrow>
    ss_consumer (sb_system h) = C_Idle \<longrightarrow> sb_received h < ops \<Longrightarrow>
    spsc_bench_step ops work h ev (h\<lparr>sb_system := s, sb_received := sb_received h + length (popped ev),
      sb_sink := fold (simulate_work work) (popped ev) (sb_sink h)\<rparr>)"

inductive spsc_bench_run :: "nat \<Rightarrow> nat \<Rightarrow> spsc_bench \<Rightarrow> bench_msg ring_event list \<Rightarrow> spsc_bench \<Rightarrow> bool"
  for ops work :: nat where
  bench_nil: "spsc_bench_run ops work h [] h"
| bench_more: "spsc_bench_run ops work h evs h1 \<Longrightarrow> spsc_bench_step ops work h1 ev h2 \<Longrightarrow> spsc_bench_run ops work h (evs @ ev) h2"

text \<open>The producer has been joined and the loop of the consumer has ended.\<close>

definition bench_finished :: "nat \<Rightarrow> spsc_bench \<Rightarrow> bool" where
  "bench_finished ops h \<longleftrightarrow> sb_i h = ops \<and> ss_producer (sb_system h) = P_Idle \<and> sb_received h = ops \<and> ss_consumer (sb_system h) = C_Idle"

subsection \<open>Its invariant\<close>

definition bench_ok :: "nat \<Rightarrow> spsc_bench \<Rightarrow> bool" where
  "bench_ok ops h \<longleftrightarrow> system_ok (sb_system h) \<and>
     spsc_contents (ss_ring (sb_system h)) = map spsc_msg [sb_received h..<sb_i h] \<and> sb_received h \<le> sb_i h \<and> sb_i h \<le> ops \<and>
     (ss_producer (sb_system h) \<noteq> P_Idle \<longrightarrow> sb_start h \<and> sb_i h < ops \<and> pushing (ss_producer (sb_system h)) = Some (spsc_msg (sb_i h))) \<and>
     (ss_consumer (sb_system h) \<noteq> C_Idle \<longrightarrow> sb_start h \<and> sb_received h < ops)"

text \<open>What a step of one thread does to its call.\<close>

lemma producer_step_item:
  assumes "spsc_step s ev s'" "ss_consumer s' = ss_consumer s"
  shows "popped ev = [] \<and> (if ss_producer s' = P_Idle then pushed ev = [] \<or> (\<exists>x. pushing (ss_producer s) = Some x \<and> pushed ev = [x])
    else pushed ev = [] \<and> (ss_producer s \<noteq> P_Idle \<longrightarrow> pushing (ss_producer s') = pushing (ss_producer s)))"
  using assms by (induction rule: spsc_step.induct) (auto split: if_splits)

lemma consumer_step_item:
  assumes "spsc_step s ev s'" "ss_producer s' = ss_producer s"
  shows "pushed ev = [] \<and> (if ss_consumer s' = C_Idle then length (popped ev) \<le> 1 \<and> ss_consumer s \<noteq> C_Idle else popped ev = [])"
  using assms by (induction rule: spsc_step.induct) (auto split: if_splits)

lemma bench_step_ok:
  assumes "spsc_bench_step ops work h ev h'" "bench_ok ops h"
  shows "bench_ok ops h' \<and> pushed ev = map spsc_msg [sb_i h..<sb_i h'] \<and> sb_i h \<le> sb_i h' \<and>
    popped ev = map spsc_msg [sb_received h..<sb_received h'] \<and> sb_received h \<le> sb_received h' \<and>
    sb_sink h' = fold (simulate_work work) (popped ev) (sb_sink h)"
  using assms
proof (induction rule: spsc_bench_step.induct)
  case (bench_producer h ev s)
  have ok: "system_ok (sb_system h)" using bench_producer.prems by (simp add: bench_ok_def)
  note st = spsc_step_ok [OF bench_producer.hyps(2) ok] and item = producer_step_item [OF bench_producer.hyps(2,3)]
  have "pushed ev = [] \<or> pushed ev = [spsc_msg (sb_i h)] \<and> sb_i h < ops \<and> ss_producer s = P_Idle"
    using item bench_producer.prems by (auto simp: bench_ok_def split: if_splits)
  then show ?case
    using bench_producer st item by (auto simp: bench_ok_def split: if_splits)
next
  case (bench_consumer h ev s)
  have ok: "system_ok (sb_system h)" using bench_consumer.prems by (simp add: bench_ok_def)
  note st = spsc_step_ok [OF bench_consumer.hyps(2) ok] and item = consumer_step_item [OF bench_consumer.hyps(2,3)]
  let ?xs = "map spsc_msg [sb_received h..<sb_i h]"
  have split: "?xs = popped ev @ spsc_contents (ss_ring s)" using st item bench_consumer.prems by (simp add: bench_ok_def)
  have "length (popped ev) \<le> 1" using item by (auto split: if_splits)
  then consider "popped ev = []" | x where "popped ev = [x]" by (cases "popped ev") auto
  then show ?case
  proof cases
    case 1
    then show ?thesis using bench_consumer split st item by (auto simp: bench_ok_def split: if_splits)
  next
    case 2
    with split have lt: "sb_received h < sb_i h" by (cases "sb_received h < sb_i h") auto
    with split 2 have "x = spsc_msg (sb_received h)" "spsc_contents (ss_ring s) = map spsc_msg [Suc (sb_received h)..<sb_i h]"
      by (simp_all add: upt_conv_Cons)
    then show ?thesis using bench_consumer 2 lt st item by (auto simp: bench_ok_def split: if_splits)
  qed
qed (simp_all add: bench_ok_def)

lemma bench_run_ok:
  assumes "spsc_bench_run ops work h evs h'" "bench_ok ops h"
  shows "bench_ok ops h' \<and> pushed evs = map spsc_msg [sb_i h..<sb_i h'] \<and> sb_i h \<le> sb_i h' \<and>
    popped evs = map spsc_msg [sb_received h..<sb_received h'] \<and> sb_received h \<le> sb_received h' \<and>
    sb_sink h' = fold (simulate_work work) (popped evs) (sb_sink h)"
  using assms
proof (induction rule: spsc_bench_run.induct)
  case (bench_more h evs h1 ev h2)
  note ih = bench_more.IH [OF bench_more.prems]
  note st = bench_step_ok [OF bench_more.hyps(2) conjunct1 [OF ih]]
  have "[sb_i h..<sb_i h2] = [sb_i h..<sb_i h1] @ [sb_i h1..<sb_i h2]"
    "[sb_received h..<sb_received h2] = [sb_received h..<sb_received h1] @ [sb_received h1..<sb_received h2]"
    using ih st upt_add_eq_append [of "sb_i h" "sb_i h1" "sb_i h2 - sb_i h1"]
      upt_add_eq_append [of "sb_received h" "sb_received h1" "sb_received h2 - sb_received h1"] by simp_all
  with ih st show ?case by simp
qed simp

lemma bench_init_ok:
  assumes "capacity_ok c"
  shows "bench_ok ops (spsc_bench_init c)"
  using spsc_system_init_ok [OF assms, of "\<lparr>msg_seq = 0, msg_payload = [0, 0, 0]\<rparr>"]
  by (simp add: bench_ok_def spsc_bench_init_def) (simp add: spsc_system_init_def)

subsection \<open>It can always finish\<close>

text \<open>
  From every state some schedule ends the benchmark: while the consumer is in a call or something is queued the
  consumer runs, otherwise the producer.  With fresh loads each step then brings the end closer.
\<close>

fun producer_distance :: "'a producer_point \<Rightarrow> nat" where
  "producer_distance P_Idle = 4"
| "producer_distance (P_Refresh x) = 3"
| "producer_distance (P_Write x) = 2"
| "producer_distance (P_Publish x) = 1"

fun consumer_distance :: "bool \<Rightarrow> 'a consumer_point \<Rightarrow> nat" where
  "consumer_distance none C_Idle = 4"
| "consumer_distance none C_Refresh = (if none then 5 else 3)"
| "consumer_distance none C_Read = 2"
| "consumer_distance none (C_Publish x) = 1"

definition bench_distance :: "nat \<Rightarrow> spsc_bench \<Rightarrow> nat" where
  "bench_distance ops h = 10 * ((ops - sb_i h) + (ops - sb_received h)) + producer_distance (ss_producer (sb_system h)) +
     consumer_distance (sb_received h = sb_i h) (ss_consumer (sb_system h)) + (if sb_start h then 0 else 1)"

lemma consumer_closer:
  assumes "spsc_inv (ss_ring s)" "ss_consumer s \<noteq> C_Idle \<or> spsc_contents (ss_ring s) \<noteq> []"
  shows "\<exists>ev s'. spsc_step s ev s' \<and> ss_producer s' = ss_producer s \<and>
    (popped ev \<noteq> [] \<and> ss_consumer s' = C_Idle \<or> popped ev = [] \<and>
      consumer_distance (spsc_contents (ss_ring s) = []) (ss_consumer s') < consumer_distance (spsc_contents (ss_ring s) = []) (ss_consumer s))"
proof (cases "ss_consumer s")
  case C_Idle
  with assms(2) have "spsc_contents (ss_ring s) \<noteq> []" by simp
  then show ?thesis by - (intro exI conjI, rule spsc_step.pop_call [OF C_Idle], simp_all add: C_Idle)
next
  case C_Refresh
  let ?q = "refresh_head (sr_head (ss_ring s)) (ss_ring s)"
  have q: "looks_empty ?q \<longleftrightarrow> spsc_contents (ss_ring s) = []" using refresh_head_ok(7) [OF assms(1) latest_seen(2)] by simp
  show ?thesis
  proof (cases "looks_empty ?q")
    case True
    show ?thesis
      by (intro exI conjI, rule spsc_step.pop_fail [OF C_Refresh latest_seen(2) refl True]) (use True q in \<open>simp_all add: C_Refresh\<close>)
  next
    case False
    show ?thesis
      by (intro exI conjI, rule spsc_step.pop_refresh [OF C_Refresh latest_seen(2) refl False]) (use False q in \<open>simp_all add: C_Refresh\<close>)
  qed
next
  case C_Read
  show ?thesis by (intro exI conjI, rule spsc_step.pop_read [OF C_Read]) (simp_all add: C_Read)
next
  case (C_Publish x)
  show ?thesis by (intro exI conjI, rule spsc_step.pop_publish [OF C_Publish]) (simp_all add: C_Publish)
qed

lemma producer_closer:
  assumes "spsc_inv (ss_ring s)" "spsc_contents (ss_ring s) = []"
  shows "\<exists>ev s'. spsc_step s ev s' \<and> ss_consumer s' = ss_consumer s \<and> (ss_producer s = P_Idle \<longrightarrow> pushing (ss_producer s') = Some x) \<and>
    (pushed ev \<noteq> [] \<and> ss_producer s' = P_Idle \<or> pushed ev = [] \<and> producer_distance (ss_producer s') < producer_distance (ss_producer s))"
proof (cases "ss_producer s")
  case P_Idle
  show ?thesis by (intro exI conjI, rule spsc_step.push_call [OF P_Idle, of x]) (simp_all add: P_Idle)
next
  case (P_Refresh y)
  let ?q = "refresh_tail (sr_tail (ss_ring s)) (ss_ring s)"
  have "0 < spsc_capacity (ss_ring s)" using assms(1) capacity_ok_bounds(2) by (auto simp: spsc_inv_def)
  then have q: "\<not> looks_full ?q" using refresh_tail_ok(6) [OF assms(1) latest_seen(1)] assms(2) by simp
  show ?thesis
    by (intro exI conjI, rule spsc_step.push_refresh [OF P_Refresh latest_seen(1) refl q]) (simp_all add: P_Refresh)
next
  case (P_Write y)
  show ?thesis by (intro exI conjI, rule spsc_step.push_write [OF P_Write]) (simp_all add: P_Write)
next
  case (P_Publish y)
  show ?thesis by (intro exI conjI, rule spsc_step.push_publish [OF P_Publish]) (simp_all add: P_Publish)
qed

lemma bench_closer:
  assumes "bench_ok ops h" "\<not> bench_finished ops h"
  shows "\<exists>ev h'. spsc_bench_step ops work h ev h' \<and> bench_distance ops h' < bench_distance ops h"
proof (cases "sb_start h")
  case False
  then have "bench_distance ops (h\<lparr>sb_start := True\<rparr>) < bench_distance ops h" by (simp add: bench_distance_def)
  then show ?thesis using bench_start [OF False] by blast
next
  case True
  let ?s = "sb_system h"
  have inv: "spsc_inv (ss_ring ?s)" and bounds: "sb_received h \<le> sb_i h" "sb_i h \<le> ops"
    and queued: "spsc_contents (ss_ring ?s) = [] \<longleftrightarrow> sb_received h = sb_i h"
    using assms(1) by (auto simp: bench_ok_def system_ok_def)
  show ?thesis
  proof (cases "ss_consumer ?s \<noteq> C_Idle \<or> spsc_contents (ss_ring ?s) \<noteq> []")
    case busy: True
    obtain ev s where s: "spsc_step ?s ev s" "ss_producer s = ss_producer ?s"
      "popped ev \<noteq> [] \<and> ss_consumer s = C_Idle \<or> popped ev = [] \<and>
        consumer_distance (sb_received h = sb_i h) (ss_consumer s) < consumer_distance (sb_received h = sb_i h) (ss_consumer ?s)"
      using consumer_closer [OF inv busy] unfolding queued by blast
    have "ss_consumer ?s = C_Idle \<longrightarrow> sb_received h < ops" using busy queued bounds by auto
    note step = bench_consumer [OF True s(1,2) this, where work = work]
    note ok = bench_step_ok [OF step assms(1)]
    have "consumer_distance e pt \<le> 5 \<and> 1 \<le> consumer_distance e pt" for e and pt :: "bench_msg consumer_point" by (cases pt) auto
    then have "bench_distance ops (h\<lparr>sb_system := s, sb_received := sb_received h + length (popped ev),
        sb_sink := fold (simulate_work work) (popped ev) (sb_sink h)\<rparr>) < bench_distance ops h"
      using s(2,3) ok bounds by (cases "popped ev") (auto simp: bench_distance_def bench_ok_def)
    then show ?thesis using step by blast
  next
    case idle: False
    then have next_item: "sb_received h = sb_i h" "ss_consumer ?s = C_Idle" "spsc_contents (ss_ring ?s) = []" using queued by simp_all
    obtain ev s where s: "spsc_step ?s ev s" "ss_consumer s = ss_consumer ?s"
      "ss_producer ?s = P_Idle \<longrightarrow> pushing (ss_producer s) = Some (spsc_msg (sb_i h))"
      "pushed ev \<noteq> [] \<and> ss_producer s = P_Idle \<or> pushed ev = [] \<and> producer_distance (ss_producer s) < producer_distance (ss_producer ?s)"
      using producer_closer [OF inv next_item(3)] by blast
    have "ss_producer ?s = P_Idle \<longrightarrow> sb_i h < ops \<and> pushing (ss_producer s) = Some (spsc_msg (sb_i h))"
      using assms(2) next_item bounds s(3) by (auto simp: bench_finished_def)
    note step = bench_producer [OF True s(1,2) this, where work = work]
    note ok = bench_step_ok [OF step assms(1)]
    have "1 \<le> producer_distance pt" for pt :: "bench_msg producer_point" by (cases pt) auto
    then have "bench_distance ops (h\<lparr>sb_system := s, sb_i := sb_i h + length (pushed ev)\<rparr>) < bench_distance ops h"
      using s(2,4) ok bounds next_item by (cases "pushed ev") (auto simp: bench_distance_def bench_ok_def)
    then show ?thesis using step by blast
  qed
qed

lemma bench_run_steps:
  assumes "spsc_bench_run ops work h1 evs h2" "spsc_bench_step ops work h ev h1"
  shows "spsc_bench_run ops work h (ev @ evs) h2"
  using assms
proof (induction rule: spsc_bench_run.induct)
  case (bench_nil h1)
  then show ?case using bench_more [OF spsc_bench_run.bench_nil] by fastforce
next
  case (bench_more h1 evs h2 ev' h3)
  then show ?case using spsc_bench_run.bench_more [of ops work h "ev @ evs" h2 ev' h3] by simp
qed

lemma bench_completes: "bench_ok ops h \<Longrightarrow> \<exists>evs h'. spsc_bench_run ops work h evs h' \<and> bench_finished ops h'"
proof (induction "bench_distance ops h" arbitrary: h rule: less_induct)
  case less
  show ?case
  proof (cases "bench_finished ops h")
    case True
    then show ?thesis using bench_nil by blast
  next
    case False
    obtain ev h1 where step: "spsc_bench_step ops work h ev h1" "bench_distance ops h1 < bench_distance ops h"
      using bench_closer [OF less.prems False] by blast
    have "bench_ok ops h1" using bench_step_ok [OF step(1) less.prems] by simp
    from less.hyps [OF step(2) this] show ?thesis using bench_run_steps [OF _ step(1)] by blast
  qed
qed

text \<open>C32: the two threads of the throughput benchmark under every interleaving.  At any moment the producer has
  pushed, and the consumer has received, the first messages in order, once each, the consumer no more than were
  pushed, and its work has been done on exactly those.  The harness cannot get stuck: from every state it reaches,
  some schedule ends both loops, and then the consumer has received all messages in order.\<close>

theorem throughput_benchmark_delivers:
  assumes "capacity_ok c" "spsc_bench_run kOpsPerIteration work (spsc_bench_init c) evs h"
  shows "pushed evs = map spsc_msg [0..<sb_i h] \<and> popped evs = map spsc_msg [0..<sb_received h] \<and>
    sb_received h \<le> sb_i h \<and> sb_i h \<le> kOpsPerIteration \<and>
    sb_sink h = fold (simulate_work work) (map spsc_msg [0..<sb_received h]) 0 \<and>
    (\<exists>evs' h'. spsc_bench_run kOpsPerIteration work h evs' h' \<and> bench_finished kOpsPerIteration h' \<and>
      popped (evs @ evs') = map spsc_msg [0..<kOpsPerIteration])"
proof -
  note run = bench_run_ok [OF assms(2) bench_init_ok [OF assms(1)]]
  then have ok: "bench_ok kOpsPerIteration h" by simp
  have init: "sb_i (spsc_bench_init c) = 0" "sb_received (spsc_bench_init c) = 0" "sb_sink (spsc_bench_init c) = 0"
    by (simp_all add: spsc_bench_init_def)
  have bounds: "sb_received h \<le> sb_i h" "sb_i h \<le> kOpsPerIteration" using ok by (simp_all add: bench_ok_def)
  obtain evs' h' where more: "spsc_bench_run kOpsPerIteration work h evs' h'" "bench_finished kOpsPerIteration h'"
    using bench_completes [OF ok] by blast
  have "popped evs' = map spsc_msg [sb_received h..<kOpsPerIteration]"
    using bench_run_ok [OF more(1) ok] more(2) by (simp add: bench_finished_def)
  then have "popped (evs @ evs') = map spsc_msg [0..<kOpsPerIteration]"
    using run init bounds upt_add_eq_append [of 0 "sb_received h" "kOpsPerIteration - sb_received h"] by simp
  then show ?thesis using run init bounds more by auto
qed

theorem throughput_benchmark_delivers_witness:
  "\<exists>evs h. spsc_bench_run kOpsPerIteration 20 (spsc_bench_init 256) evs h \<and> sb_received h = kOpsPerIteration \<and>
     popped evs = map spsc_msg [0..<kOpsPerIteration]"
proof -
  have c: "capacity_ok 256" unfolding capacity_ok_def by (rule bexI [of _ 8]) simp_all
  from throughput_benchmark_delivers [OF c bench_nil, of 20] obtain evs h where
    run: "spsc_bench_run kOpsPerIteration 20 (spsc_bench_init 256) evs h" and fin: "bench_finished kOpsPerIteration h" by blast
  from throughput_benchmark_delivers [OF c run] fin run show ?thesis by (auto simp: bench_finished_def)
qed

end
