(* ===== verification/Bench_Producers.thy ===== *)
theory Bench_Producers
  imports Bench_Threads Mpsc_Ring Fan_In
begin

text \<open>
  \<open>bench/bench_mpsc.cpp\<close>: several producers push numbered messages, each until the push succeeds, and one
  consumer pops until it has them all, through the shared ring or through the sequencer.  A schedule is a list of
  turns; a turn is one call of one thread, from the moment the start flag is set.  That the calls of the shared ring
  keep their effect when their steps interleave is shown in \<open>Mpsc_Threads\<close>.
\<close>

subsection \<open>The harness\<close>

definition kOpsPerProducer :: nat where "kOpsPerProducer = 2 ^ 18"

definition producer_msg :: "nat \<Rightarrow> nat \<Rightarrow> bench_msg" where
  "producer_msg p i = \<lparr>msg_seq = of_nat i, msg_payload = [of_nat p, of_nat i, of_nat i]\<rparr>"

definition empty_msg :: bench_msg where
  "empty_msg = \<lparr>msg_seq = 0, msg_payload = [0, 0, 0]\<rparr>"

text \<open>The loop of the consumer counts the messages it has received; here it keeps them.\<close>

record 'q producers_bench =
  mp_queue :: 'q
  mp_i :: "nat \<Rightarrow> nat"
  mp_received :: "bench_msg list"

definition producer_turn ::
    "(nat \<Rightarrow> bench_msg \<Rightarrow> 'q \<Rightarrow> (bool \<times> 'q) option) \<Rightarrow> nat \<Rightarrow> 'q producers_bench \<Rightarrow> 'q producers_bench option" where
  "producer_turn push p s =
     (if mp_i s p < kOpsPerProducer then
        case push p (producer_msg p (mp_i s p)) (mp_queue s) of
          None \<Rightarrow> None
        | Some (ok, q) \<Rightarrow> Some (s\<lparr>mp_queue := q, mp_i := (mp_i s)(p := mp_i s p + (if ok then 1 else 0))\<rparr>)
      else Some s)"

definition consumer_turn :: "('q \<Rightarrow> bool \<times> bench_msg \<times> 'q) \<Rightarrow> nat \<Rightarrow> 'q producers_bench \<Rightarrow> 'q producers_bench" where
  "consumer_turn pop n s =
     (if length (mp_received s) < kOpsPerProducer * n then
        let (ok, out, q) = pop (mp_queue s)
        in s\<lparr>mp_queue := q, mp_received := mp_received s @ (if ok then [out] else [])\<rparr>
      else s)"

datatype turn = ProducerTurn nat | ConsumerTurn

fun run_turns ::
    "(nat \<Rightarrow> bench_msg \<Rightarrow> 'q \<Rightarrow> (bool \<times> 'q) option) \<Rightarrow> ('q \<Rightarrow> bool \<times> bench_msg \<times> 'q) \<Rightarrow> nat \<Rightarrow> turn list \<Rightarrow>
       'q producers_bench \<Rightarrow> 'q producers_bench option" where
  "run_turns push pop n [] s = Some s"
| "run_turns push pop n (ConsumerTurn # ts) s = run_turns push pop n ts (consumer_turn pop n s)"
| "run_turns push pop n (ProducerTurn p # ts) s =
     (if p < n then case producer_turn push p s of None \<Rightarrow> None | Some s1 \<Rightarrow> run_turns push pop n ts s1
      else run_turns push pop n ts s)"

definition bench_mpsc_ring_buffer :: "nat \<Rightarrow> turn list \<Rightarrow> bench_msg mpsc_ring producers_bench option" where
  "bench_mpsc_ring_buffer n ts = run_turns (\<lambda>p. mpsc_try_push) (mpsc_try_pop empty_msg) n ts
     \<lparr>mp_queue = mpsc_init 4096 empty_msg, mp_i = (\<lambda>p. 0), mp_received = []\<rparr>"

definition drain_bench :: "bench_msg fan_in \<Rightarrow> bool \<times> bench_msg \<times> bench_msg fan_in" where
  "drain_bench f = (let (ok, out, src, f1) = try_drain_one empty_msg 0 f in (ok, out, f1))"

definition bench_fan_in_sequencer :: "nat \<Rightarrow> turn list \<Rightarrow> bench_msg fan_in producers_bench option" where
  "bench_fan_in_sequencer n ts = run_turns (\<lambda>p m f. Some (push_from p m f)) drain_bench n ts
     \<lparr>mp_queue = fan_in_init n 4096 empty_msg, mp_i = (\<lambda>p. 0), mp_received = []\<rparr>"

subsection \<open>What the harness needs of a queue\<close>

definition origin :: "bench_msg \<Rightarrow> nat" where
  "origin m = unat (hd (msg_payload m))"

definition from_producer :: "nat \<Rightarrow> bench_msg list \<Rightarrow> bench_msg list" where
  "from_producer p ms = filter (\<lambda>m. origin m = p) ms"

lemma from_producer_simps [simp]:
  "from_producer p [] = []" "from_producer p (m # ms) = (if origin m = p then [m] else []) @ from_producer p ms"
  "from_producer p (xs @ ys) = from_producer p xs @ from_producer p ys"
  by (simp_all add: from_producer_def)

lemma origin_producer_msg: "p < 2 ^ 64 \<Longrightarrow> origin (producer_msg p i) = p"
  by (simp add: origin_def producer_msg_def unat_small)

lemma from_producer_count:
  "\<forall>m \<in> set ms. origin m < n \<Longrightarrow> (\<Sum>p < n. length (from_producer p ms)) = length ms"
proof (induction ms)
  case (Cons m ms)
  have "(\<Sum>p < n. length (from_producer p (m # ms))) = (\<Sum>p < n. (if origin m = p then 1 else 0) + length (from_producer p ms))"
    by (intro sum.cong) simp_all
  also have "\<dots> = Suc (length ms)" using Cons by (simp add: sum.distrib sum.delta')
  finally show ?case by simp
qed simp

lemma sum_update:
  fixes f :: "nat \<Rightarrow> nat"
  assumes "p < n" "f p < k"
  shows "(\<Sum>r < n. k - f r) = Suc (\<Sum>r < n. k - (f(p := Suc (f p))) r)"
proof -
  have "(\<Sum>r < n. k - f r) = (k - f p) + (\<Sum>r \<in> {..<n} - {p}. k - f r)"
    "(\<Sum>r < n. k - (f(p := Suc (f p))) r) = (k - Suc (f p)) + (\<Sum>r \<in> {..<n} - {p}. k - f r)"
    using assms(1) by (simp_all add: sum.remove [of "{..<n}" p])
  with assms(2) show ?thesis by simp
qed

text \<open>What a benchmark delivers under a schedule, and under some continuation of it.\<close>

definition delivers :: "nat \<Rightarrow> (turn list \<Rightarrow> 'q producers_bench option) \<Rightarrow> turn list \<Rightarrow> bool" where
  "delivers n bench ts \<longleftrightarrow> (\<exists>s. bench ts = Some s \<and>
     (\<forall>p < n. \<exists>k \<le> mp_i s p. from_producer p (mp_received s) = map (producer_msg p) [0..<k]) \<and>
     (\<exists>ts' s'. bench (ts @ ts') = Some s' \<and> length (mp_received s') = kOpsPerProducer * n \<and>
       (\<forall>p < n. mp_i s' p = kOpsPerProducer \<and> from_producer p (mp_received s') = map (producer_msg p) [0..<kOpsPerProducer])))"

text \<open>\<open>rep b w q\<close>: producer \<open>p\<close> has the messages \<open>w p\<close> waiting in \<open>q\<close>, which can take \<open>b\<close> more.\<close>

locale producer_queue =
  fixes push :: "nat \<Rightarrow> bench_msg \<Rightarrow> 'q \<Rightarrow> (bool \<times> 'q) option"
    and pop :: "'q \<Rightarrow> bool \<times> bench_msg \<times> 'q"
    and rep :: "nat \<Rightarrow> nat \<Rightarrow> (nat \<Rightarrow> bench_msg list) \<Rightarrow> 'q \<Rightarrow> bool"
  assumes push_waits: "rep n (Suc b) w q \<Longrightarrow> p < n \<Longrightarrow> origin m = p \<Longrightarrow>
      \<exists>ok q'. push p m q = Some (ok, q') \<and> (if ok then rep n b (w(p := w p @ [m])) q' else rep n (Suc b) w q') \<and>
        ((\<forall>r < n. w r = []) \<longrightarrow> ok)"
    and pop_takes: "rep n b w q \<Longrightarrow>
      \<exists>ok m q'. pop q = (ok, m, q') \<and>
        (if ok then \<exists>p < n. \<exists>xs. w p = m # xs \<and> rep n b (w(p := xs)) q' else (\<forall>r < n. w r = []) \<and> rep n b w q')"
begin

definition bench_inv :: "nat \<Rightarrow> 'q producers_bench \<Rightarrow> bool" where
  "bench_inv n s \<longleftrightarrow> (\<exists>w. rep n (\<Sum>p < n. kOpsPerProducer - mp_i s p) w (mp_queue s) \<and>
     (\<forall>m \<in> set (mp_received s). origin m < n) \<and>
     (\<forall>p < n. mp_i s p \<le> kOpsPerProducer \<and> from_producer p (mp_received s) @ w p = map (producer_msg p) [0..<mp_i s p]))"

definition bench_left :: "nat \<Rightarrow> 'q producers_bench \<Rightarrow> nat" where
  "bench_left n s = (\<Sum>p < n. kOpsPerProducer - mp_i s p) + (kOpsPerProducer * n - length (mp_received s))"

lemma producer_turn_ok:
  assumes "bench_inv n s" "p < n" "n \<le> 8"
  shows "\<exists>s'. producer_turn push p s = Some s' \<and> bench_inv n s' \<and>
    (mp_i s p < kOpsPerProducer \<and> (\<forall>r < n. from_producer r (mp_received s) = map (producer_msg r) [0..<mp_i s r]) \<longrightarrow>
      bench_left n s' < bench_left n s)"
proof (cases "mp_i s p < kOpsPerProducer")
  case True
  let ?m = "producer_msg p (mp_i s p)" and ?i = "(mp_i s)(p := Suc (mp_i s p))"
  from assms(1) obtain w where w: "rep n (\<Sum>p < n. kOpsPerProducer - mp_i s p) w (mp_queue s)"
    "\<forall>m \<in> set (mp_received s). origin m < n"
    "\<forall>p < n. mp_i s p \<le> kOpsPerProducer \<and> from_producer p (mp_received s) @ w p = map (producer_msg p) [0..<mp_i s p]"
    unfolding bench_inv_def by blast
  note count = sum_update [of p n "mp_i s", OF assms(2) True]
  have "origin ?m = p" using assms(2,3) by (intro origin_producer_msg) simp
  from push_waits [OF w(1) [unfolded count] assms(2) this] obtain ok q where q: "push p ?m (mp_queue s) = Some (ok, q)"
    "if ok then rep n (\<Sum>r < n. kOpsPerProducer - ?i r) (w(p := w p @ [?m])) q
     else rep n (Suc (\<Sum>r < n. kOpsPerProducer - ?i r)) w q" "(\<forall>r < n. w r = []) \<longrightarrow> ok" by blast
  show ?thesis
  proof (cases ok)
    case ok: True
    let ?s = "s\<lparr>mp_queue := q, mp_i := ?i\<rparr>"
    have "\<forall>r < n. ?i r \<le> kOpsPerProducer \<and>
        from_producer r (mp_received s) @ (w(p := w p @ [?m])) r = map (producer_msg r) [0..<?i r]"
      using w(3) True by (simp flip: append_assoc)
    with w(2) q(2) ok have "bench_inv n ?s" unfolding bench_inv_def by (intro exI [of _ "w(p := w p @ [?m])"]) simp
    moreover have "bench_left n ?s < bench_left n s" using count by (simp add: bench_left_def)
    ultimately show ?thesis using q(1) ok True by (simp add: producer_turn_def)
  next
    case False
    then have "rep n (\<Sum>p < n. kOpsPerProducer - mp_i s p) w q" using q(2) count by simp
    then have "bench_inv n (s\<lparr>mp_queue := q\<rparr>)" using w(2,3) unfolding bench_inv_def by (intro exI [of _ w]) simp
    moreover have "\<not> (\<forall>r < n. from_producer r (mp_received s) = map (producer_msg r) [0..<mp_i s r])"
      using q(3) False w(3) by (metis append_self_conv)
    ultimately show ?thesis using q(1) False True by (auto simp: producer_turn_def)
  qed
qed (use assms(1) in \<open>simp add: producer_turn_def\<close>)

lemma consumer_turn_ok:
  assumes "bench_inv n s" "n \<le> 8"
  shows "bench_inv n (consumer_turn pop n s) \<and> mp_i (consumer_turn pop n s) = mp_i s \<and>
    (length (mp_received s) < kOpsPerProducer * n \<and> \<not> (\<forall>r < n. from_producer r (mp_received s) = map (producer_msg r) [0..<mp_i s r]) \<longrightarrow>
      bench_left n (consumer_turn pop n s) < bench_left n s)"
proof (cases "length (mp_received s) < kOpsPerProducer * n")
  case True
  from assms(1) obtain w where w: "rep n (\<Sum>p < n. kOpsPerProducer - mp_i s p) w (mp_queue s)"
    "\<forall>m \<in> set (mp_received s). origin m < n"
    "\<forall>p < n. mp_i s p \<le> kOpsPerProducer \<and> from_producer p (mp_received s) @ w p = map (producer_msg p) [0..<mp_i s p]"
    unfolding bench_inv_def by blast
  from pop_takes [OF w(1)] obtain ok m q where q: "pop (mp_queue s) = (ok, m, q)"
    "if ok then \<exists>p < n. \<exists>xs. w p = m # xs \<and> rep n (\<Sum>p < n. kOpsPerProducer - mp_i s p) (w(p := xs)) q
     else (\<forall>r < n. w r = []) \<and> rep n (\<Sum>p < n. kOpsPerProducer - mp_i s p) w q" by blast
  show ?thesis
  proof (cases ok)
    case ok: True
    then obtain p xs where p: "p < n" "w p = m # xs" "rep n (\<Sum>p < n. kOpsPerProducer - mp_i s p) (w(p := xs)) q" using q(2) by auto
    let ?s = "s\<lparr>mp_queue := q, mp_received := mp_received s @ [m]\<rparr>"
    have "m \<in> set (map (producer_msg p) [0..<mp_i s p])" using w(3) p(1,2) by (metis in_set_conv_decomp)
    then have m: "origin m = p" using p(1) assms(2) origin_producer_msg by auto
    have "\<forall>r < n. from_producer r (mp_received s @ [m]) @ (w(p := xs)) r = map (producer_msg r) [0..<mp_i s r]"
      using w(3) p(2) m by auto
    then have "bench_inv n ?s" unfolding bench_inv_def using w(2,3) p m by (intro exI [of _ "w(p := xs)"]) simp
    moreover have "bench_left n ?s < bench_left n s" using True by (simp add: bench_left_def)
    ultimately show ?thesis using q(1) ok True by (simp add: consumer_turn_def)
  next
    case False
    then have "\<forall>r < n. w r = []" "rep n (\<Sum>p < n. kOpsPerProducer - mp_i s p) w q" using q(2) by simp_all
    moreover from this have "bench_inv n (s\<lparr>mp_queue := q\<rparr>)" using w(2,3) unfolding bench_inv_def by (intro exI [of _ w]) simp
    ultimately show ?thesis using q(1) False True w(3) by (simp add: consumer_turn_def)
  qed
qed (use assms(1) in \<open>simp add: consumer_turn_def\<close>)

lemma run_turns_ok: "bench_inv n s \<Longrightarrow> n \<le> 8 \<Longrightarrow> \<exists>s'. run_turns push pop n ts s = Some s' \<and> bench_inv n s'"
proof (induction ts arbitrary: s)
  case (Cons t ts)
  show ?case
  proof (cases t)
    case (ProducerTurn p)
    then show ?thesis using producer_turn_ok [OF Cons.prems(1) _ Cons.prems(2), of p] Cons by (cases "p < n") auto
  next
    case ConsumerTurn
    then show ?thesis using consumer_turn_ok [OF Cons.prems] Cons by simp
  qed
qed simp

lemma run_turns_append:
  "run_turns push pop n (xs @ ys) s = (case run_turns push pop n xs s of None \<Rightarrow> None | Some s1 \<Rightarrow> run_turns push pop n ys s1)"
proof (induction xs arbitrary: s)
  case (Cons t xs)
  then show ?case by (cases t) (auto split: option.split)
qed simp

lemma received_all:
  assumes "bench_inv n s"
  shows "length (mp_received s) \<le> kOpsPerProducer * n"
    "length (mp_received s) = kOpsPerProducer * n \<Longrightarrow> p < n \<Longrightarrow>
      mp_i s p = kOpsPerProducer \<and> from_producer p (mp_received s) = map (producer_msg p) [0..<kOpsPerProducer]"
    "p < n \<Longrightarrow> \<exists>k \<le> mp_i s p. from_producer p (mp_received s) = map (producer_msg p) [0..<k]"
proof -
  from assms obtain w where w: "\<forall>m \<in> set (mp_received s). origin m < n"
    "\<forall>p < n. mp_i s p \<le> kOpsPerProducer \<and> from_producer p (mp_received s) @ w p = map (producer_msg p) [0..<mp_i s p]"
    unfolding bench_inv_def by blast
  let ?l = "\<lambda>p. length (from_producer p (mp_received s))"
  have each: "?l p \<le> mp_i s p \<and> mp_i s p \<le> kOpsPerProducer" if "p < n" for p
  proof -
    have e: "from_producer p (mp_received s) @ w p = map (producer_msg p) [0..<mp_i s p]" using w(2) that by blast
    have "?l p + length (w p) = mp_i s p" using arg_cong [OF e, of length] by simp
    moreover have "mp_i s p \<le> kOpsPerProducer" using w(2) that by blast
    ultimately show ?thesis by simp
  qed
  have sum: "(\<Sum>p < n. ?l p) = length (mp_received s)" by (rule from_producer_count [OF w(1)])
  have bound: "(\<Sum>p < n. ?l p) \<le> (\<Sum>p < n. kOpsPerProducer)" by (intro sum_mono order_trans [OF conjunct1 [OF each] conjunct2 [OF each]]) simp_all
  then show "length (mp_received s) \<le> kOpsPerProducer * n" using sum by (simp add: mult.commute)
  have pre: "from_producer p (mp_received s) = map (producer_msg p) [0..<?l p]" if "p < n" for p
  proof -
    have "from_producer p (mp_received s) = take (?l p) (map (producer_msg p) [0..<mp_i s p])"
      using w(2) that by (metis append_eq_conv_conj)
    then show ?thesis using each [OF that] by (simp add: take_map)
  qed
  then show "\<exists>k \<le> mp_i s p. from_producer p (mp_received s) = map (producer_msg p) [0..<k]" if "p < n"
    using each that by blast
  assume all: "length (mp_received s) = kOpsPerProducer * n" and p: "p < n"
  have "?l p = kOpsPerProducer"
    using sum_mono_inv [of ?l "{..<n}" "\<lambda>p. kOpsPerProducer" p] sum all p order_trans [OF conjunct1 [OF each] conjunct2 [OF each]]
    by (simp add: mult.commute)
  then show "mp_i s p = kOpsPerProducer \<and> from_producer p (mp_received s) = map (producer_msg p) [0..<kOpsPerProducer]"
    using each [OF p] pre [OF p] by simp
qed

lemma bench_can_finish:
  "bench_inv n s \<Longrightarrow> n \<le> 8 \<Longrightarrow>
    \<exists>ts s'. run_turns push pop n ts s = Some s' \<and> bench_inv n s' \<and> length (mp_received s') = kOpsPerProducer * n"
proof (induction "bench_left n s" arbitrary: s rule: less_induct)
  case less
  let ?served = "\<forall>r < n. from_producer r (mp_received s) = map (producer_msg r) [0..<mp_i s r]"
  show ?case
  proof (cases "length (mp_received s) = kOpsPerProducer * n")
    case True
    then show ?thesis using less.prems by (intro exI [of _ "[]"]) simp
  next
    case False
    then have short: "length (mp_received s) < kOpsPerProducer * n" using received_all(1) [OF less.prems(1)] by simp
    have "\<exists>t s1. run_turns push pop n [t] s = Some s1 \<and> bench_inv n s1 \<and> bench_left n s1 < bench_left n s"
    proof (cases ?served)
      case served: True
      have "\<exists>p < n. mp_i s p < kOpsPerProducer"
      proof (rule ccontr)
        assume "\<not> ?thesis"
        then have "\<forall>p < n. kOpsPerProducer \<le> mp_i s p" by (meson not_less)
        then have "(\<Sum>p < n. kOpsPerProducer) \<le> (\<Sum>p < n. length (from_producer p (mp_received s)))"
          using served by (intro sum_mono) simp
        also have "\<dots> = length (mp_received s)"
          using less.prems(1) by (intro from_producer_count) (auto simp: bench_inv_def)
        finally show False using short by (simp add: mult.commute)
      qed
      then obtain p where p: "p < n" "mp_i s p < kOpsPerProducer" by blast
      from producer_turn_ok [OF less.prems(1) p(1) less.prems(2)] obtain s1 where
        "producer_turn push p s = Some s1" "bench_inv n s1" "bench_left n s1 < bench_left n s" using p(2) served by blast
      then show ?thesis using p(1) by (intro exI [of _ "ProducerTurn p"]) simp
    next
      case False
      then show ?thesis using consumer_turn_ok [OF less.prems] short by (intro exI [of _ ConsumerTurn]) simp
    qed
    then obtain t s1 where s1: "run_turns push pop n [t] s = Some s1" "bench_inv n s1" "bench_left n s1 < bench_left n s" by blast
    from less.hyps [OF s1(3,2) less.prems(2)] obtain ts s' where
      "run_turns push pop n ts s1 = Some s'" "bench_inv n s'" "length (mp_received s') = kOpsPerProducer * n" by blast
    then show ?thesis using s1(1) run_turns_append [of n "[t]" ts s] by (intro exI [of _ "[t] @ ts"]) simp
  qed
qed

lemma bench_delivers:
  assumes "bench_inv n s0" "n \<le> 8"
  shows "delivers n (\<lambda>ts. run_turns push pop n ts s0) ts"
proof -
  obtain s where s: "run_turns push pop n ts s0 = Some s" "bench_inv n s" using run_turns_ok [OF assms] by blast
  obtain ts' s' where s': "run_turns push pop n ts' s = Some s'" "bench_inv n s'" "length (mp_received s') = kOpsPerProducer * n"
    using bench_can_finish [OF s(2) assms(2)] by blast
  have "run_turns push pop n (ts @ ts') s0 = Some s'" using s(1) s'(1) by (simp add: run_turns_append)
  then show ?thesis unfolding delivers_def using s received_all(3) [OF s(2)] received_all(2) [OF s'(2,3)] s'(3) by blast
qed

end

subsection \<open>Both queues\<close>

definition ring_rep :: "nat \<Rightarrow> nat \<Rightarrow> (nat \<Rightarrow> bench_msg list) \<Rightarrow> bench_msg mpsc_ring \<Rightarrow> bool" where
  "ring_rep n b w q \<longleftrightarrow> (\<exists>xs k. quiescent 4096 xs k q \<and> 4096 + length xs + b < 2 ^ 63 \<and> (\<forall>m \<in> set xs. origin m < n) \<and>
     (\<forall>p < n. w p = from_producer p (drop k xs)))"

lemma quiescent_bounds: "quiescent c xs k q \<Longrightarrow> k \<le> length xs \<and> length xs \<le> k + c \<and> 0 < c"
  using cells_okD(5,6,8) [of c xs k q] by (simp add: quiescent_def)

interpretation shared_ring: producer_queue "\<lambda>p. mpsc_try_push" "mpsc_try_pop empty_msg" ring_rep
proof (unfold_locales, goal_cases)
  case (1 n b w q p m)
  then obtain xs k where q: "quiescent 4096 xs k q" "4096 + length xs + Suc b < 2 ^ 63" "\<forall>m \<in> set xs. origin m < n"
    "\<forall>p < n. w p = from_producer p (drop k xs)" unfolding ring_rep_def by blast
  note bounds = quiescent_bounds [OF q(1)]
  have none: "drop k xs = []" if "\<forall>r < n. w r = []"
    using from_producer_count [of "drop k xs" n] q(3,4) that by (auto dest: in_set_dropD)
  show ?case
  proof (cases "length xs < k + 4096")
    case True
    obtain q' where q': "mpsc_try_push m q = Some (True, q')" "quiescent 4096 (xs @ [m]) k q'"
      using mpsc_try_push_room [OF q(1) True, of m] q(2) by auto
    have "ring_rep n b (w(p := w p @ [m])) q'"
      unfolding ring_rep_def using q q' 1(2,3) bounds by (intro exI [of _ "xs @ [m]"] exI [of _ k]) auto
    then show ?thesis using q'(1) by (intro exI [of _ True] exI [of _ q']) simp
  next
    case False
    then have "mpsc_try_push m q = Some (False, q)" using mpsc_try_push_full [OF q(1)] bounds by simp
    moreover have "\<not> (\<forall>r < n. w r = [])" using none False by auto
    ultimately show ?thesis using 1(1) by (intro exI [of _ False] exI [of _ q]) simp
  qed
next
  case (2 n b w q)
  then obtain xs k where q: "quiescent 4096 xs k q" "4096 + length xs + b < 2 ^ 63" "\<forall>m \<in> set xs. origin m < n"
    "\<forall>p < n. w p = from_producer p (drop k xs)" unfolding ring_rep_def by blast
  show ?case
  proof (cases "k < length xs")
    case True
    then have pop: "mpsc_try_pop empty_msg q = (True, xs ! k, free_cell q)" "quiescent 4096 xs (Suc k) (free_cell q)"
      using mpsc_try_pop_law [OF q(1), of empty_msg] by simp_all
    let ?p = "origin (xs ! k)" and ?rest = "from_producer (origin (xs ! k)) (drop (Suc k) xs)"
    have p: "?p < n" using q(3) True by simp
    have "ring_rep n b (w(?p := ?rest)) (free_cell q)"
      unfolding ring_rep_def using q pop True by (intro exI [of _ xs] exI [of _ "Suc k"]) (auto simp flip: Cons_nth_drop_Suc)
    moreover have "w ?p = xs ! k # ?rest" using q(4) p True by (simp flip: Cons_nth_drop_Suc)
    ultimately show ?thesis using pop(1) p by (intro exI [of _ True] exI [of _ "xs ! k"] exI [of _ "free_cell q"]) auto
  next
    case False
    then show ?thesis
      using 2 q(4) mpsc_try_pop_law [OF q(1), of empty_msg] by (intro exI [of _ False] exI [of _ empty_msg] exI [of _ q]) simp
  qed
qed

definition fan_rep :: "nat \<Rightarrow> nat \<Rightarrow> (nat \<Rightarrow> bench_msg list) \<Rightarrow> bench_msg fan_in \<Rightarrow> bool" where
  "fan_rep n b w f \<longleftrightarrow> fan_in_inv f \<and> producer_count f = n \<and> (\<forall>p < n. w p = waiting f p)"

interpretation sequencer: producer_queue "\<lambda>p m f. Some (push_from p m f)" drain_bench fan_rep
proof (unfold_locales, goal_cases)
  case (1 n b w f p m)
  then have f: "fan_in_inv f" "p < producer_count f" "\<forall>p < n. w p = waiting f p" "producer_count f = n" by (simp_all add: fan_rep_def)
  obtain ok f' where push: "push_from p m f = (ok, f')" by fastforce
  note st = push_from_spec [OF f(1,2) push]
  have "0 < spsc_capacity (fi_queues f ! p)" using fan_in_queue [OF f(1,2)] capacity_ok_bounds(2) by (auto simp: spsc_inv_def)
  then have "(\<forall>r < n. w r = []) \<longrightarrow> ok" using st(5) f 1(2) by simp
  moreover have "if ok then fan_rep n b (w(p := w p @ [m])) f' else fan_rep n (Suc b) w f'"
    using st(1,2,4) f 1(2) by (auto simp: fan_rep_def)
  ultimately show ?case using push by simp
next
  case (2 n b w f)
  then have f: "fan_in_inv f" "\<forall>p < n. w p = waiting f p" "producer_count f = n" by (simp_all add: fan_rep_def)
  obtain ok m p f' where pop: "try_drain_one empty_msg 0 f = (ok, m, p, f')" by (rule prod_cases4)
  note st = drain_attempts_spec [OF f(1) pop [unfolded try_drain_one_def]]
  have "if ok then \<exists>p < n. \<exists>xs. w p = m # xs \<and> fan_rep n b (w(p := xs)) f' else (\<forall>r < n. w r = []) \<and> fan_rep n b w f'"
    using st f distance_bound [OF f(1)] by (auto simp: fan_rep_def intro!: exI [of _ p])
  then show ?case using pop by (simp add: drain_bench_def)
qed

text \<open>C33: the benchmarks of the shared ring and of the sequencer deliver the same messages.  With up to eight
  producers, under every schedule of the calls, what the consumer has received from a producer at any moment is the
  first of that producer's messages in order, once each; and every schedule extends to one that ends all loops, the
  consumer having received the whole sequence of each producer and nothing else.\<close>

theorem producer_benchmarks_deliver:
  assumes "0 < n" "n \<le> 8"
  shows "delivers n (bench_mpsc_ring_buffer n) ts \<and> delivers n (bench_fan_in_sequencer n) ts"
proof -
  have c: "capacity_ok 4096" unfolding capacity_ok_def by (rule bexI [of _ 12]) simp_all
  have "4096 + (\<Sum>p < n. kOpsPerProducer) < 2 ^ 63" using assms(2) by (simp add: kOpsPerProducer_def)
  then have "ring_rep n (\<Sum>p < n. kOpsPerProducer) (\<lambda>p. []) (mpsc_init 4096 empty_msg)"
    unfolding ring_rep_def using quiescent_init [OF c, of empty_msg] by (intro exI [of _ "[]"] exI [of _ 0]) simp
  then have "shared_ring.bench_inv n \<lparr>mp_queue = mpsc_init 4096 empty_msg, mp_i = (\<lambda>p. 0), mp_received = []\<rparr>"
    unfolding shared_ring.bench_inv_def by (intro exI [of _ "\<lambda>p. []"]) simp
  moreover have "fan_rep n (\<Sum>p < n. kOpsPerProducer) (\<lambda>p. []) (fan_in_init n 4096 empty_msg)"
    using fan_in_init_inv [OF assms(1) c, where d = empty_msg] by (simp add: fan_rep_def)
  then have "sequencer.bench_inv n \<lparr>mp_queue = fan_in_init n 4096 empty_msg, mp_i = (\<lambda>p. 0), mp_received = []\<rparr>"
    unfolding sequencer.bench_inv_def by (intro exI [of _ "\<lambda>p. []"]) simp
  ultimately show ?thesis
    using shared_ring.bench_delivers [OF _ assms(2)] sequencer.bench_delivers [OF _ assms(2)]
    unfolding bench_mpsc_ring_buffer_def [abs_def] bench_fan_in_sequencer_def [abs_def] by blast
qed

theorem producer_benchmarks_deliver_witness:
  "\<exists>ts s. bench_mpsc_ring_buffer 2 (ProducerTurn 1 # ts) = Some s \<and> length (mp_received s) = 524288 \<and>
     from_producer 1 (mp_received s) = map (producer_msg 1) [0..<kOpsPerProducer]"
proof -
  have "delivers 2 (bench_mpsc_ring_buffer 2) [ProducerTurn 1]" using producer_benchmarks_deliver [of 2 "[ProducerTurn 1]"] by simp
  then obtain ts s where "bench_mpsc_ring_buffer 2 ([ProducerTurn 1] @ ts) = Some s" "length (mp_received s) = kOpsPerProducer * 2"
    "\<forall>p < 2. from_producer p (mp_received s) = map (producer_msg p) [0..<kOpsPerProducer]"
    unfolding delivers_def by blast
  then show ?thesis by (intro exI [of _ ts] exI [of _ s]) (simp add: kOpsPerProducer_def)
qed

end
