(* ===== verification/Spec2Isabelle.thy ===== *)
theory Spec2Isabelle
  imports Structure_Properties Book_Properties Matching_Properties Risk_Properties Feed_Properties Subscriber
    Concurrency_Properties Metrics_Properties Strategy_Properties Vwap_Properties Synthetic Strong_Types Viewer_Properties
    Bench_Rings Bench_Pools Bench_Matching Bench_Index Bench_Pipeline Bench_Protocol Bench_Producers
begin

text \<open>
  A verification of JANE, a simulator of an exchange for one symbol.  File names are relative to
  \<open>src/include/jane\<close>.

  \<^bold>\<open>The program.\<close>  A client message enters \<open>ReplayEngine\<close> (\<open>replay/replay_engine.hpp\<close>).
  A new order passes the gate of \<open>RiskEngine\<close>, then \<open>MatchingEngine::submit\<close> matches it against
  \<open>OrderBook\<close>; the fills update the ledger of the risk engine, and the publisher frames reports,
  trades and level updates with the codec and appends them to a byte sink.  The book stores its
  orders in a slab pool, queues them in one intrusive list per price, and finds its best prices with
  a bitmap per side.  Around this core stand the ring buffers of the order entry, the strategies,
  the metrics and a generator of synthetic orders.  Two kinds of program drive it: the viewer
  \<open>src/apps/bookview\<close>, which shows and records the book of a generated session, and the benchmarks
  under \<open>src/bench\<close>.

  \<^bold>\<open>Theories, in the order of their imports.\<close>

  \<^item> \<open>Prelude\<close>, \<open>Core\<close>: machine integers, results, the shared lemmas; \<open>core/types.hpp\<close> and
    \<open>core/order.hpp\<close>.
  \<^item> \<open>Slab_Pool\<close>, \<open>Pmr_Pool\<close>: \<open>memory/\<close>.  Both pools interpret the interface \<open>object_pool\<close>.
  \<^item> \<open>Bitmap\<close>, \<open>Price_Level\<close>, \<open>Ladder_Side\<close>, \<open>Order_Book\<close>: \<open>book/\<close>, operation by operation,
    over an explicit heap of nodes.  \<open>Order_Book_Inv\<close>, \<open>Order_Book_Spec\<close> and \<open>Priority_Book\<close> hold
    the invariant \<open>book_inv\<close>, the refinement to lists of resting orders per price, and to one list
    per side in price-time priority (interfaces \<open>time_priority_queue\<close>, \<open>priority_side\<close>,
    \<open>priority_book\<close>).  \<open>Price_Index\<close>: the three variants of \<open>book/price_index_variants.hpp\<close>
    behind the interface \<open>price_index\<close>.
  \<^item> \<open>Fifo_Matching\<close>: the reference semantics, a greedy allocation over a list.
    \<open>Matching_Engine\<close>, \<open>Matching_Spec\<close>, \<open>Matching_Props\<close>: \<open>matching/matching_engine.hpp\<close> and its
    refinement to that semantics.  \<open>Correctness\<close>: the audit of \<open>correctness/invariants.hpp\<close>.
  \<^item> \<open>Risk_Engine\<close>: \<open>risk/risk_engine.hpp\<close>.
  \<^item> \<open>Messages\<close>, \<open>Codec\<close>: \<open>protocol/\<close>; the six fixed layouts interpret \<open>wire_format\<close>.
    \<open>Market_Data\<close>: \<open>marketdata/\<close>; both sinks interpret \<open>byte_sink\<close>.
  \<^item> \<open>Replay_Engine\<close>, \<open>Replay_Spec\<close>: the driver, and its feed as a list of events.  \<open>Book_Changes\<close>:
    which levels an operation changes.  \<open>Subscriber\<close>: a reader of the feed that keeps the depth of
    the book from the level updates.
  \<^item> \<open>Ring_Prelude\<close>, \<open>Spsc_Ring\<close>, \<open>Mpsc_Ring\<close>, \<open>Fan_In\<close>: \<open>concurrency/\<close> as sequential code.
    \<open>Spsc_Threads\<close> and \<open>Mpsc_Threads\<close> run the same pieces of code as interleaved steps of the
    threads, one step per access to shared memory.
  \<^item> \<open>Metrics\<close>, \<open>Histogram_Spec\<close>: \<open>metrics/\<close>.  \<open>Strategies\<close>: \<open>strategy/\<close>.  \<open>Synthetic\<close>:
    \<open>replay/synthetic_generator.hpp\<close>.
  \<^item> \<open>Text_Format\<close>: the formatting and parsing of numbers of the C++ library; \<open>Json\<close>: a grammar and
    a parser of the part of JSON a recording uses.  \<open>Strong_Types\<close>: \<open>core/strong_type.hpp\<close>, and
    \<open>core/version.hpp\<close>.
  \<^item> \<open>Book_Viewer\<close>, \<open>Viewer_Spec\<close>: \<open>src/apps/bookview/main.cpp\<close>, from its arguments to the text it
    prints and the file it writes.
  \<^item> \<open>Bench_Rings\<close>, \<open>Bench_Pools\<close>, \<open>Bench_Book\<close>, \<open>Bench_Matching\<close>, \<open>Bench_Index\<close>, \<open>Bench_Pipeline\<close>,
    \<open>Bench_Protocol\<close>: the workloads of \<open>src/bench\<close>.  What the framework decides, the number of
    iterations, and what the machine decides, the readings of the clock, are arguments.
    \<open>Bench_Threads\<close>, \<open>Bench_Producers\<close>: the harnesses with several threads.  The first runs the two
    threads of the single-producer ring access by access; the second interleaves whole calls, over
    the interface \<open>producer_queue\<close> that the shared ring and the sequencer interpret.
  \<^item> The theories \<open>*_Properties\<close> state the properties of these components with instances on
    concrete states; this theory states those that span components.

  \<^bold>\<open>What is shown.\<close>

  \<^item> Structures: the pool never hands out a live slot, the bitmap scans find the nearest set bit, a
    level is a queue in arrival order, the three price indexes agree.
  \<^item> Book: each operation has its abstract effect and each error arises exactly under its condition;
    counters, aggregates and best prices are those of the resting orders.
  \<^item> Engine: \<open>submit\<close> returns, its fills are the greedy ones in price-time priority and within the
    limit, fill-or-kill is all or nothing, the remainder rests or is dropped as its order type says.
  \<^item> Driver: every session runs to its end with a sound, uncrossed book, a feed without gaps, and
    unchanged totals of cash and position; refused orders have no effect.
  \<^item> Wire: messages and snapshots decode to what was encoded; the level updates of a session's feed
    turn the depth of the book before it into the depth after it.
  \<^item> Concurrency: no item is lost, duplicated or reordered under any interleaving; the
    single-producer ring is wait-free; the sequencer starves no producer.
  \<^item> Metrics and strategies: the error of a percentile for samples of any size, the quotes of the market
    maker, the edge of an arbitrage, the total of a sliced order.
  \<^item> Ledger: an order that passes the gate keeps the position limit; the profit and loss of one client
    and of all clients of a symbol after any trades, as a formula over the trades.
  \<^item> Viewer: the arguments are read back as written, the recording is a JSON text whose frames are the
    states of the book, no line of the screen is cut off.
  \<^item> Wrappers: the strong types are ordered as their values, print as decimal numerals, calculate
    exactly where the result fits, and compare as the words the other theories compute with.
  \<^item> Benchmarks: each workload does what it is meant to measure (every order rests, fills or cancels,
    every allocation succeeds, the variants compared see the same input and give the same answers), the
    latency reports are consistent, and the threads hand over every message in order and can always
    finish.
  \<^item> Behaviour that departs from a comment or from the evident intention is stated as such: a replace
    is not stopped by the kill switch, mark-to-market PnL need not sum to zero, a price off the ladder
    is reported as a lack of capacity, a snapshot that is too long grows its scratch buffer in vain,
    the last slice of a parent order can be negative, a percentile of rank 0 is 0, one above 2^53
    nanoseconds is reported as the lower bound of the last bucket, an interval of 0
    makes the viewer divide by zero, and its last trade need not have happened.

  \<^bold>\<open>Conventions.\<close>

  \<^item> Integers are words of the width of the source; \<open>int64_t\<close> is read with \<open>sint\<close>.  Signed overflow,
    undefined in C++, wraps in the model; where a property needs its absence it assumes a bound.
    \<open>size_t\<close> indices and counts are natural numbers.
  \<^item> No model of the code has fuel; the JSON parser that reads recordings has, as much as the text is
    long, which \<open>parse_json_text\<close> shows to be enough.  The matching loop, the audit's walk along a
    level, the loop of the viewer and the claim loop of the multi-producer ring are partial functions
    into \<open>option\<close>; that they return is proved, for the claim loop when no other thread interferes.
    Other loops have a termination proof.
  \<^item> Code outside the repository is a parameter: the hash map (\<open>hash_map_spec\<close>), the rounding of
    doubles (\<open>ieee\<close>, and \<open>accurate_rounding\<close> for the slices of a parent order), the cosine
    (\<open>accurate_cosine\<close>), the random distributions (\<open>uniform_spec\<close>), the choice of the
    standard pool resource (\<open>pool_resource\<close>).  Each law has a concrete instance.
  \<^item> In the threads of the single-producer ring an acquire load returns any value the index has had
    since the thread last read it; in those of the multi-producer ring a load returns any value up to
    the current one, and a compare-exchange may fail spuriously.  An access to the data of a slot is
    one step; \<open>spsc_slots_apart\<close> shows that in the single-producer ring a slot is not written while
    it is read.
  \<^item> The order of the multi-producer ring is shown for fewer than \<open>2^63\<close> pushes, where its signed
    comparison of positions is exact.

  \<^bold>\<open>Not modelled.\<close>  \<open>SystemClock\<close>, which only reads the clock of the operating system; cache-line
  alignment and the pinning of threads to cores, which no result depends on; the benchmarks of the
  global allocator, which is not code of the repository; and the throughput harness on the baseline
  ring, whose calls are modelled as sequential code only.
\<close>

subsection \<open>A concrete driver\<close>

type_synonym demo_driver = "(demo_map, demo_exposure, in_memory_sink) replay_engine"

definition demo_driver :: demo_driver where
  "demo_driver = replay_init demo_engine demo_risk demo_publisher"

lemma demo_driver_parts:
  "rp_matching demo_driver = demo_engine" "rp_risk demo_driver = demo_risk" "rp_feed demo_driver = demo_publisher"
  "rp_next_sequence demo_driver = 1"
  by (simp_all add: demo_driver_def replay_init_def)

lemma demo_feed: "pub_next_sequence demo_publisher = 1" "ims_data (pub_sink demo_publisher) = []"
  by (simp_all add: demo_publisher_def publisher_init_def ims_data_def)

definition demo_new :: "side \<Rightarrow> price \<Rightarrow> quantity \<Rightarrow> new_order_message" where
  "demo_new s price qty = \<lparr>nom_order_id = 13, nom_price = price, nom_quantity = qty, nom_client_id = 9,
     nom_symbol_id = 1, nom_side = s, nom_order_type = Limit, nom_time_in_force = IOC\<rparr>"

definition demo_replace :: "price \<Rightarrow> quantity \<Rightarrow> replace_order_message" where
  "demo_replace price qty = \<lparr>rom_order_id = 11, rom_new_price = price, rom_new_quantity = qty, rom_client_id = 7, rom_symbol_id = 1\<rparr>"

definition demo_session :: "(client_message \<times> nanos) list" where
  "demo_session = [(ClientNew (demo_new Buy 103 2), 1), (ClientReplace (demo_replace 102 4), 2),
     (ClientCancel \<lparr>com_order_id = 11, com_client_id = 7, com_symbol_id = 1\<rparr>, 3)]"

subsection \<open>Properties\<close>

text \<open>C1: a session of new orders, cancels and replaces always runs to its end, whatever the messages are.
  The engine keeps its invariant throughout; the final book passes the structural audit and is
  never crossed.\<close>

theorem session_keeps_book_sound:
  assumes "engine_inv H (rp_matching r)" "hash_map_spec X"
  shows "\<exists>r'. run_session H X ims_write r ms = Some r' \<and> engine_inv H (rp_matching r') \<and>
    check_book_invariants (me_book (rp_matching r')) = Some [] \<and>
    (case (best_bid (me_book (rp_matching r')), best_ask (me_book (rp_matching r'))) of
       (Some bid, Some ask) \<Rightarrow> sint bid < sint ask | _ \<Rightarrow> True)"
proof -
  obtain r' where r': "run_session H X ims_write r ms = Some r'" "engine_inv H (rp_matching r')"
    using memory_sink.run_session_spec [OF assms] by blast
  note inv = engine_invD(2,3) [OF r'(2)]
  from inv r' show ?thesis
    using uncrossed_best [OF inv(1)] check_book_invariants_eq [OF inv(1)] by (auto split: option.splits)
qed

theorem session_keeps_book_sound_witness:
  "engine_inv fun_map (rp_matching demo_driver) \<and>
   (\<exists>r'. run_session fun_map fun_map ims_write demo_driver demo_session = Some r' \<and>
     check_book_invariants (me_book (rp_matching r')) = Some [])"
  using session_keeps_book_sound [of fun_map demo_driver fun_map demo_session] demo_engine_inv
  by (auto simp: demo_driver_parts fun_map_spec)

text \<open>C7: the bytes a session publishes are a sequence of framed trades, level updates and execution
  reports; the trades and level updates carry consecutive sequence numbers from the publisher's
  next one on, so a subscriber sees no gap and no duplicate.\<close>

theorem session_feed_gap_free:
  assumes "engine_inv H (rp_matching r)" "hash_map_spec X"
  shows "\<exists>r' evs. run_session H X ims_write r ms = Some r' \<and>
    ims_data (pub_sink (rp_feed r')) = ims_data (pub_sink (rp_feed r)) @ concat (map event_bytes evs) \<and>
    numbered (pub_next_sequence (rp_feed r)) evs = Some (pub_next_sequence (rp_feed r'))"
  using memory_sink.run_session_spec [OF assms, of ms] unfolding memory_sink.emits_def by blast

theorem session_feed_gap_free_witness:
  "engine_inv fun_map (rp_matching demo_driver) \<and>
   (\<exists>r' evs. run_session fun_map fun_map ims_write demo_driver demo_session = Some r' \<and>
     ims_data (pub_sink (rp_feed r')) = concat (map event_bytes evs) \<and> numbered 1 evs = Some (pub_next_sequence (rp_feed r')))"
  using session_feed_gap_free [of fun_map demo_driver fun_map demo_session] demo_engine_inv
  by (auto simp: demo_driver_parts fun_map_spec demo_feed)

text \<open>C8: the feed of a session tells a subscriber the book: reading the published bytes frame by frame
  succeeds, and applying the level updates found there to the aggregate depth of the book before the session
  gives exactly the aggregate depth, the total open quantity and the number of orders at every price of
  either side, of the book after it.\<close>

theorem feed_reconstructs_book:
  assumes "engine_inv H (rp_matching r)" "ob_max_orders (me_book (rp_matching r)) < 2 ^ 32"
  shows "\<exists>r' bytes evs. run_session H X ims_write r ms = Some r' \<and>
    ims_data (pub_sink (rp_feed r')) = ims_data (pub_sink (rp_feed r)) @ bytes \<and> read_feed bytes = Some evs \<and>
    fold apply_event evs (book_depth (me_book (rp_matching r))) = book_depth (me_book (rp_matching r'))"
proof -
  from memory_sink.run_session_depth [OF assms, of X ms] obtain r' evs where
    "run_session H X ims_write r ms = Some r'" "memory_sink.emits (rp_feed r) evs (rp_feed r')"
    "fold apply_event evs (book_depth (me_book (rp_matching r))) = book_depth (me_book (rp_matching r'))" by blast
  then show ?thesis
    using read_feed_bytes [of evs] by (intro exI [of _ r'] exI [of _ evs]) (simp add: memory_sink.emits_def)
qed

theorem feed_reconstructs_book_witness:
  "engine_inv fun_map (rp_matching demo_driver) \<and> ob_max_orders (me_book (rp_matching demo_driver)) < 2 ^ 32 \<and>
   (\<exists>r' evs. run_session fun_map fun_map ims_write demo_driver demo_session = Some r' \<and>
     read_feed (ims_data (pub_sink (rp_feed r'))) = Some evs \<and>
     fold apply_event evs (book_depth (me_book demo_engine)) = book_depth (me_book (rp_matching r')))"
proof -
  have "ob_max_orders (me_book demo_engine) < 2 ^ 32" by (simp add: demo_engine_def demo_two_config)
  then show ?thesis
    using feed_reconstructs_book [of fun_map demo_driver fun_map demo_session] demo_engine_inv
    by (auto simp: demo_driver_parts demo_feed)
qed

text \<open>C16: over a whole session the risk ledger is a closed system: the cash flows of all accounts and the
  positions of all accounts keep their totals, since each trade is booked once for either side.\<close>

theorem session_ledger_balanced:
  assumes "engine_inv H (rp_matching r)" "hash_map_spec X"
  shows "\<exists>r'. run_session H X ims_write r ms = Some r' \<and>
    total_cash X (rp_risk r') = total_cash X (rp_risk r) \<and> total_position X (rp_risk r') = total_position X (rp_risk r)"
  using memory_sink.run_session_spec [OF assms, of ms] by blast

theorem session_ledger_balanced_witness:
  "engine_inv fun_map (rp_matching demo_driver) \<and>
   (\<exists>r'. run_session fun_map fun_map ims_write demo_driver demo_session = Some r' \<and> total_cash fun_map (rp_risk r') = 0)"
proof -
  have "total_cash fun_map demo_risk = 0" by (simp add: total_cash_def demo_risk_position default_exposure_def)
  then show ?thesis
    using session_ledger_balanced [of fun_map demo_driver fun_map demo_session] demo_engine_inv
    by (auto simp: demo_driver_parts fun_map_spec)
qed

text \<open>C15: an order the risk gate refuses reaches neither the matching engine nor the ledger; the only thing
  published is a rejection that names the control and leaves the whole quantity open.\<close>

theorem gated_order_has_no_effect:
  fixes r :: "('m, 'x, in_memory_sink) replay_engine"
  assumes "check_new_order X (rp_risk r) (order_of_wire wire (rp_next_sequence r) ts) \<noteq> NoReject"
  shows "\<exists>r'. process_new_order H X ims_write r wire ts = Some r' \<and> rp_matching r' = rp_matching r \<and> rp_risk r' = rp_risk r \<and>
    ims_data (pub_sink (rp_feed r')) = ims_data (pub_sink (rp_feed r)) @
      frame execution_report_layout (report_of (nom_order_id wire) (nom_client_id wire) (nom_symbol_id wire) []
        (nom_quantity wire) ExecRejected (check_new_order X (rp_risk r) (order_of_wire wire (rp_next_sequence r) ts)))"
proof -
  let ?ord = "order_of_wire wire (rp_next_sequence r) ts"
  obtain r' where "process_new_order H X ims_write r wire ts = Some r'"
    "rp_matching r' = rp_matching r" "rp_risk r' = rp_risk r"
    "memory_sink.emits (rp_feed r) [EvReport (report_of (o_id ?ord) (o_client ?ord) (o_symbol ?ord) [] (o_quantity ?ord)
       ExecRejected (check_new_order X (rp_risk r) ?ord))] (rp_feed r')"
    by (rule memory_sink.process_new_order_gated [OF assms])
  then show ?thesis by (simp add: memory_sink.emits_def order_of_wire_def)
qed

theorem gated_order_has_no_effect_witness:
  "check_new_order fun_map demo_risk (order_of_wire (demo_new Buy 103 51) 1 0) = RiskMaxOrderSize \<and>
   (\<exists>r'. process_new_order fun_map fun_map ims_write demo_driver (demo_new Buy 103 51) 0 = Some r' \<and> rp_matching r' = demo_engine)"
proof -
  have "check_new_order fun_map demo_risk (order_of_wire (demo_new Buy 103 51) 1 0) = RiskMaxOrderSize"
    by (simp add: check_new_order_def demo_risk_def risk_engine_init_def demo_limits_def order_of_wire_def demo_new_def)
  then show ?thesis
    using gated_order_has_no_effect [of fun_map demo_driver "demo_new Buy 103 51" 0 fun_map] by (auto simp: demo_driver_parts)
qed

text \<open>C14: an order that passes the gate is submitted to matching with the driver's next sequence number;
  the feed receives, per fill, the trade and the new state of the level it took from, then the level
  the order rests on, then one execution report; the ledger books every fill for both parties.\<close>

theorem approved_order_effect:
  fixes r :: "('m, 'x, in_memory_sink) replay_engine"
  assumes "engine_inv H (rp_matching r)"
    "check_new_order X (rp_risk r) (order_of_wire wire (rp_next_sequence r) ts) = NoReject"
  shows "\<exists>result m fills r'. submit H (rp_matching r) (order_of_wire wire (rp_next_sequence r) ts) [] = Some (result, m, fills) \<and>
    process_new_order H X ims_write r wire ts = Some r' \<and> rp_matching r' = m \<and>
    rp_risk r' = record_fills X (rp_risk r) (nom_symbol_id wire) fills \<and> rp_next_sequence r' = rp_next_sequence r + 1 \<and>
    ims_data (pub_sink (rp_feed r')) = ims_data (pub_sink (rp_feed r)) @ concat (map event_bytes
      (new_order_events (me_book m) (pub_next_sequence (rp_feed r)) (order_of_wire wire (rp_next_sequence r) ts) result fills))"
proof -
  let ?ord = "order_of_wire wire (rp_next_sequence r) ts"
  obtain result m fills where sub: "submit H (rp_matching r) ?ord [] = Some (result, m, fills)"
    using submit_total [OF assms(1), of ?ord "[]"] by blast
  obtain r' where "process_new_order H X ims_write r wire ts = Some r'" "rp_matching r' = m"
    "rp_risk r' = record_fills X (rp_risk r) (o_symbol ?ord) fills" "rp_next_sequence r' = rp_next_sequence r + 1"
    "memory_sink.emits (rp_feed r) (new_order_events (me_book m) (pub_next_sequence (rp_feed r)) ?ord result fills) (rp_feed r')"
    by (rule memory_sink.process_new_order_approved [OF assms(2) sub])
  with sub show ?thesis by (simp add: memory_sink.emits_def order_of_wire_def)
qed

theorem approved_order_effect_witness:
  "engine_inv fun_map demo_engine \<and> check_new_order fun_map demo_risk (order_of_wire (demo_new Buy 103 2) 1 0) = NoReject \<and>
   (\<exists>r'. process_new_order fun_map fun_map ims_write demo_driver (demo_new Buy 103 2) 0 = Some r' \<and> rp_next_sequence r' = 2)"
proof -
  have "check_new_order fun_map demo_risk (order_of_wire (demo_new Buy 103 2) 1 0) = NoReject"
    by (simp add: check_new_order_def demo_risk_def risk_engine_init_def demo_limits_def order_of_wire_def demo_new_def
        fun_map_def Let_def)
  then show ?thesis
    using approved_order_effect [of fun_map demo_driver fun_map "demo_new Buy 103 2" 0] demo_engine_inv
    by (auto simp: demo_driver_parts)
qed

text \<open>C17: a replace is not subject to the risk gate.  With the kill switch engaged, a replace of a resting
  order to valid terms is still executed: it is matched like a new order, and its fills are booked.\<close>

theorem replace_bypasses_kill_switch:
  fixes r :: "('m, 'x, in_memory_sink) replay_engine"
  assumes "engine_inv H (rp_matching r)" "re_kill_switch_engaged (rp_risk r)"
    "rom_order_id wire \<in> resting_ids (book_orders (me_book (rp_matching r)))" "0 < sint (rom_new_quantity wire)"
    "index_of (me_book (rp_matching r)) (rom_new_price wire) \<noteq> None"
  shows "\<exists>result m fills symbol r'. engine_replace H (rp_matching r) (rom_order_id wire) (rom_new_price wire)
      (rom_new_quantity wire) (rp_next_sequence r) ts [] = Some (result, m, fills) \<and> rr_accepted result \<and>
    process_replace H X ims_write r wire ts = Some r' \<and> rp_matching r' = m \<and>
    rp_risk r' = record_fills X (rp_risk r) symbol fills"
proof -
  obtain result m fills where rep: "engine_replace H (rp_matching r) (rom_order_id wire) (rom_new_price wire)
      (rom_new_quantity wire) (rp_next_sequence r) ts [] = Some (result, m, fills)" "rr_accepted result"
    using engine_replace_spec [OF assms(1,3-5), of "rp_next_sequence r" ts "[]"] by metis
  obtain p where p: "book_find H (me_book (rp_matching r)) (rom_order_id wire) = Some p"
    using book_find_None [OF engine_invD(2) [OF assms(1)], of "rom_order_id wire"] assms(3) by blast
  obtain r' evs where "process_replace H X ims_write r wire ts = Some r'" "rp_matching r' = m"
    "rp_risk r' = record_fills X (rp_risk r) (o_symbol (n_order (nodes (me_book (rp_matching r)) ! p))) fills"
    by (rule memory_sink.process_replace_accepted [OF p rep])
  with rep show ?thesis by blast
qed

theorem replace_bypasses_kill_switch_witness:
  "re_kill_switch_engaged (engage_kill_switch demo_risk) \<and>
   (\<exists>result m fills r'. engine_replace fun_map demo_engine 11 102 3 1 0 [] = Some (result, m, fills) \<and> rr_accepted result \<and>
     process_replace fun_map fun_map ims_write (demo_driver\<lparr>rp_risk := engage_kill_switch demo_risk\<rparr>)
       (demo_replace 102 3) 0 = Some r' \<and> rp_matching r' = m)"
proof -
  let ?r = "demo_driver\<lparr>rp_risk := engage_kill_switch demo_risk\<rparr>"
  have "11 \<in> resting_ids (book_orders (me_book demo_engine))"
    by (simp add: demo_engine_def resting_ids_priority [OF demo_two_inv(1)] demo_two_inv demo_orders)
  moreover have "index_of (me_book demo_engine) 102 \<noteq> None"
    by (simp add: demo_engine_def demo_index [OF demo_two_inv(2)])
  moreover have "re_kill_switch_engaged (engage_kill_switch demo_risk)" by (simp add: engage_kill_switch_def)
  ultimately show ?thesis
    using replace_bypasses_kill_switch [of fun_map ?r "demo_replace 102 3" 0 fun_map] demo_engine_inv
    by (fastforce simp: demo_driver_parts demo_replace_def)
qed

subsection \<open>Strategies on the exchange\<close>

text \<open>The engine an arbitrage leg is sent to.\<close>

definition leg_engine :: "arbitrage \<Rightarrow> 'm engine \<Rightarrow> 'm engine \<Rightarrow> new_order_message \<Rightarrow> 'm engine" where
  "leg_engine s ea eb msg = (if nom_symbol_id msg = ac_symbol_a (arb_config s) then ea else eb)"

lemma taker_fills:
  assumes inv: "engine_inv H e" and adm: "admitted e ord" and lim: "o_type ord = Limit"
    and touch: "(if o_side ord = Buy then best_ask (me_book e) else best_bid (me_book e)) = Some (o_price ord)"
    and sub: "submit H e ord [] = Some (r, e', fs)"
  shows "fs = submit_fills e ord" "fs \<noteq> []" "f_price (hd fs) = o_price ord"
proof -
  show fs: "fs = submit_fills e ord" using submit_total [OF inv, of ord "[]"] adm sub by auto
  note bk = engine_invD(2) [OF inv]
  let ?s = "opposite (o_side ord)"
  have "(if o_side ord = Buy then best_ask (me_book e) else best_bid (me_book e)) = map_option o_price (book_front (me_book e) ?s)"
    using best_bid_front [OF bk] best_ask_front [OF bk] by (cases "o_side ord") simp_all
  then obtain x xs where x: "priority_orders (me_book e) ?s = x # xs" "o_price x = o_price ord"
    using touch unfolding book_front_priority [OF bk] by (auto split: list.splits)
  have "acceptable ord (o_price x)" using x(2) by (simp add: acceptable_def price_crosses_def)
  then obtain ys where "crossing_orders e ord = x # ys" using x(1) by (simp add: crossing_orders_def)
  moreover have "0 < sint (o_quantity ord)" using adm by (simp add: admitted_def)
  ultimately show "fs \<noteq> []" "f_price (hd fs) = o_price ord" using fs x(2) by (simp_all add: submit_fills_def)
qed

text \<open>C20: an arbitrage action captures its edge.  Taken on the best prices of two exchanges and submitted
  before they change, both legs trade, their first fills at exactly the prices the action saw, and
  any fill of the sell leg is above any fill of the buy leg by at least \<open>min_edge_ticks\<close>.\<close>

theorem arbitrage_captures_edge:
  fixes ea eb :: "'m engine"
  assumes "engine_inv H ea" "engine_inv H eb" "ac_symbol_a (arb_config s) \<noteq> ac_symbol_b (arb_config s)"
    "ob_symbol (me_book ea) = ac_symbol_a (arb_config s)" "ob_symbol (me_book eb) = ac_symbol_b (arb_config s)"
    "0 < sint (ac_clip_size (arb_config s))"
    "\<forall>e \<in> {ea, eb}. \<forall>p \<in> set_option (best_bid (me_book e)) \<union> set_option (best_ask (me_book e)). - (2 ^ 61) \<le> sint p \<and> sint p \<le> 2 ^ 61"
    "arbitrage_check s (best_bid (me_book ea)) (best_ask (me_book ea)) (best_bid (me_book eb)) (best_ask (me_book eb)) = (Some act, s')"
    "submit H (leg_engine s ea eb (aa_buy_leg act)) (order_of_wire (aa_buy_leg act) n1 t1) [] = Some (r1, e1, bought)"
    "submit H (leg_engine s ea eb (aa_sell_leg act)) (order_of_wire (aa_sell_leg act) n2 t2) [] = Some (r2, e2, sold)"
  shows "bought \<noteq> [] \<and> sold \<noteq> [] \<and> sint (f_price (hd sold)) - sint (f_price (hd bought)) = sint (aa_edge_ticks act) \<and>
    (\<forall>f \<in> set bought. \<forall>g \<in> set sold. sint (ac_min_edge_ticks (arb_config s)) \<le> sint (f_price g) - sint (f_price f))"
proof (rule arbitrage_check_Some [OF assms(8)])
  let ?buy = "order_of_wire (aa_buy_leg act) n1 t1" and ?sell = "order_of_wire (aa_sell_leg act) n2 t2"
  let ?eb = "leg_engine s ea eb (aa_buy_leg act)" and ?es = "leg_engine s ea eb (aa_sell_leg act)"
  fix pb ps
  assume which: "best_ask (me_book ea) = Some pb \<and> best_bid (me_book eb) = Some ps \<and> nom_symbol_id (aa_buy_leg act) = ac_symbol_a (arb_config s) \<and>
       nom_symbol_id (aa_sell_leg act) = ac_symbol_b (arb_config s) \<or>
     best_ask (me_book eb) = Some pb \<and> best_bid (me_book ea) = Some ps \<and> nom_symbol_id (aa_buy_leg act) = ac_symbol_b (arb_config s) \<and>
       nom_symbol_id (aa_sell_leg act) = ac_symbol_a (arb_config s)"
    and legs: "nom_price (aa_buy_leg act) = pb" "nom_price (aa_sell_leg act) = ps" "aa_edge_ticks act = ps - pb"
    "sint (ac_min_edge_ticks (arb_config s)) \<le> sint (ps - pb)"
    "nom_side (aa_buy_leg act) = Buy" "nom_side (aa_sell_leg act) = Sell"
    "nom_order_type (aa_buy_leg act) = Limit" "nom_order_type (aa_sell_leg act) = Limit"
    "nom_time_in_force (aa_buy_leg act) = IOC" "nom_time_in_force (aa_sell_leg act) = IOC"
    "nom_quantity (aa_buy_leg act) = ac_clip_size (arb_config s)" "nom_quantity (aa_sell_leg act) = ac_clip_size (arb_config s)"
  have ord: "o_side ?buy = Buy" "o_type ?buy = Limit" "o_price ?buy = pb" "o_side ?sell = Sell" "o_type ?sell = Limit" "o_price ?sell = ps"
    by (simp_all add: order_of_wire_def legs)
  have bounds: "- (2 ^ 61) \<le> sint pb" "sint pb \<le> 2 ^ 61" "- (2 ^ 61) \<le> sint ps" "sint ps \<le> 2 ^ 61"
    using which assms(7) by auto
  have edge: "sint (ps - pb) = sint ps - sint pb"
    by (rule sint_i64_eqI [OF word_of_sint_minus]) (use bounds in simp_all)
  have inv: "engine_inv H ?eb" "engine_inv H ?es" using assms(1,2) by (simp_all add: leg_engine_def)
  have adm: "admitted ?eb ?buy" "admitted ?es ?sell"
    using which assms(3-6) by (auto simp: admitted_def leg_engine_def order_of_wire_def legs)
  have touch: "best_ask (me_book ?eb) = Some pb" "best_bid (me_book ?es) = Some ps"
    using which assms(3) by (auto simp: leg_engine_def)
  have b: "bought = submit_fills ?eb ?buy" "bought \<noteq> []" "f_price (hd bought) = pb"
    using taker_fills [OF inv(1) adm(1) ord(2) _ assms(9)] touch(1) by (simp_all add: ord)
  have t: "sold = submit_fills ?es ?sell" "sold \<noteq> []" "f_price (hd sold) = ps"
    using taker_fills [OF inv(2) adm(2) ord(5) _ assms(10)] touch(2) by (simp_all add: ord)
  have "sint (f_price f) \<le> sint pb" if "f \<in> set bought" for f
    using submit_fills_within_limit [OF inv(1), of f ?buy] that b(1) by (simp add: ord)
  moreover have "sint ps \<le> sint (f_price g)" if "g \<in> set sold" for g
    using submit_fills_within_limit [OF inv(2), of g ?sell] that t(1) by (simp add: ord)
  ultimately show ?thesis using b t edge legs(3,4) by fastforce
qed

text \<open>An exchange for symbol 2 with one bid, at 106.\<close>

definition rich_bid :: order where
  "rich_bid = (demo_order 31 5 Buy 106 4)\<lparr>o_symbol := 2\<rparr>"

definition rich_engine :: "demo_map engine" where
  "rich_engine = \<lparr>me_book = snd (book_add fun_map (order_book_init fun_map 10 4 2 100) rich_bid), me_next_match_id = 1\<rparr>"

lemma rich_engine_inv:
  "engine_inv fun_map rich_engine" "priority_orders (me_book rich_engine) Buy = [rich_bid]" "priority_orders (me_book rich_engine) Sell = []"
  "ob_symbol (me_book rich_engine) = 2"
proof -
  let ?b = "order_book_init fun_map 10 4 2 100 :: demo_map order_book"
  have b: "book_inv fun_map ?b" "priority_orders ?b t = []" for t
    by (rule book_init_inv; simp add: fun_map_spec kNone_def)+
  have add: "add_outcome ?b rich_bid = Inr 31"
    using order_count_priority [OF b(1)]
    by (simp add: add_outcome_def rich_bid_def demo_order_def resting_ids_priority [OF b(1)] b(2))
      (simp add: order_book_init_def index_of_def Let_def)
  note spec = book_add_spec(2,5) [OF fun_map_spec b(1), of rich_bid] and prio = book_add_priority [OF fun_map_spec b(1) add]
  show q: "priority_orders (me_book rich_engine) Buy = [rich_bid]" "priority_orders (me_book rich_engine) Sell = []"
    using prio by (simp_all add: rich_engine_def b(2)) (simp_all add: rich_bid_def demo_order_def)
  have cfg: "same_config ?b (me_book rich_engine)" "book_inv fun_map (me_book rich_engine)" using spec by (simp_all add: rich_engine_def)
  then show sym: "ob_symbol (me_book rich_engine) = 2" by (simp add: same_config_def order_book_init_def)
  have "resting_ok 2 (priority_orders (me_book rich_engine) t)" for t
    by (cases t) (simp_all add: q resting_ok_def rich_bid_def demo_order_def)
  then show "engine_inv fun_map rich_engine"
    using cfg fun_map_spec sym q by (simp add: engine_inv_def uncrossed_def)
qed

lemma rich_engine_best: "best_bid (me_book rich_engine) = Some 106" "best_ask (me_book rich_engine) = None"
proof -
  note bk = engine_invD(2) [OF rich_engine_inv(1)]
  show "best_bid (me_book rich_engine) = Some 106" "best_ask (me_book rich_engine) = None"
    unfolding best_bid_front [OF bk] best_ask_front [OF bk] book_front_priority [OF bk]
    by (simp_all add: rich_engine_inv rich_bid_def demo_order_def)
qed

lemma demo_engine_best: "best_bid (me_book demo_engine) = Some 101" "best_ask (me_book demo_engine) = Some 103"
proof -
  note bk = engine_invD(2) [OF demo_engine_inv]
  show "best_bid (me_book demo_engine) = Some 101" "best_ask (me_book demo_engine) = Some 103"
    unfolding best_bid_front [OF bk] best_ask_front [OF bk] book_front_priority [OF bk]
    by (simp_all add: demo_engine_def demo_two_inv demo_orders)
qed

definition demo_arbitrage :: arbitrage where
  "demo_arbitrage = arbitrage_init \<lparr>ac_symbol_a = 1, ac_symbol_b = 2, ac_client = 9, ac_clip_size = 2, ac_min_edge_ticks = 2\<rparr> 500"

theorem arbitrage_captures_edge_witness:
  "\<exists>act s' r1 e1 bought r2 e2 sold.
     arbitrage_check demo_arbitrage (Some 101) (Some 103) (Some 106) None = (Some act, s') \<and> aa_edge_ticks act = 3 \<and>
     submit fun_map demo_engine (order_of_wire (aa_buy_leg act) 1 0) [] = Some (r1, e1, bought) \<and>
     submit fun_map rich_engine (order_of_wire (aa_sell_leg act) 2 0) [] = Some (r2, e2, sold) \<and>
     sint (f_price (hd sold)) - sint (f_price (hd bought)) = 3"
proof -
  obtain act s' where act: "arbitrage_check demo_arbitrage (Some 101) (Some 103) (Some 106) None = (Some act, s')" "aa_edge_ticks act = 3"
    "nom_symbol_id (aa_buy_leg act) = 1" "nom_symbol_id (aa_sell_leg act) = 2"
    by (simp add: arbitrage_check_def edge_between_def make_action_def make_leg_def demo_arbitrage_def arbitrage_init_def Let_def)
  have cfg: "ac_symbol_a (arb_config demo_arbitrage) = 1" "ac_symbol_b (arb_config demo_arbitrage) = 2" "ac_clip_size (arb_config demo_arbitrage) = 2"
    by (simp_all add: demo_arbitrage_def arbitrage_init_def)
  obtain r1 e1 bought where b: "submit fun_map demo_engine (order_of_wire (aa_buy_leg act) 1 0) [] = Some (r1, e1, bought)"
    using submit_total [OF demo_engine_inv] by blast
  obtain r2 e2 sold where t: "submit fun_map rich_engine (order_of_wire (aa_sell_leg act) 2 0) [] = Some (r2, e2, sold)"
    using submit_total [OF rich_engine_inv(1)] by blast
  have "sint (f_price (hd sold)) - sint (f_price (hd bought)) = sint (aa_edge_ticks act)"
    using arbitrage_captures_edge [OF demo_engine_inv rich_engine_inv(1), of demo_arbitrage act s' 1 0 r1 e1 bought 2 0 r2 e2 sold] act b t
      rich_engine_inv(4) demo_two_config(4)
    by (simp add: cfg leg_engine_def demo_engine_best rich_engine_best) (simp add: demo_engine_def)
  with act b t show ?thesis by (intro exI conjI) simp_all
qed

text \<open>Generated order flow is well-formed.  Every message a synthetic generator draws, from any seed, has a
  price within the configured spread of the middle and a quantity within the configured bounds, and
  the matching engine of its symbol admits it.\<close>

theorem generated_orders_admitted:
  assumes "uniform_spec R" "ob_symbol (me_book e) = sc_symbol (sg_config g)"
    "0 < sint (sc_min_quantity (sg_config g))" "sint (sc_min_quantity (sg_config g)) \<le> sint (sc_max_quantity (sg_config g))"
    "sint (sc_mid_price (sg_config g) - sc_price_spread_ticks (sg_config g)) \<le> sint (sc_mid_price (sg_config g) + sc_price_spread_ticks (sg_config g))"
    "generate R ids g = (msgs, g')"
  shows "map nom_order_id msgs = map fst ids \<and> (\<forall>msg \<in> set msgs.
    sint (sc_mid_price (sg_config g) - sc_price_spread_ticks (sg_config g)) \<le> sint (nom_price msg) \<and>
    sint (nom_price msg) \<le> sint (sc_mid_price (sg_config g) + sc_price_spread_ticks (sg_config g)) \<and>
    sint (nom_quantity msg) \<le> sint (sc_max_quantity (sg_config g)) \<and> admitted e (order_of_wire msg n ts))"
  using assms(2-6)
proof (induction ids arbitrary: g msgs g')
  case (Cons x ids)
  obtain oid client where x: "x = (oid, client)" by fastforce
  obtain msg g1 where n: "next_order R oid client g = (msg, g1)" by fastforce
  obtain ms g2 where r: "generate R ids g1 = (ms, g2)" by fastforce
  note rng = next_order_range [OF assms(1) n Cons.prems(3,4)]
  have out: "msgs = msg # ms" using Cons.prems(5) n r by (simp add: x)
  have "admitted e (order_of_wire msg n ts)"
    using rng Cons.prems(1,2) by (simp add: admitted_def order_of_wire_def)
  moreover note Cons.IH [of g1 ms g2, unfolded rng(9), OF Cons.prems(1-4) r]
  ultimately show ?case using rng by (simp add: out x)
qed simp

definition demo_generator :: "u64 generator" where
  "demo_generator = generator_init lowest_random \<lparr>sc_seed = 42, sc_symbol = 1, sc_mid_price = 102, sc_price_spread_ticks = 1, sc_min_quantity = 1,
     sc_max_quantity = 5, sc_market_order_fraction = 0, sc_buy_fraction = 1, sc_mean_arrival_rate_per_sec = 1000\<rparr>"

theorem generated_orders_admitted_witness:
  "uniform_spec lowest_random \<and> (\<exists>msgs g. generate lowest_random [(51, 4), (52, 4)] demo_generator = (msgs, g) \<and> length msgs = 2 \<and>
     (\<forall>msg \<in> set msgs. admitted demo_engine (order_of_wire msg 1 0)))"
proof -
  note u = lowest_random_uniform
  obtain msgs g where g: "generate lowest_random [(51, 4), (52, 4)] demo_generator = (msgs, g)" by fastforce
  have ok: "map nom_order_id msgs = [51, 52] \<and> (\<forall>msg \<in> set msgs. admitted demo_engine (order_of_wire msg 1 0))"
    using generated_orders_admitted [OF u _ _ _ _ g, of demo_engine 1 0] demo_two_config(4)
    by (simp add: demo_generator_def generator_init_def demo_engine_def)
  then have "length msgs = 2" by (metis length_map length_Cons list.size(3) numeral_2_eq_2)
  with u g ok show ?thesis by blast
qed

end
